(* ===== verification/Prelude.thy ===== *)
theory Prelude
  imports Main "HOL-Library.Monad_Syntax" "HOL-Library.List_Lexorder" "HOL-Library.Char_ord"
begin

text \<open>
  Shared vocabulary of the development: the error values that stand for the C++
  exceptions (and for the null-pointer dereferences) of the repository's ADTs, the
  rule collections that the component theories fill, and generic lemmas on
  association lists with distinct, sorted keys that the dictionary proofs share.
\<close>

section \<open>Errors\<close>

text \<open>
  Every \<open>throw\<close> of the sources becomes an \<open>Inl\<close> value carrying the exception's
  kind and message; in the C sources, a \<open>printf\<close> of an error message followed by
  \<open>exit(EXIT_FAILURE)\<close> becomes \<open>Exit_failure\<close> with that message.
  \<open>Null_dereference\<close> marks a branch where the code would read or write a field
  through a null pointer (undefined behaviour), \<open>Use_after_free\<close> one where it would
  read or write a node it has already deleted; the theorems show that such branches are
  unreachable from valid states, or exhibit a state that reaches them.
\<close>

datatype cpp_error =
    Logic_error string
  | Length_error string
  | Range_error string
  | Invalid_argument string
  | Runtime_error string
  | Exit_failure string
  | Null_dereference
  | Use_after_free

type_synonym 'a result = "cpp_error + 'a"

text \<open>Sequencing of calls that may throw: the first exception propagates.\<close>

definition rbind :: "'a result \<Rightarrow> ('a \<Rightarrow> 'b result) \<Rightarrow> 'b result" where
  "rbind m f = (case m of Inl e \<Rightarrow> Inl e | Inr a \<Rightarrow> f a)"

section \<open>Decimal text of integers\<close>

text \<open>
  \<open>std::to_string\<close> on an \<open>int\<close>: the decimal digits of the magnitude, produced from
  the last one to the first in front of an accumulator, and a leading minus sign for a
  negative number.
\<close>

function decimal_digits :: "nat \<Rightarrow> string \<Rightarrow> string" where
  "decimal_digits n acc =
     (let acc' = char_of (48 + n mod 10) # acc
      in if n < 10 then acc' else decimal_digits (n div 10) acc')"
  by pat_completeness auto
termination by (relation "measure fst") auto

definition string_of_int :: "int \<Rightarrow> string" where
  "string_of_int i =
     (if 0 \<le> i then decimal_digits (nat i) [] else CHR ''-'' # decimal_digits (nat (- i)) [])"

section \<open>Rule collections\<close>

named_theorems zip_simps "how zippers, paths and the tree abstractions interact"
named_theorems inv_simps "how the structural invariants decompose over paths"

section \<open>Association lists with distinct sorted keys\<close>

abbreviation keys :: "('k \<times> 'v) list \<Rightarrow> 'k list" where
  "keys xs \<equiv> map fst xs"

abbreviation sorted_keys :: "('k::linorder \<times> 'v) list \<Rightarrow> bool" where
  "sorted_keys xs \<equiv> sorted_wrt (<) (keys xs)"

lemma sorted_keys_distinct [simp]: "sorted_keys xs \<Longrightarrow> distinct (keys xs)"
  using strict_sorted_iff by blast

lemma map_of_insert_middle:
  assumes "k \<notin> set (keys xs)" and "k \<notin> set (keys ys)"
  shows "map_of (xs @ (k, v) # ys) = (map_of (xs @ ys))(k \<mapsto> v)"
  using assms by (induction xs) (auto simp: fun_eq_iff map_of_eq_None_iff)

lemma map_of_update_middle:
  assumes "k \<notin> set (keys xs)"
  shows "map_of (xs @ (k, v) # ys) = (map_of (xs @ (k, w) # ys))(k \<mapsto> v)"
  using assms by (induction xs) (auto simp: fun_eq_iff map_of_eq_None_iff)

lemma map_of_remove_middle:
  assumes "k \<notin> set (keys xs)" and "k \<notin> set (keys ys)"
  shows "map_of (xs @ ys) = (map_of (xs @ (k, v) # ys))(k := None)"
  using assms by (induction xs) (auto simp: fun_eq_iff map_of_eq_None_iff)

lemma sorted_keys_middle:
  "sorted_keys (xs @ (k, v) # ys) \<longleftrightarrow>
     sorted_keys xs \<and> sorted_keys ys \<and> (\<forall>x \<in> set (keys xs). x < k) \<and>
     (\<forall>y \<in> set (keys ys). k < y) \<and> (\<forall>x \<in> set (keys xs). \<forall>y \<in> set (keys ys). x < y)"
  by (auto simp: sorted_wrt_append)

lemma sorted_keys_mid_notin:
  assumes "sorted_keys (xs @ (k, v) # ys)"
  shows "k \<notin> set (keys xs)" and "k \<notin> set (keys ys)"
  using assms by (auto simp: sorted_wrt_append)

lemma sorted_keys_replace:
  "sorted_keys (xs @ (k, v) # ys) \<Longrightarrow> sorted_keys (xs @ (k, w) # ys)"
  by (simp add: sorted_wrt_append)

lemma sorted_keys_remove:
  "sorted_keys (xs @ (k, v) # ys) \<Longrightarrow> sorted_keys (xs @ ys)"
  by (auto simp: sorted_wrt_append)

lemma in_keys_map_of: "(k \<in> fst ` set xs) = (map_of xs k \<noteq> None)"
  by (simp add: map_of_eq_None_iff)

lemma takeWhile_mid: "k \<notin> set xs \<Longrightarrow> takeWhile (\<lambda>x. x \<noteq> k) (xs @ k # ys) = xs"
  by (induction xs) auto

lemma distinct_mid_unique:
  assumes "distinct (xs @ k # ys)" and "xs @ k # ys = xs' @ k # ys'"
  shows "xs = xs' \<and> ys = ys'"
proof -
  have "distinct (xs' @ k # ys')" using assms by metis
  then have "k \<notin> set xs" "k \<notin> set xs'" using assms(1) by auto
  then have "xs = xs'" using takeWhile_mid [of k xs ys] takeWhile_mid [of k xs' ys'] assms(2)
    by metis
  with assms(2) show ?thesis by simp
qed

lemma case_keys_hd:
  "(case keys xs of [] \<Rightarrow> None | k # _ \<Rightarrow> Some k) = (case xs of [] \<Rightarrow> None | (k, _) # _ \<Rightarrow> Some k)"
  by (cases xs) auto

lemma map_of_rebuild: "distinct (keys xs) \<Longrightarrow> xs = map (\<lambda>k. (k, the (map_of xs k))) (keys xs)"
proof (induction xs)
  case Nil
  then show ?case by simp
next
  case (Cons a xs)
  obtain k v where a: "a = (k, v)" by fastforce
  have "\<forall>k' \<in> set (keys xs). map_of (a # xs) k' = map_of xs k'" using Cons.prems a by auto
  then have "map (\<lambda>k. (k, the (map_of (a # xs) k))) (keys xs) = map (\<lambda>k. (k, the (map_of xs k))) (keys xs)"
    by (metis (no_types, lifting) map_eq_conv)
  with Cons a show ?case by simp
qed

lemma sorted_keys_map_of_eq:
  assumes "sorted_keys xs" and "sorted_keys ys" and "map_of xs = map_of ys"
  shows "xs = ys"
proof -
  have "set xs = set ys" using assms map_of_inject_set sorted_keys_distinct by blast
  then have "set (keys xs) = set (keys ys)" by simp
  then have "keys xs = keys ys" using assms(1,2) strict_sorted_equal by blast
  then show ?thesis
    using map_of_rebuild [of xs] map_of_rebuild [of ys] assms by (metis sorted_keys_distinct)
qed

lemma map_of_filter_key: "map_of (filter (\<lambda>p. fst p \<noteq> k) xs) = (map_of xs)(k := None)"
  by (induction xs) (auto simp: fun_eq_iff)

lemma case_drop_Suc:
  "(case drop (Suc i) xs of [] \<Rightarrow> None | x # _ \<Rightarrow> Some x) = (if Suc i < length xs then Some (xs ! Suc i) else None)"
  by (cases "Suc i < length xs") (simp_all add: Cons_nth_drop_Suc [of "Suc i", symmetric])

lemma rbind_simps [simp]: "rbind (Inl e) f = Inl e" "rbind (Inr a) f = f a"
  by (simp_all add: rbind_def)

lemma rbind_eq_Inr: "rbind m f = Inr b \<longleftrightarrow> (\<exists>a. m = Inr a \<and> f a = Inr b)"
  by (cases m) simp_all

lemma rbind_cong [fundef_cong]:
  "m = m' \<Longrightarrow> (\<And>a. m' = Inr a \<Longrightarrow> f a = g a) \<Longrightarrow> rbind m f = rbind m' g"
  by (simp add: rbind_def split: sum.split)

lemma length_filter_hd_less:
  "hd (map f xs @ [b]) \<noteq> b \<Longrightarrow> length (filter (\<lambda>p. f p \<noteq> hd (map f xs @ [b])) xs) < length xs"
  by (cases xs) (auto intro: le_imp_less_Suc length_filter_le)

end
