(* ===== verification/RB_Tree.thy ===== *)
theory RB_Tree
  imports Prelude
begin

text \<open>
  The data model of \<open>src/pa8/Dictionary.cpp\<close>: colours, nodes and the sentinel
  \<open>nil\<close>, and the parent links, represented as a zipper (the focused node together with
  the chain of its ancestors up to the root). This theory also holds the traversal and
  rotation helpers of the source (\<open>search\<close>, \<open>findMin\<close>, \<open>findMax\<close>, \<open>findNext\<close>,
  \<open>findPrev\<close>, \<open>LeftRotate\<close>, \<open>RightRotate\<close>, \<open>RB_Transplant\<close>), the abstraction of a
  tree to its in-order list of pairs, the red-black invariants, and how all of these
  decompose along a path.
\<close>

section \<open>Nodes, the sentinel and parent links\<close>

text \<open>\<open>#define BLACK -2\<close>, \<open>#define RED -1\<close>: the two values the \<open>color\<close> field takes.\<close>

datatype node_color = RED | BLACK

text \<open>
  A subtree is the sentinel \<open>nil\<close> or a real node with its colour, left subtree, key,
  value and right subtree. The sentinel is one shared object in the source; as a value
  it carries no key and no value, and its colour is \<open>BLACK\<close>.
\<close>

datatype ('k, 'v) tree = nil | Node node_color "('k, 'v) tree" 'k 'v "('k, 'v) tree"

text \<open>
  The parent pointer of a node, and the chain above it, is a list of contexts: \<open>InLeft c
  k v r\<close> says that the node is the left child of a node of colour \<open>c\<close>, key \<open>k\<close>, value
  \<open>v\<close> and right subtree \<open>r\<close>; \<open>InRight\<close> is the mirror image. A pointer \<open>N\<close> into
  the tree is the zipper \<open>(subtree at N, contexts from N's parent up to the root)\<close>; an
  empty path means that \<open>N->parent\<close> is \<open>nil\<close>, so \<open>N\<close> is the root.
\<close>

datatype ('k, 'v) ctx =
    InLeft node_color 'k 'v "('k, 'v) tree"
  | InRight node_color "('k, 'v) tree" 'k 'v

type_synonym ('k, 'v) path = "('k, 'v) ctx list"
type_synonym ('k, 'v) zipper = "('k, 'v) tree \<times> ('k, 'v) path"

text \<open>\<open>X->color\<close>: the sentinel reads as \<open>BLACK\<close>.\<close>

fun color :: "('k, 'v) tree \<Rightarrow> node_color" where
  "color nil = BLACK"
| "color (Node c _ _ _ _) = c"

text \<open>\<open>X->color = c\<close>. On the sentinel the source only ever writes \<open>BLACK\<close>, which it has.\<close>

fun paint :: "node_color \<Rightarrow> ('k, 'v) tree \<Rightarrow> ('k, 'v) tree" where
  "paint c nil = nil"
| "paint c (Node _ l k v r) = Node c l k v r"

fun ctx_color :: "('k, 'v) ctx \<Rightarrow> node_color" where
  "ctx_color (InLeft c _ _ _) = c"
| "ctx_color (InRight c _ _ _) = c"

fun ctx_paint :: "node_color \<Rightarrow> ('k, 'v) ctx \<Rightarrow> ('k, 'v) ctx" where
  "ctx_paint c (InLeft _ k v r) = InLeft c k v r"
| "ctx_paint c (InRight _ l k v) = InRight c l k v"

text \<open>Hanging a subtree back below its parent.\<close>

fun plug :: "('k, 'v) ctx \<Rightarrow> ('k, 'v) tree \<Rightarrow> ('k, 'v) tree" where
  "plug (InLeft c k v r) t = Node c t k v r"
| "plug (InRight c l k v) t = Node c l k v t"

text \<open>The whole tree, reached by following parent links to the root.\<close>

fun root_of :: "('k, 'v) zipper \<Rightarrow> ('k, 'v) tree" where
  "root_of (t, []) = t"
| "root_of (t, c # p) = root_of (plug c t, p)"

text \<open>\<open>N = N->parent\<close>; from the root it would reach the sentinel, which no caller does.\<close>

fun up :: "('k, 'v) zipper \<Rightarrow> ('k, 'v) zipper option" where
  "up (t, []) = None"
| "up (t, c # p) = Some (plug c t, p)"

text \<open>\<open>N = N->left\<close> and \<open>N = N->right\<close> on a real node.\<close>

fun down_left :: "('k, 'v) zipper \<Rightarrow> ('k, 'v) zipper option" where
  "down_left (Node c l k v r, p) = Some (l, InLeft c k v r # p)"
| "down_left (nil, p) = None"

fun down_right :: "('k, 'v) zipper \<Rightarrow> ('k, 'v) zipper option" where
  "down_right (Node c l k v r, p) = Some (r, InRight c l k v # p)"
| "down_right (nil, p) = None"

section \<open>Search and navigation\<close>

text \<open>
  \<open>search(R, k)\<close> (lines 97--112): walk down while \<open>R != nil\<close> and \<open>k != R->key\<close>,
  to the left when \<open>k < R->key\<close>. The result is the found node or the sentinel reached,
  with the path walked, which is what its parent pointers give.
\<close>

fun search :: "('k::linorder, 'v) zipper \<Rightarrow> 'k \<Rightarrow> ('k, 'v) zipper" where
  "search (nil, p) k = (nil, p)"
| "search (Node c l k' v r, p) k =
     (if k = k' then (Node c l k' v r, p)
      else if k < k' then search (l, InLeft c k' v r # p) k
      else search (r, InRight c l k' v # p) k)"

text \<open>
  \<open>findMin(R)\<close> and \<open>findMax(R)\<close> (lines 117--136): follow left (right) links while the
  child is not \<open>nil\<close>. On the sentinel itself the C++ loop would read \<open>nil->left\<close>, a
  null pointer; every caller checks \<open>R != nil\<close> first, and the model returns the
  sentinel there.
\<close>

fun findMin :: "('k, 'v) zipper \<Rightarrow> ('k, 'v) zipper" where
  "findMin (nil, p) = (nil, p)"
| "findMin (Node c l k v r, p) =
     (if l = nil then (Node c l k v r, p) else findMin (l, InLeft c k v r # p))"

fun findMax :: "('k, 'v) zipper \<Rightarrow> ('k, 'v) zipper" where
  "findMax (nil, p) = (nil, p)"
| "findMax (Node c l k v r, p) =
     (if r = nil then (Node c l k v r, p) else findMax (r, InRight c l k v # p))"

text \<open>
  The loops of \<open>findNext\<close> and \<open>findPrev\<close> that climb while \<open>N == P->right\<close>
  (\<open>N == P->left\<close>); they return \<open>P\<close>, the sentinel (focus \<open>nil\<close>) when the climb
  passes the root.
\<close>

fun climb_from_right :: "('k, 'v) zipper \<Rightarrow> ('k, 'v) zipper" where
  "climb_from_right (n, []) = (nil, [])"
| "climb_from_right (n, InRight c l k v # p) = climb_from_right (Node c l k v n, p)"
| "climb_from_right (n, InLeft c k v r # p) = (Node c n k v r, p)"

fun climb_from_left :: "('k, 'v) zipper \<Rightarrow> ('k, 'v) zipper" where
  "climb_from_left (n, []) = (nil, [])"
| "climb_from_left (n, InLeft c k v r # p) = climb_from_left (Node c n k v r, p)"
| "climb_from_left (n, InRight c l k v # p) = (Node c l k v n, p)"

text \<open>\<open>findNext(N)\<close> (lines 142--158) and \<open>findPrev(N)\<close> (lines 164--180).\<close>

fun findNext :: "('k, 'v) zipper \<Rightarrow> ('k, 'v) zipper" where
  "findNext (Node c l k v r, p) =
     (if r \<noteq> nil then findMin (r, InRight c l k v # p)
      else climb_from_right (Node c l k v r, p))"
| "findNext (nil, p) = (nil, p)"

fun findPrev :: "('k, 'v) zipper \<Rightarrow> ('k, 'v) zipper" where
  "findPrev (Node c l k v r, p) =
     (if l \<noteq> nil then findMax (l, InLeft c k v r # p)
      else climb_from_left (Node c l k v r, p))"
| "findPrev (nil, p) = (nil, p)"

section \<open>Rotations and transplant\<close>

text \<open>
  \<open>LeftRotate(N)\<close> (lines 186--217): \<open>R = N->right\<close> takes \<open>N\<close>'s place below
  \<open>N\<close>'s parent (or as the root), \<open>N\<close> becomes \<open>R\<close>'s left child and takes \<open>R\<close>'s old
  left subtree as its right one. The subtree at \<open>N\<close> is replaced in place, so the
  parent's link is the context it is plugged into. With \<open>R = nil\<close> the source writes
  through the null \<open>nil->left\<close>, which the model reports.
\<close>

fun LeftRotate :: "('k, 'v) tree \<Rightarrow> ('k, 'v) tree option" where
  "LeftRotate (Node c a k v (Node c' b k' v' d)) = Some (Node c' (Node c a k v b) k' v' d)"
| "LeftRotate _ = None"

text \<open>\<open>RightRotate(N)\<close> (lines 221--243), the mirror image.\<close>

fun RightRotate :: "('k, 'v) tree \<Rightarrow> ('k, 'v) tree option" where
  "RightRotate (Node c (Node c' a k' v' b) k v d) = Some (Node c' a k' v' (Node c b k v d))"
| "RightRotate _ = None"

text \<open>
  \<open>RB_Transplant(u, v)\<close> (lines 306--320): \<open>v\<close> takes the place of the subtree at
  \<open>u\<close> below \<open>u\<close>'s parent, and \<open>v->parent\<close> becomes \<open>u->parent\<close> (also when \<open>v\<close>
  is the sentinel). The result is the zipper at \<open>v\<close>.
\<close>

definition RB_Transplant :: "('k, 'v) zipper \<Rightarrow> ('k, 'v) tree \<Rightarrow> ('k, 'v) zipper" where
  "RB_Transplant u v = (v, snd u)"

section \<open>Abstractions\<close>

text \<open>The pairs of a subtree in key order: the order of \<open>inOrderString\<close> (lines 36--44).\<close>

fun inorder :: "('k, 'v) tree \<Rightarrow> ('k \<times> 'v) list" where
  "inorder nil = []"
| "inorder (Node _ l k v r) = inorder l @ (k, v) # inorder r"

fun size_tree :: "('k, 'v) tree \<Rightarrow> nat" where
  "size_tree nil = 0"
| "size_tree (Node _ l _ _ r) = size_tree l + size_tree r + 1"

fun height :: "('k, 'v) tree \<Rightarrow> nat" where
  "height nil = 0"
| "height (Node _ l _ _ r) = max (height l) (height r) + 1"

text \<open>The pairs of a path left and right of the focus, in key order.\<close>

fun lefts :: "('k, 'v) path \<Rightarrow> ('k \<times> 'v) list" where
  "lefts [] = []"
| "lefts (InLeft c k v r # p) = lefts p"
| "lefts (InRight c l k v # p) = lefts p @ inorder l @ [(k, v)]"

fun rights :: "('k, 'v) path \<Rightarrow> ('k \<times> 'v) list" where
  "rights [] = []"
| "rights (InLeft c k v r # p) = (k, v) # inorder r @ rights p"
| "rights (InRight c l k v # p) = rights p"

section \<open>Red-black invariants\<close>

definition bw :: "node_color \<Rightarrow> nat" where
  "bw c = (case c of BLACK \<Rightarrow> 1 | RED \<Rightarrow> 0)"

text \<open>Black nodes on the leftmost path: the black-height when all paths agree.\<close>

fun bheight :: "('k, 'v) tree \<Rightarrow> nat" where
  "bheight nil = 0"
| "bheight (Node c l _ _ _) = bheight l + bw c"

text \<open>A red node has black children (invariant 3 of the spec).\<close>

definition red_ok :: "node_color \<Rightarrow> node_color \<Rightarrow> node_color \<Rightarrow> bool" where
  "red_ok c cl cr = (c = BLACK \<or> (cl = BLACK \<and> cr = BLACK))"

fun invc :: "('k, 'v) tree \<Rightarrow> bool" where
  "invc nil = True"
| "invc (Node c l _ _ r) = (red_ok c (color l) (color r) \<and> invc l \<and> invc r)"

text \<open>Every path to the sentinel has the same number of black nodes (invariant 4).\<close>

fun invh :: "('k, 'v) tree \<Rightarrow> bool" where
  "invh nil = True"
| "invh (Node _ l _ _ r) = (bheight l = bheight r \<and> invh l \<and> invh r)"

text \<open>Search-tree order, strict on keys (invariant 2).\<close>

definition bst :: "('k::linorder, 'v) tree \<Rightarrow> bool" where
  "bst t = sorted_keys (inorder t)"

text \<open>The root is black, colours and black-heights are right, keys are ordered.\<close>

definition rbt :: "('k::linorder, 'v) tree \<Rightarrow> bool" where
  "rbt t = (bst t \<and> invc t \<and> invh t \<and> color t = BLACK)"

text \<open>The same invariants of the part of the tree outside the focus, given the colour and
  black-height of whatever hangs at the focus.\<close>

fun invc_path :: "('k, 'v) path \<Rightarrow> node_color \<Rightarrow> bool" where
  "invc_path [] c = True"
| "invc_path (InLeft pc k v r # p) c = (red_ok pc c (color r) \<and> invc r \<and> invc_path p pc)"
| "invc_path (InRight pc l k v # p) c = (red_ok pc (color l) c \<and> invc l \<and> invc_path p pc)"

fun invh_path :: "('k, 'v) path \<Rightarrow> nat \<Rightarrow> bool" where
  "invh_path [] h = True"
| "invh_path (InLeft pc k v r # p) h = (bheight r = h \<and> invh r \<and> invh_path p (h + bw pc))"
| "invh_path (InRight pc l k v # p) h = (bheight l = h \<and> invh l \<and> invh_path p (h + bw pc))"

definition path_bw :: "('k, 'v) path \<Rightarrow> nat" where
  "path_bw p = sum_list (map (\<lambda>c. bw (ctx_color c)) p)"

definition top_color :: "('k, 'v) path \<Rightarrow> node_color \<Rightarrow> node_color" where
  "top_color p c = (if p = [] then c else ctx_color (last p))"

text \<open>The keys left of a search path are below \<open>k\<close>, those right of it above.\<close>

definition bounds :: "('k::linorder, 'v) path \<Rightarrow> 'k \<Rightarrow> bool" where
  "bounds p k = ((\<forall>x \<in> set (keys (lefts p)). x < k) \<and> (\<forall>y \<in> set (keys (rights p)). k < y))"

section \<open>Lemmas: zippers and abstractions\<close>

lemma top_color_Nil [simp]: "top_color [] c = c"
  by (simp add: top_color_def)

lemma top_color_Cons [simp]: "top_color (x # p) c = top_color p (ctx_color x)"
  by (simp add: top_color_def)

lemma inorder_root_of [simp, zip_simps]:
  "inorder (root_of (t, p)) = lefts p @ inorder t @ rights p"
proof (induction p arbitrary: t)
  case Nil
  then show ?case by simp
next
  case (Cons c p)
  then show ?case by (cases c) auto
qed

lemma lefts_append [zip_simps]: "lefts (q @ p) = lefts p @ lefts q"
  by (induction q rule: lefts.induct) auto

lemma rights_append [zip_simps]: "rights (q @ p) = rights q @ rights p"
  by (induction q rule: rights.induct) auto

lemma root_of_append [zip_simps]: "root_of (t, q @ p) = root_of (root_of (t, q), p)"
  by (induction q arbitrary: t) auto

lemma color_root_of [zip_simps]: "color (root_of (t, p)) = top_color p (color t)"
proof (induction p arbitrary: t)
  case Nil
  then show ?case by simp
next
  case (Cons c p)
  then show ?case by (cases c) auto
qed

lemma color_paint [simp]: "t \<noteq> nil \<Longrightarrow> color (paint c t) = c"
  by (cases t) auto

lemma color_paint_BLACK [simp]: "color (paint BLACK t) = BLACK"
  by (cases t) auto

lemma inorder_paint [simp]: "inorder (paint c t) = inorder t"
  by (cases t) auto

lemma paint_nil_iff [simp]: "paint c t = nil \<longleftrightarrow> t = nil"
  by (cases t) auto

lemma length_inorder [simp]: "length (inorder t) = size_tree t"
  by (induction t) auto

lemma up_root_of [zip_simps]: "up z = Some z' \<Longrightarrow> root_of z' = root_of z"
  by (cases z rule: up.cases) auto

lemma down_left_root_of [zip_simps]: "down_left z = Some z' \<Longrightarrow> root_of z' = root_of z"
  by (cases z rule: down_left.cases) auto

lemma down_right_root_of [zip_simps]: "down_right z = Some z' \<Longrightarrow> root_of z' = root_of z"
  by (cases z rule: down_right.cases) auto

lemma inorder_LeftRotate: "LeftRotate t = Some t' \<Longrightarrow> inorder t' = inorder t"
  by (cases t rule: LeftRotate.cases) auto

lemma inorder_RightRotate: "RightRotate t = Some t' \<Longrightarrow> inorder t' = inorder t"
  by (cases t rule: RightRotate.cases) auto

lemma lefts_ctx_paint [simp]: "lefts (ctx_paint c x # p) = lefts (x # p)"
  by (cases x) auto

lemma rights_ctx_paint [simp]: "rights (ctx_paint c x # p) = rights (x # p)"
  by (cases x) auto

lemma ctx_color_paint [simp]: "ctx_color (ctx_paint c x) = c"
  by (cases x) auto

section \<open>Lemmas: invariants along paths\<close>

lemma bw_simps [simp]: "bw BLACK = 1" "bw RED = 0"
  by (simp_all add: bw_def)

lemma red_ok_simps [simp]:
  "red_ok BLACK cl cr" "red_ok RED cl cr \<longleftrightarrow> cl = BLACK \<and> cr = BLACK"
  "red_ok c RED cr \<longleftrightarrow> c = BLACK" "red_ok c cl RED \<longleftrightarrow> c = BLACK"
  "red_ok c BLACK BLACK"
  by (cases c; simp add: red_ok_def)+

lemma node_color_neq [simp]: "c \<noteq> BLACK \<longleftrightarrow> c = RED" "c \<noteq> RED \<longleftrightarrow> c = BLACK"
  by (cases c; simp)+

lemma invc_root_of [inv_simps]: "invc (root_of (t, p)) \<longleftrightarrow> invc t \<and> invc_path p (color t)"
proof (induction p arbitrary: t)
  case Nil
  then show ?case by simp
next
  case (Cons c p)
  then show ?case by (cases c) auto
qed

lemma invh_root_of [inv_simps]: "invh (root_of (t, p)) \<longleftrightarrow> invh t \<and> invh_path p (bheight t)"
proof (induction p arbitrary: t)
  case Nil
  then show ?case by simp
next
  case (Cons c p)
  then show ?case by (cases c) auto
qed

lemma bw_eq_0_iff [simp]: "bw c = 0 \<longleftrightarrow> c = RED"
  by (cases c) auto

lemma top_color_BLACK [intro]: "top_color p c = BLACK \<Longrightarrow> top_color p BLACK = BLACK"
  by (cases p rule: rev_cases) (auto simp: top_color_def)

lemma invc_path_BLACK [intro]: "invc_path p c \<Longrightarrow> invc_path p BLACK"
  by (induction p c rule: invc_path.induct) (auto simp: red_ok_def)

lemma invc_path_append [inv_simps]:
  "invc_path (q @ p) c \<longleftrightarrow> invc_path q c \<and> invc_path p (top_color q c)"
  by (induction q c rule: invc_path.induct) auto

lemma invh_path_append [inv_simps]:
  "invh_path (q @ p) h \<longleftrightarrow> invh_path q h \<and> invh_path p (h + path_bw q)"
  by (induction q h rule: invh_path.induct) (auto simp: path_bw_def ac_simps)

lemma top_color_append [zip_simps]: "top_color (q @ p) c = top_color p (top_color q c)"
  by (induction q arbitrary: c) auto

lemma bheight_root_of:
  "invh_path q (bheight t) \<Longrightarrow> bheight (root_of (t, q)) = bheight t + path_bw q"
proof (induction q arbitrary: t)
  case Nil
  then show ?case by (simp add: path_bw_def)
next
  case (Cons c q)
  then show ?case by (cases c) (auto simp: path_bw_def ac_simps)
qed

lemma invh_path_cong: "invh_path p a \<Longrightarrow> a = b \<Longrightarrow> invh_path p b"
  by simp

lemma invc_paint_BLACK [simp]: "invc t \<Longrightarrow> invc (paint BLACK t)"
  by (cases t) auto

lemma invh_paint [simp]: "invh (paint c t) = invh t"
  by (cases t) auto

lemma bheight_paint_BLACK: "color t = RED \<Longrightarrow> bheight (paint BLACK t) = Suc (bheight t)"
  by (cases t) auto

lemma bheight_paint_RED: "color t = BLACK \<Longrightarrow> t \<noteq> nil \<Longrightarrow> Suc (bheight (paint RED t)) = bheight t"
  by (cases t) auto

lemma black_bheight_0: "color t = BLACK \<Longrightarrow> bheight t = 0 \<Longrightarrow> t = nil"
  by (cases t) auto
section \<open>Lemmas: search and navigation\<close>

lemma sorted_keys_mid_less:
  "sorted_keys (xs @ (k, v) # ys) \<Longrightarrow> x \<in> set (keys xs) \<Longrightarrow> x < k"
  by (auto simp: sorted_wrt_append)

lemma sorted_keys_mid_greater:
  "sorted_keys (xs @ (k, v) # ys) \<Longrightarrow> y \<in> set (keys ys) \<Longrightarrow> k < y"
  by (auto simp: sorted_wrt_append)

lemma search_root_of [zip_simps]: "root_of (search z k) = root_of z"
  by (induction z k rule: search.induct) auto

lemma bounds_Nil [simp]: "bounds [] k"
  by (simp add: bounds_def)

lemma search_bounds:
  assumes "sorted_keys (inorder (root_of (t, p)))" and "bounds p k"
    and "search (t, p) k = (t', p')"
  shows "bounds p' k \<and> (t' = nil \<or> (\<exists>c l v r. t' = Node c l k v r))"
  using assms
proof (induction "(t, p)" k arbitrary: t p rule: search.induct)
  case (1 p k)
  then show ?case by simp
next
  case (2 c l k' v r p k)
  show ?case
  proof (cases "k = k'")
    case True
    with "2.prems" show ?thesis by auto
  next
    case False
    note ne = False
    show ?thesis
    proof (cases "k < k'")
      case True
      have "k' < y" if "(y, w) \<in> set (inorder r)" for y w
        using sorted_keys_mid_greater [of "lefts p @ inorder l" k' v "inorder r @ rights p"]
          "2.prems"(1) that by force
      then have "bounds (InLeft c k' v r # p) k"
        using "2.prems"(2) True by (fastforce simp: bounds_def intro: less_trans)
      with True ne "2.prems" show ?thesis by (intro "2.hyps"(1)) auto
    next
      case False
      then have "k' < k" using ne by auto
      moreover have "x < k'" if "(x, w) \<in> set (inorder l)" for x w
        using sorted_keys_mid_less [of "lefts p @ inorder l" k' v "inorder r @ rights p"]
          "2.prems"(1) that by force
      ultimately have "bounds (InRight c l k' v # p) k"
        using "2.prems"(2) by (fastforce simp: bounds_def intro: less_trans)
      with False ne "2.prems" show ?thesis by (intro "2.hyps"(2)) auto
    qed
  qed
qed


lemma map_of_middle_Some:
  "k \<notin> set (keys xs) \<Longrightarrow> map_of (xs @ (k, v) # ys) k = Some v"
  by (induction xs) auto

lemma search_found:
  assumes "bst t" and "search (t, []) k = (Node c l k' v r, p')"
  shows "k' = k \<and> map_of (inorder t) k = Some v \<and> root_of (Node c l k' v r, p') = t"
proof -
  have s: "sorted_keys (inorder (root_of (t, [])))" using assms(1) by (simp add: bst_def)
  from search_bounds [OF s _ assms(2)] have "k' = k" by simp
  moreover have root: "root_of (Node c l k' v r, p') = t"
    using search_root_of [of "(t, [])" k] assms(2) by simp
  moreover have lt: "x < k'" if "(x, w) \<in> set (lefts p' @ inorder l)" for x w
    using sorted_keys_mid_less [of "lefts p' @ inorder l" k' v "inorder r @ rights p'"] s root that
    by force
  moreover have "k \<notin> set (keys (lefts p' @ inorder l))"
    using lt \<open>k' = k\<close> by fastforce
  ultimately show ?thesis
    using root map_of_middle_Some [of k "lefts p' @ inorder l" v "inorder r @ rights p'"]
    by (metis append.assoc append_Cons inorder_root_of inorder.simps(2))
qed

lemma search_not_found:
  assumes "bst t" and "search (t, []) k = (nil, p')"
  shows "k \<notin> set (keys (inorder t))"
proof -
  have s: "sorted_keys (inorder (root_of (t, [])))" using assms(1) by (simp add: bst_def)
  from search_bounds [OF s _ assms(2)] have "bounds p' k" by simp
  moreover have "root_of (nil, p') = t"
    using search_root_of [of "(t, [])" k] assms(2) by simp
  ultimately show ?thesis by (force simp: bounds_def)
qed

lemma findMin_shape:
  "findMin (t, p) = (t', p') \<Longrightarrow> t \<noteq> nil \<Longrightarrow>
   \<exists>q c k v r. t' = Node c nil k v r \<and> p' = q @ p \<and> lefts q = [] \<and> root_of (t', q) = t"
proof (induction "(t, p)" arbitrary: t p rule: findMin.induct)
  case (1 p)
  then show ?case by simp
next
  case (2 c l k v r p)
  show ?case
  proof (cases "l = nil")
    case True
    with "2.prems" show ?thesis by (intro exI [of _ "[]"]) auto
  next
    case False
    with "2.prems" "2.hyps" obtain q c' k' v' r' where
      "t' = Node c' nil k' v' r'" "p' = q @ InLeft c k v r # p" "lefts q = []"
      "root_of (t', q) = l"
      by auto
    then show ?thesis
      by (intro exI [of _ "q @ [InLeft c k v r]"]) (auto simp: zip_simps)
  qed
qed

lemma findMax_shape:
  "findMax (t, p) = (t', p') \<Longrightarrow> t \<noteq> nil \<Longrightarrow>
   \<exists>q c l k v. t' = Node c l k v nil \<and> p' = q @ p \<and> rights q = [] \<and> root_of (t', q) = t"
proof (induction "(t, p)" arbitrary: t p rule: findMax.induct)
  case (1 p)
  then show ?case by simp
next
  case (2 c l k v r p)
  show ?case
  proof (cases "r = nil")
    case True
    with "2.prems" show ?thesis by (intro exI [of _ "[]"]) auto
  next
    case False
    with "2.prems" "2.hyps" obtain q c' l' k' v' where
      "t' = Node c' l' k' v' nil" "p' = q @ InRight c l k v # p" "rights q = []"
      "root_of (t', q) = r"
      by auto
    then show ?thesis
      by (intro exI [of _ "q @ [InRight c l k v]"]) (auto simp: zip_simps)
  qed
qed

lemma climb_from_right_result:
  "climb_from_right (n, p) = (t', p') \<Longrightarrow>
   (rights p = [] \<and> t' = nil) \<or>
   (\<exists>c l k v r. t' = Node c l k v r \<and> rights p = (k, v) # inorder r @ rights p' \<and>
      root_of (t', p') = root_of (n, p))"
  by (induction "(n, p)" arbitrary: n p rule: climb_from_right.induct) auto

lemma climb_from_left_result:
  "climb_from_left (n, p) = (t', p') \<Longrightarrow>
   (lefts p = [] \<and> t' = nil) \<or>
   (\<exists>c l k v r. t' = Node c l k v r \<and> lefts p = lefts p' @ inorder l @ [(k, v)] \<and>
      root_of (t', p') = root_of (n, p))"
  by (induction "(n, p)" arbitrary: n p rule: climb_from_left.induct) auto

section \<open>Lemmas: height and black height\<close>

lemma height_bheight:
  "invc t \<Longrightarrow> invh t \<Longrightarrow> height t \<le> 2 * bheight t + (if color t = RED then 1 else 0)"
proof (induction t)
  case nil
  then show ?case by simp
next
  case (Node c l k v r)
  then show ?case by (cases c; cases "color l"; cases "color r") (auto simp: red_ok_def)
qed

lemma bheight_size: "invh t \<Longrightarrow> 2 ^ bheight t \<le> size_tree t + 1"
proof (induction t)
  case nil
  then show ?case by simp
next
  case (Node c l k v r)
  then have "2 ^ bheight l \<le> size_tree l + 1" "2 ^ bheight r \<le> size_tree r + 1" "bheight l = bheight r"
    by auto
  then show ?case by (cases c) auto
qed

lemma rbt_height_size: "rbt t \<Longrightarrow> 2 ^ height t \<le> (size_tree t + 1) ^ 2"
proof -
  assume "rbt t"
  then have h: "height t \<le> 2 * bheight t" and s: "2 ^ bheight t \<le> size_tree t + 1"
    using height_bheight [of t] bheight_size [of t] by (auto simp: rbt_def)
  have "2 ^ height t \<le> (2::nat) ^ (2 * bheight t)" using h by (simp add: power_increasing)
  also have "\<dots> = (2 ^ bheight t) ^ 2" by (simp add: power_mult [symmetric] mult.commute)
  also have "\<dots> \<le> (size_tree t + 1) ^ 2" using s by (simp add: power_mono)
  finally show ?thesis .
qed

end
