(* ===== verification/RB_Insert.thy ===== *)
theory RB_Insert
  imports RB_Tree
begin

text \<open>
  Insertion into the red-black tree of \<open>src/pa8/Dictionary.cpp\<close>: the walk of
  \<open>setValue\<close> that either overwrites the value of an existing key or hangs a new red
  leaf below the last node visited, and \<open>RB_InsertFixUp\<close>, whose loop restores the
  colour invariants bottom-up by recolouring and rotating. The loop is a function over
  the zipper at \<open>N\<close> with the length of \<open>N\<close>'s path as its termination measure.
  Lemmas: the loop terminates, never reaches a null pointer on a tree that satisfies
  the invariants, keeps the in-order contents, and re-establishes the red-black
  invariants.
\<close>

section \<open>Pointer moves used by the fix-up\<close>

text \<open>\<open>LeftRotate(N)\<close> on the node at the focus, the focus then on the node that took
  \<open>N\<close>'s place.\<close>

definition rotate_left_z :: "('k, 'v) zipper \<Rightarrow> ('k, 'v) zipper option" where
  "rotate_left_z z = map_option (\<lambda>t. (t, snd z)) (LeftRotate (fst z))"

definition rotate_right_z :: "('k, 'v) zipper \<Rightarrow> ('k, 'v) zipper option" where
  "rotate_right_z z = map_option (\<lambda>t. (t, snd z)) (RightRotate (fst z))"

text \<open>\<open>N->parent->color\<close>, the sentinel's \<open>BLACK\<close> at the root.\<close>

fun parent_color :: "('k, 'v) zipper \<Rightarrow> node_color" where
  "parent_color (n, []) = BLACK"
| "parent_color (n, c # p) = ctx_color c"

text \<open>\<open>N == N->parent->right\<close> and \<open>N == N->parent->left\<close>.\<close>

fun is_right_child :: "('k, 'v) ctx \<Rightarrow> bool" where
  "is_right_child (InRight _ _ _ _) = True"
| "is_right_child (InLeft _ _ _ _) = False"

fun is_left_child :: "('k, 'v) ctx \<Rightarrow> bool" where
  "is_left_child (InLeft _ _ _ _) = True"
| "is_left_child (InRight _ _ _ _) = False"

text \<open>\<open>N->parent->color = BLACK; N->parent->parent->color = RED\<close>.\<close>

fun recolor_parents :: "('k, 'v) zipper \<Rightarrow> ('k, 'v) zipper option" where
  "recolor_parents (n, c1 # c2 # p) = Some (n, ctx_paint BLACK c1 # ctx_paint RED c2 # p)"
| "recolor_parents _ = None"

section \<open>RB_InsertFixUp\<close>

text \<open>
  One iteration of the \<open>while\<close> loop of \<open>RB_InsertFixUp\<close> (lines 247--299). The first
  two equations are the branches on whether \<open>N->parent\<close> is a left or a right child of
  \<open>N->parent->parent\<close>; the uncle \<open>U\<close> is the grandparent's other subtree. With a red
  uncle, parent and uncle turn black, the grandparent red, and \<open>N\<close> moves to the
  grandparent. With a black uncle, an inner \<open>N\<close> first moves to its parent, which is
  rotated away from it; then parent and grandparent are recoloured and the grandparent is
  rotated the other way, \<open>N\<close> staying on the same node. When \<open>N->parent\<close> is the root,
  \<open>N->parent->parent\<close> is the sentinel and the source reads the uncle through the null
  \<open>nil->left\<close>.
\<close>

fun RB_InsertFixUp_step :: "('k, 'v) zipper \<Rightarrow> ('k, 'v) zipper option" where
  "RB_InsertFixUp_step (n, pc # InLeft gc gk gv u # rest) =
     (if color u = RED then
        up (n, ctx_paint BLACK pc # InLeft RED gk gv (paint BLACK u) # rest) \<bind> up
      else do {
        z \<leftarrow> (if is_right_child pc
              then up (n, pc # InLeft gc gk gv u # rest) \<bind> rotate_left_z \<bind> down_left
              else Some (n, pc # InLeft gc gk gv u # rest));
        recolor_parents z \<bind> up \<bind> up \<bind> rotate_right_z \<bind> down_left
      })"
| "RB_InsertFixUp_step (n, pc # InRight gc u gk gv # rest) =
     (if color u = RED then
        up (n, ctx_paint BLACK pc # InRight RED (paint BLACK u) gk gv # rest) \<bind> up
      else do {
        z \<leftarrow> (if is_left_child pc
              then up (n, pc # InRight gc u gk gv # rest) \<bind> rotate_right_z \<bind> down_right
              else Some (n, pc # InRight gc u gk gv # rest));
        recolor_parents z \<bind> up \<bind> up \<bind> rotate_left_z \<bind> down_right
      })"
| "RB_InsertFixUp_step (n, [pc]) = None"
| "RB_InsertFixUp_step (n, []) = None"


text \<open>Every iteration moves \<open>N\<close> at least one level closer to the root.\<close>

lemma RB_InsertFixUp_step_length:
  assumes "RB_InsertFixUp_step z = Some z'"
  shows "length (snd z') < length (snd z)"
  using assms
proof (cases z rule: RB_InsertFixUp_step.cases)
  case (1 n pc gc gk gv u rest)
  with assms show ?thesis
    by (cases pc; cases n)
       (auto simp: rotate_left_z_def rotate_right_z_def bind_eq_Some_conv
             split: if_splits elim!: LeftRotate.elims RightRotate.elims)
next
  case (2 n pc gc u gk gv rest)
  with assms show ?thesis
    by (cases pc; cases n)
       (auto simp: rotate_left_z_def rotate_right_z_def bind_eq_Some_conv
             split: if_splits elim!: LeftRotate.elims RightRotate.elims)
qed auto

text \<open>The \<open>while( N->parent->color==RED )\<close> loop.\<close>

function RB_InsertFixUp_loop :: "('k, 'v) zipper \<Rightarrow> ('k, 'v) zipper option" where
  "RB_InsertFixUp_loop z =
     (if parent_color z = RED then RB_InsertFixUp_step z \<bind> RB_InsertFixUp_loop else Some z)"
  by pat_completeness auto
termination
  by (relation "measure (\<lambda>z. length (snd z))") (auto dest: RB_InsertFixUp_step_length)


declare RB_InsertFixUp_loop.simps [simp del]

text \<open>After the loop, \<open>root->color = BLACK\<close> (line 302); the result is the new tree.\<close>

definition RB_InsertFixUp :: "('k, 'v) zipper \<Rightarrow> ('k, 'v) tree option" where
  "RB_InsertFixUp z = map_option (\<lambda>z'. paint BLACK (root_of z')) (RB_InsertFixUp_loop z)"

section \<open>The walk of setValue\<close>

text \<open>
  The \<open>while( C!=nil )\<close> loop of \<open>setValue\<close> (lines 587--615): left when
  \<open>k < C->key\<close>, right when \<open>k > C->key\<close>; on an equal key the value is overwritten in
  place and \<open>setValue\<close> returns (\<open>Inl\<close>, the whole tree). At the sentinel the new node
  (red, both children \<open>nil\<close>, line 578--584) is hung below \<open>P\<close> on the side of the last
  comparison (\<open>Inr\<close>, the zipper at the new node, ready for \<open>RB_InsertFixUp\<close>).
\<close>

fun setValue_walk :: "'k::linorder \<Rightarrow> 'v \<Rightarrow> ('k, 'v) zipper \<Rightarrow> ('k, 'v) tree + ('k, 'v) zipper" where
  "setValue_walk k v (nil, p) = Inr (Node RED nil k v nil, p)"
| "setValue_walk k v (Node c l k' v' r, p) =
     (if k < k' then setValue_walk k v (l, InLeft c k' v' r # p)
      else if k' < k then setValue_walk k v (r, InRight c l k' v' # p)
      else Inl (root_of (Node c l k' v r, p)))"

section \<open>Invariant of the fix-up loop\<close>

text \<open>
  While the loop runs, \<open>N\<close> is red and its subtree is a red-black tree; the only
  possible fault is that \<open>N->parent\<close> is red too. Painting \<open>N\<close> black would repair
  the colours; the black-heights are right everywhere and the root is black unless it
  is \<open>N\<close>.
\<close>

definition ins_inv :: "('k, 'v) zipper \<Rightarrow> bool" where
  "ins_inv z =
     (color (fst z) = RED \<and> invc (fst z) \<and> invh (fst z) \<and>
      invc_path (snd z) BLACK \<and> invh_path (snd z) (bheight (fst z)) \<and>
      top_color (snd z) BLACK = BLACK)"

lemma RB_InsertFixUp_step_inv:
  assumes "ins_inv z" and "parent_color z = RED"
  shows "\<exists>z'. RB_InsertFixUp_step z = Some z' \<and> ins_inv z' \<and>
    inorder (root_of z') = inorder (root_of z)"
  using assms
proof (cases z rule: RB_InsertFixUp_step.cases)
  case (1 n pc gc gk gv u rest)
  with assms show ?thesis
    by (cases pc; cases n)
       (auto simp: ins_inv_def rotate_left_z_def rotate_right_z_def bheight_paint_BLACK)
next
  case (2 n pc gc u gk gv rest)
  with assms show ?thesis
    by (cases pc; cases n)
       (auto simp: ins_inv_def rotate_left_z_def rotate_right_z_def bheight_paint_BLACK)
qed (auto simp: ins_inv_def)


lemma RB_InsertFixUp_loop_inv:
  "ins_inv z \<Longrightarrow> \<exists>z'. RB_InsertFixUp_loop z = Some z' \<and> ins_inv z' \<and>
     parent_color z' = BLACK \<and> inorder (root_of z') = inorder (root_of z)"
proof (induction z rule: RB_InsertFixUp_loop.induct)
  case (1 z)
  show ?case
  proof (cases "parent_color z = RED")
    case True
    with "1.prems" obtain z1 where z1: "RB_InsertFixUp_step z = Some z1" "ins_inv z1"
      "inorder (root_of z1) = inorder (root_of z)"
      using RB_InsertFixUp_step_inv by blast
    with "1.IH" [OF True z1(1)] True show ?thesis
      by (auto simp: RB_InsertFixUp_loop.simps [of z])
  next
    case False
    with "1.prems" show ?thesis by (simp add: RB_InsertFixUp_loop.simps [of z])
  qed
qed

lemma ins_inv_exit:
  assumes "ins_inv z" and "parent_color z = BLACK"
  shows "invc (root_of z) \<and> invh (root_of z)"
proof (cases z)
  case (Pair n p)
  with assms show ?thesis
    by (cases p rule: list.exhaust; cases "hd p")
       (auto simp: ins_inv_def inv_simps)
qed

text \<open>From a state of the loop invariant, \<open>RB_InsertFixUp\<close> returns a red-black tree
  with the same pairs.\<close>

lemma RB_InsertFixUp_correct:
  assumes "ins_inv z"
  shows "\<exists>t. RB_InsertFixUp z = Some t \<and> invc t \<and> invh t \<and> color t = BLACK \<and>
    inorder t = inorder (root_of z)"
proof -
  obtain z' where z': "RB_InsertFixUp_loop z = Some z'" "ins_inv z'" "parent_color z' = BLACK"
    "inorder (root_of z') = inorder (root_of z)"
    using RB_InsertFixUp_loop_inv [OF assms] by blast
  then have "invc (root_of z') \<and> invh (root_of z')" by (intro ins_inv_exit)
  with z' show ?thesis by (simp add: RB_InsertFixUp_def)
qed

text \<open>The walk of \<open>setValue\<close> visits the nodes \<open>search\<close> visits and stops where it stops.\<close>

lemma setValue_walk_search:
  "setValue_walk k v z =
     (case search z k of
        (nil, p) \<Rightarrow> Inr (Node RED nil k v nil, p)
      | (Node c l k' v' r, p) \<Rightarrow> Inl (root_of (Node c l k' v r, p)))"
  by (induction k v z rule: setValue_walk.induct) auto


lemma setValue_walk_overwrite:
  assumes "rbt t" and "setValue_walk k v (t, []) = Inl t'"
  shows "rbt t' \<and> map_of (inorder t') = (map_of (inorder t))(k \<mapsto> v) \<and>
    size_tree t' = size_tree t \<and> k \<in> set (keys (inorder t))"
proof -
  obtain c l k' v' r p where s: "search (t, []) k = (Node c l k' v' r, p)"
    and t': "t' = root_of (Node c l k' v r, p)"
    using assms(2) by (auto simp: setValue_walk_search split: prod.splits tree.splits)
  have bst: "bst t" using assms(1) by (simp add: rbt_def)
  from search_found [OF bst s] have kk: "k' = k" and t: "root_of (Node c l k v' r, p) = t"
    by auto
  let ?xs = "lefts p @ inorder l" and ?ys = "inorder r @ rights p"
  have it: "inorder t = ?xs @ (k, v') # ?ys" using t [symmetric] by simp
  have it': "inorder t' = ?xs @ (k, v) # ?ys" using t' kk by simp
  have sorted: "sorted_keys (?xs @ (k, v') # ?ys)" using bst it by (simp add: bst_def)
  have "bst t'" using sorted_keys_replace [OF sorted] it' by (simp add: bst_def)
  moreover have "invc t' \<and> invh t' \<and> color t' = BLACK"
    using assms(1) t t' kk by (auto simp: rbt_def inv_simps zip_simps)
  moreover have "map_of (inorder t') = (map_of (inorder t))(k \<mapsto> v)"
    unfolding it it' by (rule map_of_update_middle [OF sorted_keys_mid_notin(1) [OF sorted]])
  moreover have "size_tree t' = size_tree t"
    using arg_cong [OF it, of length] arg_cong [OF it', of length] by simp
  ultimately show ?thesis using it by (simp add: rbt_def)
qed


lemma setValue_walk_insert:
  assumes "rbt t" and "setValue_walk k v (t, []) = Inr z"
  shows "ins_inv z \<and> bst (root_of z) \<and>
    map_of (inorder (root_of z)) = (map_of (inorder t))(k \<mapsto> v) \<and>
    size_tree (root_of z) = Suc (size_tree t) \<and> k \<notin> set (keys (inorder t))"
proof -
  obtain p where s: "search (t, []) k = (nil, p)" and z: "z = (Node RED nil k v nil, p)"
    using assms(2) by (auto simp: setValue_walk_search split: prod.splits tree.splits)
  have bst: "bst t" using assms(1) by (simp add: rbt_def)
  have t: "root_of (nil, p) = t" using search_root_of [of "(t, [])" k] s by simp
  have "bounds p k"
    using search_bounds [of t "[]" k nil p] bst s by (simp add: bst_def)
  then have lt: "\<forall>x \<in> set (keys (lefts p)). x < k" and gt: "\<forall>y \<in> set (keys (rights p)). k < y"
    by (auto simp: bounds_def)
  have it: "inorder t = lefts p @ rights p" using t [symmetric] by simp
  have iz: "inorder (root_of z) = lefts p @ (k, v) # rights p" using z by simp
  have "sorted_keys (lefts p @ rights p)" using bst it by (simp add: bst_def)
  then have "bst (root_of z)"
    using lt gt iz by (auto simp: bst_def sorted_keys_middle sorted_wrt_append)
  moreover have "k \<notin> set (keys (lefts p))" "k \<notin> set (keys (rights p))"
    using lt gt by auto
  moreover have "ins_inv z"
    using assms(1) t z by (auto simp: rbt_def ins_inv_def inv_simps zip_simps)
  moreover have "size_tree (root_of z) = Suc (size_tree t)"
    using arg_cong [OF it, of length] arg_cong [OF iz, of length] by simp
  ultimately show ?thesis
    using it iz map_of_insert_middle [of k "lefts p" "rights p" v] by auto
qed

end
