(* ===== verification/RB_Delete.thy ===== *)
theory RB_Delete
  imports RB_Insert
begin

text \<open>
  Deletion from the red-black tree of \<open>src/pa8/Dictionary.cpp\<close>: \<open>RB_Delete\<close> splices
  the node out (directly when it has at most one real child, through its in-order
  successor otherwise) and, when the colour removed from the tree was black, runs
  \<open>RB_DeleteFixUp\<close> on the node \<open>X\<close> that took the removed node's place, which may be
  the sentinel. The loop is a function over the zipper at \<open>X\<close>; its measure counts two
  per level of \<open>X\<close>'s depth and one for a black \<open>X\<close>. Lemmas: the loop terminates,
  reaches no null pointer from a state that satisfies its invariant (\<open>X\<close> carries one
  black too few), and deletion keeps the red-black invariants and removes exactly the
  key.
\<close>

section \<open>RB_DeleteFixUp\<close>

text \<open>\<open>S->left->color\<close> and \<open>S->right->color\<close> writes on a real node \<open>S\<close>.\<close>

fun paint_left :: "node_color \<Rightarrow> ('k, 'v) tree \<Rightarrow> ('k, 'v) tree" where
  "paint_left c (Node c' l k v r) = Node c' (paint c l) k v r"
| "paint_left c nil = nil"

fun paint_right :: "node_color \<Rightarrow> ('k, 'v) tree \<Rightarrow> ('k, 'v) tree" where
  "paint_right c (Node c' l k v r) = Node c' l k v (paint c r)"
| "paint_right c nil = nil"

text \<open>
  The branch \<open>N == N->parent->left\<close> (lines 326--361) once the sibling \<open>S\<close> is black.
  Both of \<open>S\<close>'s children black: \<open>S\<close> turns red and \<open>N\<close> moves to its parent.
  Otherwise a black far child is first made red by \<open>S->left->color = BLACK; S->color =
  RED; RightRotate(S)\<close>, then \<open>S\<close> takes the parent's colour, parent and far child turn
  black, the parent is rotated towards \<open>N\<close> and \<open>N = root\<close>. A sentinel sibling would
  make the source read \<open>S->left\<close>, a null pointer.
\<close>

fun RB_DeleteFixUp_left :: "('k, 'v) zipper \<Rightarrow> ('k, 'v) zipper option" where
  "RB_DeleteFixUp_left (x, InLeft pc pk pv (Node sc sl sk sv sr) # rest) =
     (if color sl = BLACK \<and> color sr = BLACK then
        up (x, InLeft pc pk pv (Node RED sl sk sv sr) # rest)
      else do {
        s \<leftarrow> (if color sr = BLACK then RightRotate (Node RED (paint BLACK sl) sk sv sr)
              else Some (Node sc sl sk sv sr));
        z \<leftarrow> up (x, InLeft BLACK pk pv (paint_right BLACK (paint pc s)) # rest) \<bind> rotate_left_z;
        Some (root_of z, [])
      })"
| "RB_DeleteFixUp_left _ = None"

text \<open>The branch \<open>N == N->parent->right\<close> (lines 364--400), the mirror image.\<close>

fun RB_DeleteFixUp_right :: "('k, 'v) zipper \<Rightarrow> ('k, 'v) zipper option" where
  "RB_DeleteFixUp_right (x, InRight pc (Node sc sl sk sv sr) pk pv # rest) =
     (if color sr = BLACK \<and> color sl = BLACK then
        up (x, InRight pc (Node RED sl sk sv sr) pk pv # rest)
      else do {
        s \<leftarrow> (if color sl = BLACK then LeftRotate (Node RED sl sk sv (paint BLACK sr))
              else Some (Node sc sl sk sv sr));
        z \<leftarrow> up (x, InRight BLACK (paint_left BLACK (paint pc s)) pk pv # rest) \<bind> rotate_right_z;
        Some (root_of z, [])
      })"
| "RB_DeleteFixUp_right _ = None"

text \<open>
  One iteration of the \<open>while\<close> loop of \<open>RB_DeleteFixUp\<close> (lines 324--402). A red
  sibling is handled first: it turns black, the parent red, the parent is rotated
  towards \<open>N\<close> (\<open>N\<close> stays on its node, now two levels below the rotated subtree's
  root) and the new sibling is \<open>N->parent->right\<close> (\<open>left\<close>).
\<close>

fun RB_DeleteFixUp_step :: "('k, 'v) zipper \<Rightarrow> ('k, 'v) zipper option" where
  "RB_DeleteFixUp_step (x, InLeft pc pk pv s # rest) = do {
     z \<leftarrow> (if color s = RED
           then up (x, InLeft RED pk pv (paint BLACK s) # rest)
                  \<bind> rotate_left_z \<bind> down_left \<bind> down_left
           else Some (x, InLeft pc pk pv s # rest));
     RB_DeleteFixUp_left z
   }"
| "RB_DeleteFixUp_step (x, InRight pc s pk pv # rest) = do {
     z \<leftarrow> (if color s = RED
           then up (x, InRight RED (paint BLACK s) pk pv # rest)
                  \<bind> rotate_right_z \<bind> down_right \<bind> down_right
           else Some (x, InRight pc s pk pv # rest));
     RB_DeleteFixUp_right z
   }"
| "RB_DeleteFixUp_step (x, []) = None"

definition delete_measure :: "('k, 'v) zipper \<Rightarrow> nat" where
  "delete_measure z = 2 * length (snd z) + bw (color (fst z))"

lemma RB_DeleteFixUp_left_shape:
  "RB_DeleteFixUp_left z = Some z' \<Longrightarrow>
   snd z' = [] \<or> (\<exists>c rest. snd z = c # rest \<and> snd z' = rest \<and> color (fst z') = ctx_color c)"
  by (cases z rule: RB_DeleteFixUp_left.cases) (auto simp: bind_eq_Some_conv split: if_splits)

lemma RB_DeleteFixUp_right_shape:
  "RB_DeleteFixUp_right z = Some z' \<Longrightarrow>
   snd z' = [] \<or> (\<exists>c rest. snd z = c # rest \<and> snd z' = rest \<and> color (fst z') = ctx_color c)"
  by (cases z rule: RB_DeleteFixUp_right.cases) (auto simp: bind_eq_Some_conv split: if_splits)

lemma rotate_sibling_left_shape:
  "up (x, InLeft RED pk pv (paint BLACK s) # rest) \<bind> rotate_left_z \<bind> down_left \<bind> down_left
     = Some z \<Longrightarrow> \<exists>c' rest'. snd z = InLeft RED pk pv c' # rest' \<and> length rest' = Suc (length rest)"
  by (cases s rule: tree.exhaust; cases "case s of Node _ _ _ _ r \<Rightarrow> r")
     (auto simp: rotate_left_z_def)

lemma rotate_sibling_right_shape:
  "up (x, InRight RED (paint BLACK s) pk pv # rest) \<bind> rotate_right_z \<bind> down_right \<bind> down_right
     = Some z \<Longrightarrow> \<exists>c' rest'. snd z = InRight RED c' pk pv # rest' \<and> length rest' = Suc (length rest)"
  by (cases s rule: tree.exhaust; cases "case s of Node _ l _ _ _ \<Rightarrow> l")
     (auto simp: rotate_right_z_def)

lemma RB_DeleteFixUp_step_measure:
  assumes "RB_DeleteFixUp_step z = Some z'" and "color (fst z) = BLACK"
  shows "delete_measure z' < delete_measure z"
  using assms
proof (cases z rule: RB_DeleteFixUp_step.cases)
  case (1 x pc pk pv s rest)
  with assms(1) obtain zm where zm:
    "(if color s = RED then up (x, InLeft RED pk pv (paint BLACK s) # rest)
        \<bind> rotate_left_z \<bind> down_left \<bind> down_left
      else Some (x, InLeft pc pk pv s # rest)) = Some zm"
    and z': "RB_DeleteFixUp_left zm = Some z'"
    by (auto simp: bind_eq_Some_conv)
  show ?thesis
  proof (cases "color s = RED")
    case True
    with zm rotate_sibling_left_shape obtain c' rest' where
      "snd zm = InLeft RED pk pv c' # rest'" "length rest' = Suc (length rest)" by fastforce
    with RB_DeleteFixUp_left_shape [OF z'] 1 assms(2) show ?thesis
      by (auto simp: delete_measure_def bw_def split: node_color.splits)
  next
    case False
    with zm RB_DeleteFixUp_left_shape [OF z'] 1 assms(2) show ?thesis
      by (auto simp: delete_measure_def bw_def split: node_color.splits)
  qed
next
  case (2 x pc s pk pv rest)
  with assms(1) obtain zm where zm:
    "(if color s = RED then up (x, InRight RED (paint BLACK s) pk pv # rest)
        \<bind> rotate_right_z \<bind> down_right \<bind> down_right
      else Some (x, InRight pc s pk pv # rest)) = Some zm"
    and z': "RB_DeleteFixUp_right zm = Some z'"
    by (auto simp: bind_eq_Some_conv)
  show ?thesis
  proof (cases "color s = RED")
    case True
    with zm rotate_sibling_right_shape obtain c' rest' where
      "snd zm = InRight RED c' pk pv # rest'" "length rest' = Suc (length rest)" by fastforce
    with RB_DeleteFixUp_right_shape [OF z'] 2 assms(2) show ?thesis
      by (auto simp: delete_measure_def bw_def split: node_color.splits)
  next
    case False
    with zm RB_DeleteFixUp_right_shape [OF z'] 2 assms(2) show ?thesis
      by (auto simp: delete_measure_def bw_def split: node_color.splits)
  qed
qed auto

text \<open>The \<open>while( N!=root && N->color==BLACK )\<close> loop.\<close>

function RB_DeleteFixUp_loop :: "('k, 'v) zipper \<Rightarrow> ('k, 'v) zipper option" where
  "RB_DeleteFixUp_loop z =
     (if snd z \<noteq> [] \<and> color (fst z) = BLACK
      then RB_DeleteFixUp_step z \<bind> RB_DeleteFixUp_loop else Some z)"
  by pat_completeness auto
termination
  by (relation "measure delete_measure") (auto dest: RB_DeleteFixUp_step_measure)

declare RB_DeleteFixUp_loop.simps [simp del]

text \<open>After the loop, \<open>N->color = BLACK\<close> (line 404); the result is the new tree.\<close>

definition RB_DeleteFixUp :: "('k, 'v) zipper \<Rightarrow> ('k, 'v) tree option" where
  "RB_DeleteFixUp z =
     map_option (\<lambda>z'. root_of (paint BLACK (fst z'), snd z')) (RB_DeleteFixUp_loop z)"


section \<open>RB_Delete\<close>

text \<open>
  The branch of \<open>RB_Delete\<close> for a node \<open>N\<close> with two children (lines 426--442).
  \<open>Y = findMin(N->right)\<close> is given as the zipper \<open>(Y, q)\<close> inside \<open>N->right\<close>. \<open>Y\<close>
  leaves its place to its right child \<open>X\<close> (\<open>RB_Transplant(Y, Y->right)\<close>, or \<open>X->parent
  = Y\<close> when \<open>Y\<close> is \<open>N\<close>'s child, where \<open>q\<close> is empty) and takes \<open>N\<close>'s place, colour and
  left subtree (\<open>RB_Transplant(N, Y); Y->left = N->left; Y->color = N->color\<close>). So the
  ancestors of \<open>X\<close> afterwards are those of \<open>q\<close>, then \<open>Y\<close> in \<open>N\<close>'s place, then \<open>N\<close>'s
  ancestors. The result is the zipper at \<open>X\<close> and \<open>Y\<close>'s original colour.
\<close>

fun RB_Delete_successor ::
  "node_color \<Rightarrow> ('k, 'v) tree \<Rightarrow> ('k, 'v) zipper \<Rightarrow> ('k, 'v) path \<Rightarrow>
   (('k, 'v) zipper \<times> node_color) option" where
  "RB_Delete_successor nc nl (Node yc yl yk yv yr, q) p =
     Some (RB_Transplant (Node yc yl yk yv yr, q @ InRight nc nl yk yv # p) yr, yc)"
| "RB_Delete_successor nc nl (nil, q) p = None"

text \<open>
  \<open>RB_Delete(N)\<close> (lines 408--450) on the zipper at \<open>N\<close>: splice \<open>N\<close> out, remember the
  colour that left the tree (\<open>og_color\<close>) and, when it is black, run \<open>RB_DeleteFixUp(X)\<close>.
\<close>

fun RB_Delete :: "('k, 'v) zipper \<Rightarrow> ('k, 'v) tree option" where
  "RB_Delete (Node nc nl nk nv nr, p) = do {
     (x, og) \<leftarrow>
       (if nl = nil then Some (RB_Transplant (Node nc nl nk nv nr, p) nr, nc)
        else if nr = nil then Some (RB_Transplant (Node nc nl nk nv nr, p) nl, nc)
        else RB_Delete_successor nc nl (findMin (nr, [])) p);
     if og = BLACK then RB_DeleteFixUp x else Some (root_of x)
   }"
| "RB_Delete (nil, p) = None"

section \<open>Invariant of the fix-up loop\<close>

text \<open>
  While the loop runs, every path through \<open>X\<close> has one black node too few (\<open>X\<close> is
  "doubly black"); painting \<open>X\<close> black would make all colours right; the root is black
  unless it is \<open>X\<close>.
\<close>

definition del_inv :: "('k, 'v) zipper \<Rightarrow> bool" where
  "del_inv z =
     (invc (paint BLACK (fst z)) \<and> invh (fst z) \<and> invc_path (snd z) BLACK \<and>
      invh_path (snd z) (Suc (bheight (fst z))) \<and> top_color (snd z) BLACK = BLACK)"

lemma del_inv_sibling_real:
  "del_inv (x, InLeft pc pk pv s # rest) \<Longrightarrow> s \<noteq> nil"
  "del_inv (x, InRight pc s pk pv # rest) \<Longrightarrow> s \<noteq> nil"
  by (auto simp: del_inv_def)

lemma RB_DeleteFixUp_left_inv:
  assumes "del_inv (x, InLeft pc pk pv s # rest)" and "color x = BLACK" and "color s = BLACK"
  shows "\<exists>z'. RB_DeleteFixUp_left (x, InLeft pc pk pv s # rest) = Some z' \<and> del_inv z' \<and>
    inorder (root_of z') = inorder (root_of (x, InLeft pc pk pv s # rest))"
proof -
  obtain sc sl sk sv sr where s: "s = Node sc sl sk sv sr"
    using del_inv_sibling_real(1) [OF assms(1)] by (cases s) auto
  show ?thesis
    using assms s
    by (cases sl; cases sr; cases x)
       (auto simp: del_inv_def rotate_left_z_def inv_simps bheight_paint_BLACK)
qed


lemma RB_DeleteFixUp_right_inv:
  assumes "del_inv (x, InRight pc s pk pv # rest)" and "color x = BLACK" and "color s = BLACK"
  shows "\<exists>z'. RB_DeleteFixUp_right (x, InRight pc s pk pv # rest) = Some z' \<and> del_inv z' \<and>
    inorder (root_of z') = inorder (root_of (x, InRight pc s pk pv # rest))"
proof -
  obtain sc sl sk sv sr where s: "s = Node sc sl sk sv sr"
    using del_inv_sibling_real(2) [OF assms(1)] by (cases s) auto
  show ?thesis
    using assms s
    by (cases sl; cases sr; cases x)
       (auto simp: del_inv_def rotate_right_z_def inv_simps bheight_paint_BLACK
             intro: invh_path_cong)
qed

text \<open>A red sibling is made black by one rotation; the invariant still holds.\<close>

lemma red_sibling_left_inv:
  assumes "del_inv (x, InLeft pc pk pv s # rest)" and "color x = BLACK" and "color s = RED"
  shows "\<exists>pc' pk' pv' s' rest'.
    up (x, InLeft RED pk pv (paint BLACK s) # rest) \<bind> rotate_left_z \<bind> down_left \<bind> down_left
      = Some (x, InLeft pc' pk' pv' s' # rest') \<and> color s' = BLACK \<and>
    del_inv (x, InLeft pc' pk' pv' s' # rest') \<and>
    inorder (root_of (x, InLeft pc' pk' pv' s' # rest')) = inorder (root_of (x, InLeft pc pk pv s # rest))"
proof -
  obtain sl sk sv sr where s: "s = Node RED sl sk sv sr"
    using assms(3) by (cases s) auto
  show ?thesis
    using assms s by (cases sl) (auto simp: del_inv_def rotate_left_z_def)
qed

lemma red_sibling_right_inv:
  assumes "del_inv (x, InRight pc s pk pv # rest)" and "color x = BLACK" and "color s = RED"
  shows "\<exists>pc' s' pk' pv' rest'.
    up (x, InRight RED (paint BLACK s) pk pv # rest) \<bind> rotate_right_z \<bind> down_right \<bind> down_right
      = Some (x, InRight pc' s' pk' pv' # rest') \<and> color s' = BLACK \<and>
    del_inv (x, InRight pc' s' pk' pv' # rest') \<and>
    inorder (root_of (x, InRight pc' s' pk' pv' # rest')) = inorder (root_of (x, InRight pc s pk pv # rest))"
proof -
  obtain sl sk sv sr where s: "s = Node RED sl sk sv sr"
    using assms(3) by (cases s) auto
  show ?thesis
    using assms s by (cases sr) (auto simp: del_inv_def rotate_right_z_def)
qed


lemma RB_DeleteFixUp_step_inv:
  assumes "del_inv z" and "snd z \<noteq> []" and "color (fst z) = BLACK"
  shows "\<exists>z'. RB_DeleteFixUp_step z = Some z' \<and> del_inv z' \<and>
    inorder (root_of z') = inorder (root_of z)"
proof -
  obtain x c rest where z: "z = (x, c # rest)"
    using assms(2) by (cases z; cases "snd z") auto
  show ?thesis
  proof (cases c)
    case (InLeft pc pk pv s)
    show ?thesis
    proof (cases "color s")
      case RED
      with assms z InLeft obtain pc' pk' pv' s' rest' where
        zm: "up (x, InLeft RED pk pv (paint BLACK s) # rest) \<bind> rotate_left_z \<bind> down_left
               \<bind> down_left = Some (x, InLeft pc' pk' pv' s' # rest')"
        and s': "color s' = BLACK" "del_inv (x, InLeft pc' pk' pv' s' # rest')"
        and io: "inorder (root_of (x, InLeft pc' pk' pv' s' # rest')) = inorder (root_of z)"
        using red_sibling_left_inv [of x pc pk pv s rest] by auto
      with RB_DeleteFixUp_left_inv [OF s'(2)] assms(3) z InLeft RED show ?thesis
        by fastforce
    next
      case BLACK
      with RB_DeleteFixUp_left_inv [of x pc pk pv s rest] assms z InLeft show ?thesis
        by fastforce
    qed
  next
    case (InRight pc s pk pv)
    show ?thesis
    proof (cases "color s")
      case RED
      with assms z InRight obtain pc' s' pk' pv' rest' where
        zm: "up (x, InRight RED (paint BLACK s) pk pv # rest) \<bind> rotate_right_z \<bind> down_right
               \<bind> down_right = Some (x, InRight pc' s' pk' pv' # rest')"
        and s': "color s' = BLACK" "del_inv (x, InRight pc' s' pk' pv' # rest')"
        and io: "inorder (root_of (x, InRight pc' s' pk' pv' # rest')) = inorder (root_of z)"
        using red_sibling_right_inv [of x pc s pk pv rest] by auto
      with RB_DeleteFixUp_right_inv [OF s'(2)] assms(3) z InRight RED show ?thesis
        by fastforce
    next
      case BLACK
      with RB_DeleteFixUp_right_inv [of x pc s pk pv rest] assms z InRight show ?thesis
        by fastforce
    qed
  qed
qed

lemma RB_DeleteFixUp_loop_inv:
  "del_inv z \<Longrightarrow> \<exists>z'. RB_DeleteFixUp_loop z = Some z' \<and> del_inv z' \<and>
     (snd z' = [] \<or> color (fst z') = RED) \<and> inorder (root_of z') = inorder (root_of z)"
proof (induction z rule: RB_DeleteFixUp_loop.induct)
  case (1 z)
  show ?case
  proof (cases "snd z \<noteq> [] \<and> color (fst z) = BLACK")
    case True
    with "1.prems" obtain z1 where z1: "RB_DeleteFixUp_step z = Some z1" "del_inv z1"
      "inorder (root_of z1) = inorder (root_of z)"
      using RB_DeleteFixUp_step_inv by blast
    with "1.IH" [OF True z1(1)] True show ?thesis
      by (auto simp: RB_DeleteFixUp_loop.simps [of z])
  next
    case False
    then have "RB_DeleteFixUp_loop z = Some z" by (auto simp: RB_DeleteFixUp_loop.simps [of z])
    with "1.prems" False show ?thesis by auto
  qed
qed

lemma del_inv_exit:
  assumes "del_inv z" and "snd z = [] \<or> color (fst z) = RED"
  shows "invc (root_of (paint BLACK (fst z), snd z)) \<and> invh (root_of (paint BLACK (fst z), snd z)) \<and>
    color (root_of (paint BLACK (fst z), snd z)) = BLACK"
  using assms by (auto simp: del_inv_def inv_simps zip_simps bheight_paint_BLACK)

text \<open>From a state of the loop invariant, \<open>RB_DeleteFixUp\<close> returns a red-black tree
  with the same pairs.\<close>

lemma RB_DeleteFixUp_correct:
  assumes "del_inv z"
  shows "\<exists>t. RB_DeleteFixUp z = Some t \<and> invc t \<and> invh t \<and> color t = BLACK \<and>
    inorder t = inorder (root_of z)"
proof -
  obtain z' where z': "RB_DeleteFixUp_loop z = Some z'" "del_inv z'"
    "snd z' = [] \<or> color (fst z') = RED" "inorder (root_of z') = inorder (root_of z)"
    using RB_DeleteFixUp_loop_inv [OF assms] by blast
  with del_inv_exit [OF z'(2,3)] show ?thesis
    by (cases z') (auto simp: RB_DeleteFixUp_def)
qed


section \<open>Correctness of RB_Delete\<close>

lemma RB_Delete_child_nil:
  assumes "invc (root_of (Node nc nl nk nv nr, p))" and "invh (root_of (Node nc nl nk nv nr, p))"
    and "color (root_of (Node nc nl nk nv nr, p)) = BLACK" and "nl = nil \<or> nr = nil"
  shows "\<exists>t'. RB_Delete (Node nc nl nk nv nr, p) = Some t' \<and> invc t' \<and> invh t' \<and>
    color t' = BLACK \<and> inorder t' = lefts p @ inorder nl @ inorder nr @ rights p"
proof -
  define x where "x = (if nl = nil then nr else nl)"
  have N: "invc x" "invh x" "bheight x = 0" "invc_path p nc" "invh_path p (bheight x + bw nc)"
    "top_color p nc = BLACK" "nc = RED \<Longrightarrow> color x = BLACK"
    using assms by (auto simp: x_def inv_simps zip_simps)
  have io: "inorder (root_of (x, p)) = lefts p @ inorder nl @ inorder nr @ rights p"
    using assms(4) by (auto simp: x_def)
  have del: "RB_Delete (Node nc nl nk nv nr, p) =
    (if nc = BLACK then RB_DeleteFixUp (x, p) else Some (root_of (x, p)))"
    using assms(4) by (auto simp: x_def RB_Transplant_def)
  show ?thesis
  proof (cases nc)
    case BLACK
    then have "del_inv (x, p)" using N by (auto simp: del_inv_def)
    from RB_DeleteFixUp_correct [OF this] BLACK del io show ?thesis by auto
  next
    case RED
    then have "x = nil" using N black_bheight_0 by auto
    then show ?thesis using N RED del io by (auto simp: inv_simps zip_simps)
  qed
qed


lemma RB_Delete_two_children:
  assumes "invc (root_of (Node nc nl nk nv nr, p))" and "invh (root_of (Node nc nl nk nv nr, p))"
    and "color (root_of (Node nc nl nk nv nr, p)) = BLACK" and "nl \<noteq> nil" and "nr \<noteq> nil"
  shows "\<exists>t'. RB_Delete (Node nc nl nk nv nr, p) = Some t' \<and> invc t' \<and> invh t' \<and>
    color t' = BLACK \<and> inorder t' = lefts p @ inorder nl @ inorder nr @ rights p"
proof -
  obtain q yc yk yv yr where fm: "findMin (nr, []) = (Node yc nil yk yv yr, q)"
    and q: "lefts q = []" and y: "root_of (Node yc nil yk yv yr, q) = nr"
    using findMin_shape [of nr "[]"] assms(5) by (cases "findMin (nr, [])") fastforce
  define x where "x = (yr, q @ [InRight nc nl yk yv] @ p)"
  have del: "RB_Delete (Node nc nl nk nv nr, p) =
    (if yc = BLACK then RB_DeleteFixUp x else Some (root_of x))"
    using assms(4,5) fm by (simp add: RB_Transplant_def x_def)
  have N: "invc nl" "red_ok nc (color nl) (color nr)" "invh nl" "bheight nl = bheight nr"
    "invc_path p nc" "invh_path p (bheight nl + bw nc)" "top_color p nc = BLACK"
    using assms(1-3) by (auto simp: inv_simps zip_simps)
  have Y: "invc_path q yc" "invh_path q (bw yc)" "invc yr" "invh yr" "bheight yr = 0"
    "yc = RED \<Longrightarrow> color yr = BLACK" "color nr = top_color q yc"
    "bheight nr = bw yc + path_bw q"
    using assms(1,2) y bheight_root_of [of q "Node yc nil yk yv yr"]
    by (auto simp: inv_simps zip_simps)
  have io: "inorder (root_of x) = lefts p @ inorder nl @ inorder nr @ rights p"
    using q arg_cong [OF y, of inorder] by (simp add: x_def zip_simps)
  show ?thesis
  proof (cases yc)
    case BLACK
    then have "del_inv x" using N Y by (auto simp: del_inv_def x_def inv_simps zip_simps)
    from RB_DeleteFixUp_correct [OF this] BLACK del io show ?thesis by auto
  next
    case RED
    then have "yr = nil" using Y black_bheight_0 by auto
    moreover have "bheight (root_of (nil, q)) = path_bw q"
      using bheight_root_of [of q nil] Y(2) RED by simp
    moreover have "red_ok nc (color nl) (top_color q BLACK)"
      using N(2) Y(7) RED by (cases "q = []") (auto simp: top_color_def)
    ultimately show ?thesis using N Y RED del io
      by (auto simp: x_def inv_simps zip_simps)
  qed
qed


text \<open>Deleting the node that \<open>search\<close> found for \<open>k\<close> keeps a red-black tree and
  removes exactly the pair of \<open>k\<close>.\<close>

lemma RB_Delete_found:
  assumes "rbt t" and "search (t, []) k = (n, p)" and "n \<noteq> nil"
  shows "\<exists>t'. RB_Delete (n, p) = Some t' \<and> rbt t' \<and>
    map_of (inorder t') = (map_of (inorder t))(k := None) \<and>
    Suc (size_tree t') = size_tree t \<and> k \<in> set (keys (inorder t))"
proof -
  obtain nc nl k' nv nr where n: "n = Node nc nl k' nv nr" using assms(3) by (cases n) auto
  have bst: "bst t" using assms(1) by (simp add: rbt_def)
  from search_found [OF bst assms(2) [unfolded n]] have kk: "k' = k"
    and t: "root_of (Node nc nl k' nv nr, p) = t" by auto
  let ?xs = "lefts p @ inorder nl" and ?ys = "inorder nr @ rights p"
  have it: "inorder t = ?xs @ (k, nv) # ?ys" using t [symmetric] kk by simp
  have sorted: "sorted_keys (?xs @ (k, nv) # ?ys)" using bst it by (simp add: bst_def)
  have inv: "invc (root_of (Node nc nl k' nv nr, p))" "invh (root_of (Node nc nl k' nv nr, p))"
    "color (root_of (Node nc nl k' nv nr, p)) = BLACK"
    using assms(1) t by (auto simp: rbt_def)
  obtain t' where t': "RB_Delete (n, p) = Some t'" "invc t'" "invh t'" "color t' = BLACK"
    and it': "inorder t' = ?xs @ ?ys"
    using RB_Delete_child_nil [OF inv] RB_Delete_two_children [OF inv] n by fastforce
  have "bst t'" using sorted_keys_remove [OF sorted] it' by (simp add: bst_def)
  moreover have "map_of (inorder t') = (map_of (inorder t))(k := None)"
    unfolding it it'
    by (rule map_of_remove_middle [OF sorted_keys_mid_notin [OF sorted]])
  moreover have "Suc (size_tree t') = size_tree t"
    using arg_cong [OF it, of length] arg_cong [OF it', of length] by simp
  ultimately show ?thesis using t' it by (auto simp: rbt_def)
qed

end
