(* ===== verification/RB_Dictionary.thy ===== *)
theory RB_Dictionary
  imports RB_Delete
begin

text \<open>
  The public interface of the \<open>Dictionary\<close> class of \<open>src/pa8/Dictionary.cpp\<close>: its
  state as a record (\<open>root\<close>, the iterator \<open>current\<close>, \<open>num_pairs\<close>; the sentinel
  \<open>nil\<close> is the constructor of the tree type), one definition per public member
  function, the precondition checks as \<open>Logic_error\<close> values, and the text dumps for
  the instance \<open>keyType = std::string\<close>, \<open>valType = int\<close>. The iterator holds a node;
  since a node keeps its key for its whole life (\<open>setValue\<close> only overwrites values,
  \<open>RB_Delete\<close> moves the successor node rather than copying its key), the node is
  named by its key, and its parent links are found again by \<open>search\<close>.
\<close>

section \<open>State\<close>

record ('k, 'v) Dictionary =
  root :: "('k, 'v) tree"
  current :: "'k option"
  num_pairs :: int

text \<open>\<open>Dictionary()\<close> (lines 456--467): empty tree, undefined iterator, no pairs.\<close>

definition Dictionary_empty :: "('k, 'v) Dictionary" where
  "Dictionary_empty = \<lparr>root = nil, current = None, num_pairs = 0\<rparr>"

text \<open>The key of the node a pointer designates; \<open>None\<close> for the sentinel.\<close>

fun key_of :: "('k, 'v) tree \<Rightarrow> 'k option" where
  "key_of nil = None"
| "key_of (Node _ _ k _ _) = Some k"

fun val_of :: "('k, 'v) tree \<Rightarrow> 'v option" where
  "val_of nil = None"
| "val_of (Node _ _ _ v _) = Some v"

section \<open>Access functions\<close>

text \<open>\<open>size()\<close> (lines 497--499).\<close>

definition size :: "('k, 'v) Dictionary \<Rightarrow> int" where
  "size d = num_pairs d"

text \<open>\<open>contains(k)\<close> (lines 504--506): \<open>search(root, k) != nil\<close>.\<close>

definition contains :: "('k::linorder, 'v) Dictionary \<Rightarrow> 'k \<Rightarrow> bool" where
  "contains d k = (fst (search (root d, []) k) \<noteq> nil)"

text \<open>\<open>getValue(k)\<close> (lines 511--520). The C++ result is a reference; the model returns
  the value it refers to.\<close>

definition getValue :: "('k::linorder, 'v) Dictionary \<Rightarrow> 'k \<Rightarrow> 'v result" where
  "getValue d k =
     (if \<not> contains d k then Inl (Logic_error ''getValue(): pre-condition contains(k) not met'')
      else case val_of (fst (search (root d, []) k)) of
             Some v \<Rightarrow> Inr v
           | None \<Rightarrow> Inl Null_dereference)"

text \<open>\<open>hasCurrent()\<close>, \<open>currentKey()\<close>, \<open>currentVal()\<close> (lines 525--551).\<close>

definition hasCurrent :: "('k, 'v) Dictionary \<Rightarrow> bool" where
  "hasCurrent d = (current d \<noteq> None)"

definition currentKey :: "('k, 'v) Dictionary \<Rightarrow> 'k result" where
  "currentKey d =
     (case current d of
        None \<Rightarrow> Inl (Logic_error ''currentKey(): pre-condition hasCurrent() not met'')
      | Some k \<Rightarrow> Inr k)"

definition currentVal :: "('k::linorder, 'v) Dictionary \<Rightarrow> 'v result" where
  "currentVal d =
     (case current d of
        None \<Rightarrow> Inl (Logic_error ''currentKey(): pre-condition hasCurrent() not met'')
      | Some k \<Rightarrow>
          (case val_of (fst (search (root d, []) k)) of
             Some v \<Rightarrow> Inr v
           | None \<Rightarrow> Inl Null_dereference))"

section \<open>Manipulation procedures\<close>

text \<open>\<open>clear()\<close> (lines 558--566); the nodes freed by \<open>postOrderDelete\<close> leave the model.\<close>

definition clear :: "('k, 'v) Dictionary \<Rightarrow> ('k, 'v) Dictionary" where
  "clear d = d\<lparr>root := nil, current := None, num_pairs := 0\<rparr>"

text \<open>
  \<open>setValue(k, v)\<close> (lines 572--621): overwrite in place, or hang a new red node,
  increment \<open>num_pairs\<close> and run \<open>RB_InsertFixUp\<close>.
\<close>

definition setValue ::
  "('k::linorder, 'v) Dictionary \<Rightarrow> 'k \<Rightarrow> 'v \<Rightarrow> ('k, 'v) Dictionary result" where
  "setValue d k v =
     (case setValue_walk k v (root d, []) of
        Inl t \<Rightarrow> Inr (d\<lparr>root := t\<rparr>)
      | Inr z \<Rightarrow>
          (case RB_InsertFixUp z of
             None \<Rightarrow> Inl Null_dereference
           | Some t \<Rightarrow> Inr (d\<lparr>root := t, num_pairs := num_pairs d + 1\<rparr>)))"

text \<open>
  \<open>remove(k)\<close> (lines 627--646): the precondition, the node \<open>search\<close> finds, the iterator
  made undefined when it is that node, \<open>RB_Delete\<close>, and \<open>num_pairs--\<close>.
\<close>

definition remove ::
  "('k::linorder, 'v) Dictionary \<Rightarrow> 'k \<Rightarrow> ('k, 'v) Dictionary result" where
  "remove d k =
     (if \<not> contains d k then Inl (Logic_error ''remove(): pre-condition contains(k) not met'')
      else
        let z = search (root d, []) k;
            d1 = (if key_of (fst z) = current d then d\<lparr>current := None\<rparr> else d)
        in case RB_Delete z of
             None \<Rightarrow> Inl Null_dereference
           | Some t \<Rightarrow> Inr (d1\<lparr>root := t, num_pairs := num_pairs d1 - 1\<rparr>))"

text \<open>\<open>begin()\<close> and \<open>end()\<close> (lines 651--664): nothing on an empty tree.\<close>

definition iter_begin :: "('k, 'v) Dictionary \<Rightarrow> ('k, 'v) Dictionary" where
  "iter_begin d =
     (if root d \<noteq> nil then d\<lparr>current := key_of (fst (findMin (root d, [])))\<rparr> else d)"

definition iter_end :: "('k, 'v) Dictionary \<Rightarrow> ('k, 'v) Dictionary" where
  "iter_end d =
     (if root d \<noteq> nil then d\<lparr>current := key_of (fst (findMax (root d, [])))\<rparr> else d)"

text \<open>\<open>next()\<close> and \<open>prev()\<close> (lines 671--698).\<close>

definition iter_next :: "('k::linorder, 'v) Dictionary \<Rightarrow> ('k, 'v) Dictionary result" where
  "iter_next d =
     (case current d of
        None \<Rightarrow> Inl (Logic_error ''next(): pre-condition hasCurrent() not met'')
      | Some k \<Rightarrow> Inr (d\<lparr>current := key_of (fst (findNext (search (root d, []) k)))\<rparr>))"

definition iter_prev :: "('k::linorder, 'v) Dictionary \<Rightarrow> ('k, 'v) Dictionary result" where
  "iter_prev d =
     (case current d of
        None \<Rightarrow> Inl (Logic_error ''prev(): pre-condition hasCurrent() not met'')
      | Some k \<Rightarrow> Inr (d\<lparr>current := key_of (fst (findPrev (search (root d, []) k)))\<rparr>))"

section \<open>Copies\<close>

text \<open>\<open>preOrderCopy(R, N)\<close> (lines 65--75): \<open>setValue\<close> of every pair of the source
  tree in pre-order, stopping at the source's sentinel.\<close>

fun preOrderCopy ::
  "('k::linorder, 'v) tree \<Rightarrow> ('k, 'v) Dictionary \<Rightarrow> ('k, 'v) Dictionary result" where
  "preOrderCopy nil d = Inr d"
| "preOrderCopy (Node c l k v r) d =
     (case setValue d k v of
        Inl e \<Rightarrow> Inl e
      | Inr d1 \<Rightarrow> (case preOrderCopy l d1 of Inl e \<Rightarrow> Inl e | Inr d2 \<Rightarrow> preOrderCopy r d2))"

text \<open>The copy constructor (lines 470--484) and \<open>operator=\<close> between distinct objects
  (lines 752--759).\<close>

definition Dictionary_copy :: "('k::linorder, 'v) Dictionary \<Rightarrow> ('k, 'v) Dictionary result" where
  "Dictionary_copy D = preOrderCopy (root D) Dictionary_empty"

definition assign ::
  "('k::linorder, 'v) Dictionary \<Rightarrow> ('k, 'v) Dictionary \<Rightarrow> ('k, 'v) Dictionary result" where
  "assign d D = preOrderCopy (root D) (clear d)"

section \<open>Text dumps and equality\<close>

text \<open>\<open>inOrderString(s, R)\<close> (lines 36--44): \<open>"key : value\n"\<close> per pair in key order.\<close>

fun inOrderString :: "string \<Rightarrow> (string, int) tree \<Rightarrow> string" where
  "inOrderString s nil = s"
| "inOrderString s (Node c l k v r) =
     inOrderString (inOrderString s l @ k @ '' : '' @ string_of_int v @ ''\<newline>'') r"

text \<open>\<open>preOrderString(s, R)\<close> (lines 50--60): keys in pre-order, red ones marked.\<close>

fun preOrderString :: "string \<Rightarrow> (string, int) tree \<Rightarrow> string" where
  "preOrderString s nil = s"
| "preOrderString s (Node c l k v r) =
     preOrderString (preOrderString (s @ k @ (if c = RED then '' (RED)'' else '''') @ ''\<newline>'') l) r"

text \<open>\<open>to_string()\<close>, \<open>pre_string()\<close>, \<open>equals(D)\<close> (lines 708--731).\<close>

definition to_string :: "(string, int) Dictionary \<Rightarrow> string" where
  "to_string d = inOrderString [] (root d)"

definition pre_string :: "(string, int) Dictionary \<Rightarrow> string" where
  "pre_string d = preOrderString [] (root d)"

definition equals :: "(string, int) Dictionary \<Rightarrow> (string, int) Dictionary \<Rightarrow> bool" where
  "equals A B = (to_string A = to_string B)"

text \<open>The line \<open>inOrderString\<close> appends for one pair.\<close>

definition pair_line :: "string \<times> int \<Rightarrow> string" where
  "pair_line p = fst p @ '' : '' @ string_of_int (snd p) @ ''\<newline>''"

section \<open>Invariant and abstraction\<close>

text \<open>The pairs in key order, and the map they represent.\<close>

definition pairs :: "('k, 'v) Dictionary \<Rightarrow> ('k \<times> 'v) list" where
  "pairs d = inorder (root d)"

definition abs_map :: "('k, 'v) Dictionary \<Rightarrow> 'k \<Rightarrow> 'v option" where
  "abs_map d = map_of (pairs d)"

text \<open>
  The class invariant: a red-black search tree (the sentinel is black by construction
  and the root has no parent), \<open>num_pairs\<close> counts its nodes, and the iterator, when
  defined, designates a node of the tree.
\<close>

definition current_ok :: "('k, 'v) Dictionary \<Rightarrow> bool" where
  "current_ok d = (case current d of None \<Rightarrow> True | Some k \<Rightarrow> k \<in> set (keys (pairs d)))"

definition dict_inv :: "('k::linorder, 'v) Dictionary \<Rightarrow> bool" where
  "dict_inv d = (rbt (root d) \<and> num_pairs d = int (size_tree (root d)) \<and> current_ok d)"


section \<open>Lemmas: lookup\<close>

lemma search_lookup:
  assumes "bst t"
  shows "val_of (fst (search (t, []) k)) = map_of (inorder t) k \<and>
    key_of (fst (search (t, []) k)) = map_option (\<lambda>_. k) (map_of (inorder t) k)"
proof (cases "search (t, []) k")
  case (Pair n p)
  show ?thesis
  proof (cases n)
    case nil
    with search_not_found [OF assms] Pair have "k \<notin> set (keys (inorder t))" by simp
    then have "map_of (inorder t) k = None" by (simp add: map_of_eq_None_iff)
    with Pair nil show ?thesis by simp
  next
    case (Node c l k' v r)
    with search_found [OF assms] Pair show ?thesis by auto
  qed
qed

lemma dict_inv_bst: "dict_inv d \<Longrightarrow> bst (root d)"
  by (simp add: dict_inv_def rbt_def)

lemma contains_abs: "dict_inv d \<Longrightarrow> contains d k \<longleftrightarrow> abs_map d k \<noteq> None"
proof -
  assume inv: "dict_inv d"
  have "contains d k \<longleftrightarrow> key_of (fst (search (root d, []) k)) \<noteq> None"
    by (cases "fst (search (root d, []) k)") (simp_all add: contains_def)
  then show ?thesis
    using search_lookup [OF dict_inv_bst [OF inv], of k] by (simp add: abs_map_def pairs_def)
qed

lemma getValue_abs:
  "dict_inv d \<Longrightarrow> getValue d k =
     (case abs_map d k of
        None \<Rightarrow> Inl (Logic_error ''getValue(): pre-condition contains(k) not met'')
      | Some v \<Rightarrow> Inr v)"
  using search_lookup [OF dict_inv_bst, of d k] contains_abs [of d k]
  by (auto simp: getValue_def abs_map_def pairs_def split: option.splits)

lemma keys_abs_map: "k \<in> set (keys (pairs d)) \<longleftrightarrow> abs_map d k \<noteq> None"
  by (simp add: abs_map_def in_keys_map_of)

section \<open>Lemmas: setValue and remove\<close>

lemma setValue_abs:
  assumes "dict_inv d"
  shows "\<exists>d'. setValue d k v = Inr d' \<and> dict_inv d' \<and> abs_map d' = (abs_map d)(k \<mapsto> v) \<and>
    current d' = current d \<and>
    num_pairs d' = num_pairs d + (if abs_map d k = None then 1 else 0)"
proof (cases "setValue_walk k v (root d, [])")
  case (Inl t')
  from setValue_walk_overwrite [OF _ this] assms
  have t': "rbt t'" "map_of (inorder t') = (map_of (inorder (root d)))(k \<mapsto> v)"
    "size_tree t' = size_tree (root d)" "k \<in> set (keys (inorder (root d)))"
    by (auto simp: dict_inv_def)
  then have "abs_map d k \<noteq> None" by (simp add: abs_map_def pairs_def in_keys_map_of)
  moreover have "current_ok (d\<lparr>root := t'\<rparr>)"
    using assms t'(2) by (auto simp: dict_inv_def current_ok_def in_keys_map_of abs_map_def pairs_def
      split: option.splits)
  ultimately show ?thesis
    using Inl t' assms by (auto simp: setValue_def dict_inv_def abs_map_def pairs_def)
next
  case (Inr z)
  from setValue_walk_insert [OF _ this] assms
  have z: "ins_inv z" "bst (root_of z)" "map_of (inorder (root_of z)) = (map_of (inorder (root d)))(k \<mapsto> v)"
    "size_tree (root_of z) = Suc (size_tree (root d))" "k \<notin> set (keys (inorder (root d)))"
    by (auto simp: dict_inv_def)
  obtain t where t: "RB_InsertFixUp z = Some t" "invc t" "invh t" "color t = BLACK"
    "inorder t = inorder (root_of z)"
    using RB_InsertFixUp_correct [OF z(1)] by blast
  have "abs_map d k = None" using z(5) by (simp add: abs_map_def pairs_def in_keys_map_of)
  moreover have "rbt t" using t z(2) by (simp add: rbt_def bst_def)
  moreover have "size_tree t = Suc (size_tree (root d))"
    using arg_cong [OF t(5), of length] z(4) by simp
  moreover have "current_ok (d\<lparr>root := t, num_pairs := num_pairs d + 1\<rparr>)"
    using assms t(5) z(3) by (auto simp: dict_inv_def current_ok_def in_keys_map_of abs_map_def
      pairs_def split: option.splits)
  ultimately show ?thesis
    using Inr t z assms by (auto simp: setValue_def dict_inv_def abs_map_def pairs_def)
qed

lemma remove_abs:
  assumes "dict_inv d" and "contains d k"
  shows "\<exists>d'. remove d k = Inr d' \<and> dict_inv d' \<and> abs_map d' = (abs_map d)(k := None) \<and>
    current d' = (if current d = Some k then None else current d) \<and>
    num_pairs d' = num_pairs d - 1"
proof -
  obtain n p where s: "search (root d, []) k = (n, p)" by fastforce
  have n: "n \<noteq> nil" using assms(2) s by (simp add: contains_def)
  have kn: "key_of n = Some k"
    using search_lookup [OF dict_inv_bst [OF assms(1)], of k] s n assms
    by (auto simp: contains_abs abs_map_def pairs_def)
  obtain t' where t': "RB_Delete (n, p) = Some t'" "rbt t'"
    "map_of (inorder t') = (map_of (inorder (root d)))(k := None)"
    "Suc (size_tree t') = size_tree (root d)"
    using RB_Delete_found [OF _ s n] assms(1) by (auto simp: dict_inv_def)
  let ?d1 = "if key_of n = current d then d\<lparr>current := None\<rparr> else d"
  have "current_ok (?d1\<lparr>root := t', num_pairs := num_pairs ?d1 - 1\<rparr>)"
    using assms(1) t'(3) kn by (auto simp: dict_inv_def current_ok_def in_keys_map_of abs_map_def
      pairs_def split: option.splits)
  then show ?thesis
    using assms t' s kn
    by (auto simp: remove_def dict_inv_def abs_map_def pairs_def of_nat_diff)
qed

lemma remove_absent:
  "\<not> contains d k \<Longrightarrow> remove d k = Inl (Logic_error ''remove(): pre-condition contains(k) not met'')"
  by (simp add: remove_def)


section \<open>Lemmas: the iterator\<close>

lemma findNext_key:
  assumes "findNext (Node c l k v r, p) = (t', p')"
  shows "key_of t' = (case inorder r @ rights p of [] \<Rightarrow> None | (k', _) # _ \<Rightarrow> Some k')"
proof (cases "r = nil")
  case True
  with assms have "climb_from_right (Node c l k v r, p) = (t', p')" by simp
  from climb_from_right_result [OF this] True show ?thesis by auto
next
  case False
  with assms have "findMin (r, InRight c l k v # p) = (t', p')" by simp
  from findMin_shape [OF this False] obtain q c' k' v' r' where
    "t' = Node c' nil k' v' r'" "lefts q = []" "root_of (t', q) = r" by blast
  then show ?thesis using arg_cong [of "root_of (t', q)" r inorder] by auto
qed

lemma findPrev_key:
  assumes "findPrev (Node c l k v r, p) = (t', p')"
  shows "key_of t' = (case rev (lefts p @ inorder l) of [] \<Rightarrow> None | (k', _) # _ \<Rightarrow> Some k')"
proof (cases "l = nil")
  case True
  with assms have "climb_from_left (Node c l k v r, p) = (t', p')" by simp
  from climb_from_left_result [OF this] True show ?thesis by auto
next
  case False
  with assms have "findMax (l, InLeft c k v r # p) = (t', p')" by simp
  from findMax_shape [OF this False] obtain q c' l' k' v' where
    "t' = Node c' l' k' v' nil" "rights q = []" "root_of (t', q) = l" by blast
  then show ?thesis using arg_cong [of "root_of (t', q)" l inorder] by auto
qed

text \<open>The node of the iterator, found again from its key.\<close>

lemma current_node:
  assumes "dict_inv d" and "k \<in> set (keys (pairs d))"
  obtains c l v r p where "search (root d, []) k = (Node c l k v r, p)"
    and "pairs d = lefts p @ inorder l @ (k, v) # inorder r @ rights p"
proof -
  obtain n p where s: "search (root d, []) k = (n, p)" by fastforce
  have "key_of n = Some k"
    using search_lookup [OF dict_inv_bst [OF assms(1)], of k] s assms(2)
    by (auto simp: pairs_def in_keys_map_of)
  then obtain c l v r where n: "n = Node c l k v r" by (cases n) auto
  have rt: "root_of (Node c l k v r, p) = root d"
    using search_root_of [of "(root d, [])" k] s n by simp
  have "pairs d = lefts p @ inorder l @ (k, v) # inorder r @ rights p"
    unfolding pairs_def rt [symmetric] by simp
  with that s n show ?thesis by blast
qed

lemma iter_next_abs:
  assumes "dict_inv d" and "current d = Some k" and "keys (pairs d) = xs @ k # ys"
  shows "\<exists>d'. iter_next d = Inr d' \<and> dict_inv d' \<and> pairs d' = pairs d \<and>
    current d' = (case ys of [] \<Rightarrow> None | k' # _ \<Rightarrow> Some k')"
proof -
  have kin: "k \<in> set (keys (pairs d))" using assms(3) by simp
  obtain c l v r p where s: "search (root d, []) k = (Node c l k v r, p)"
    and pd: "pairs d = lefts p @ inorder l @ (k, v) # inorder r @ rights p"
    using current_node [OF assms(1) kin] by blast
  have "distinct (keys (pairs d))" using dict_inv_bst [OF assms(1)] by (simp add: bst_def pairs_def)
  moreover have "keys (pairs d) = keys (lefts p @ inorder l) @ k # keys (inorder r @ rights p)"
    using pd by simp
  ultimately have ys: "ys = keys (inorder r @ rights p)" using distinct_mid_unique assms(3) by metis
  obtain t' p' where fn: "findNext (Node c l k v r, p) = (t', p')" by fastforce
  have key: "key_of t' = (case ys of [] \<Rightarrow> None | k' # _ \<Rightarrow> Some k')"
    unfolding ys case_keys_hd by (rule findNext_key [OF fn])
  have "current_ok (d\<lparr>current := key_of t'\<rparr>)"
    using key assms(3) by (simp add: current_ok_def pairs_def split: list.splits)
  moreover have "iter_next d = Inr (d\<lparr>current := key_of t'\<rparr>)"
    using assms(2) s fn by (simp add: iter_next_def)
  ultimately show ?thesis
    using assms(1) key by (simp add: dict_inv_def pairs_def)
qed
lemma iter_prev_abs:
  assumes "dict_inv d" and "current d = Some k" and "keys (pairs d) = xs @ k # ys"
  shows "\<exists>d'. iter_prev d = Inr d' \<and> dict_inv d' \<and> pairs d' = pairs d \<and>
    current d' = (case rev xs of [] \<Rightarrow> None | k' # _ \<Rightarrow> Some k')"
proof -
  have kin: "k \<in> set (keys (pairs d))" using assms(3) by simp
  obtain c l v r p where s: "search (root d, []) k = (Node c l k v r, p)"
    and pd: "pairs d = lefts p @ inorder l @ (k, v) # inorder r @ rights p"
    using current_node [OF assms(1) kin] by blast
  have "distinct (keys (pairs d))" using dict_inv_bst [OF assms(1)] by (simp add: bst_def pairs_def)
  moreover have "keys (pairs d) = keys (lefts p @ inorder l) @ k # keys (inorder r @ rights p)"
    using pd by simp
  ultimately have xs: "xs = keys (lefts p @ inorder l)" using distinct_mid_unique assms(3) by metis
  obtain t' p' where fn: "findPrev (Node c l k v r, p) = (t', p')" by fastforce
  have key: "key_of t' = (case rev xs of [] \<Rightarrow> None | k' # _ \<Rightarrow> Some k')"
    unfolding xs rev_map case_keys_hd by (rule findPrev_key [OF fn])
  have "current_ok (d\<lparr>current := key_of t'\<rparr>)"
    using key assms(3) by (simp add: current_ok_def pairs_def split: list.splits)
  moreover have "iter_prev d = Inr (d\<lparr>current := key_of t'\<rparr>)"
    using assms(2) s fn by (simp add: iter_prev_def)
  ultimately show ?thesis
    using assms(1) key by (simp add: dict_inv_def pairs_def)
qed

lemma iter_begin_abs:
  assumes "dict_inv d"
  shows "dict_inv (iter_begin d) \<and> pairs (iter_begin d) = pairs d \<and>
    current (iter_begin d) = (case keys (pairs d) of [] \<Rightarrow> current d | k # _ \<Rightarrow> Some k)"
proof (cases "root d = nil")
  case True
  with assms show ?thesis by (simp add: iter_begin_def pairs_def)
next
  case False
  obtain t' q where fm: "findMin (root d, []) = (t', q)" by fastforce
  from findMin_shape [OF fm False] obtain q' c k v r where
    t': "t' = Node c nil k v r" "lefts q' = []" "root_of (t', q') = root d" by auto
  have rt: "root_of (Node c nil k v r, q') = root d" using t' by simp
  have pd: "pairs d = (k, v) # inorder r @ rights q'"
    unfolding pairs_def rt [symmetric] using t'(2) by simp
  show ?thesis
    using assms False fm t' pd
    by (simp add: iter_begin_def dict_inv_def current_ok_def pairs_def)
qed

lemma iter_end_abs:
  assumes "dict_inv d"
  shows "dict_inv (iter_end d) \<and> pairs (iter_end d) = pairs d \<and>
    current (iter_end d) = (case rev (keys (pairs d)) of [] \<Rightarrow> current d | k # _ \<Rightarrow> Some k)"
proof (cases "root d = nil")
  case True
  with assms show ?thesis by (simp add: iter_end_def pairs_def)
next
  case False
  obtain t' q where fm: "findMax (root d, []) = (t', q)" by fastforce
  from findMax_shape [OF fm False] obtain q' c l k v where
    t': "t' = Node c l k v nil" "rights q' = []" "root_of (t', q') = root d" by auto
  have rt: "root_of (Node c l k v nil, q') = root d" using t' by simp
  have pd: "pairs d = lefts q' @ inorder l @ [(k, v)]"
    unfolding pairs_def rt [symmetric] using t'(2) by simp
  show ?thesis
    using assms False fm t' pd
    by (simp add: iter_end_def dict_inv_def current_ok_def pairs_def)
qed

section \<open>Lemmas: the empty dictionary, the invariant, the dumps\<close>

lemma abs_map_empty [simp]: "abs_map Dictionary_empty = Map.empty"
  by (simp add: abs_map_def pairs_def Dictionary_empty_def)

lemma root_current_empty [simp]: "root Dictionary_empty = nil" "current Dictionary_empty = None"
  by (simp_all add: Dictionary_empty_def)

lemma dict_inv_empty [simp]: "dict_inv Dictionary_empty"
  by (simp add: dict_inv_def Dictionary_empty_def rbt_def bst_def current_ok_def pairs_def)

lemma dict_inv_sorted: "dict_inv d \<Longrightarrow> sorted_keys (pairs d)"
  by (simp add: dict_inv_def rbt_def bst_def pairs_def)

lemma dict_inv_size: "dict_inv d \<Longrightarrow> size d = int (length (pairs d))"
  by (simp add: dict_inv_def size_def pairs_def)

lemma clear_inv: "dict_inv (clear d) \<and> pairs (clear d) = [] \<and> current (clear d) = None"
  by (simp add: clear_def dict_inv_def rbt_def bst_def current_ok_def pairs_def)

lemma inOrderString_concat: "inOrderString s t = s @ concat (map pair_line (inorder t))"
  by (induction s t rule: inOrderString.induct) (simp_all add: pair_line_def)

section \<open>Lemmas: more on the iterator\<close>

lemma iter_next_inv:
  assumes "dict_inv d" and "iter_next d = Inr d'"
  shows "dict_inv d'"
proof -
  obtain k where k: "current d = Some k" using assms(2) by (cases "current d") (auto simp: iter_next_def)
  then have "k \<in> set (keys (pairs d))" using assms(1) by (simp add: dict_inv_def current_ok_def)
  then obtain xs ys where "keys (pairs d) = xs @ k # ys" by (meson split_list)
  from iter_next_abs [OF assms(1) k this] assms(2) show ?thesis by auto
qed

lemma iter_prev_inv:
  assumes "dict_inv d" and "iter_prev d = Inr d'"
  shows "dict_inv d'"
proof -
  obtain k where k: "current d = Some k" using assms(2) by (cases "current d") (auto simp: iter_prev_def)
  then have "k \<in> set (keys (pairs d))" using assms(1) by (simp add: dict_inv_def current_ok_def)
  then obtain xs ys where "keys (pairs d) = xs @ k # ys" by (meson split_list)
  from iter_prev_abs [OF assms(1) k this] assms(2) show ?thesis by auto
qed

lemma iter_next_nth:
  assumes "dict_inv d" and "i < length (pairs d)" and "current d = Some (fst (pairs d ! i))"
  shows "\<exists>d'. iter_next d = Inr d' \<and> dict_inv d' \<and> pairs d' = pairs d \<and>
    current d' = (if Suc i < length (pairs d) then Some (fst (pairs d ! Suc i)) else None)"
proof -
  let ?ks = "keys (pairs d)"
  have split: "?ks = take i ?ks @ fst (pairs d ! i) # drop (Suc i) ?ks"
    using assms(2) id_take_nth_drop [of i ?ks] by simp
  from iter_next_abs [OF assms(1,3) split] show ?thesis
    by (auto simp: case_drop_Suc)
qed

section \<open>Lemmas: removal as a filter, copies\<close>

lemma remove_pairs:
  assumes "dict_inv d" and "contains d k"
  shows "\<exists>d'. remove d k = Inr d' \<and> dict_inv d' \<and> pairs d' = filter (\<lambda>p. fst p \<noteq> k) (pairs d) \<and>
    current d' = (if current d = Some k then None else current d)"
proof -
  obtain d' where d': "remove d k = Inr d'" "dict_inv d'" "abs_map d' = (abs_map d)(k := None)"
    "current d' = (if current d = Some k then None else current d)"
    using remove_abs [OF assms] by blast
  have s: "sorted_keys (filter (\<lambda>p. fst p \<noteq> k) (pairs d))"
    using dict_inv_sorted [OF assms(1)] by (simp add: sorted_wrt_map sorted_wrt_filter)
  have "map_of (pairs d') = map_of (filter (\<lambda>p. fst p \<noteq> k) (pairs d))"
    using d'(3) by (simp add: abs_map_def map_of_filter_key)
  then have "pairs d' = filter (\<lambda>p. fst p \<noteq> k) (pairs d)"
    by (rule sorted_keys_map_of_eq [OF dict_inv_sorted [OF d'(2)] s])
  with d' show ?thesis by blast
qed

lemma bst_Node: "bst (Node c l k v r) \<Longrightarrow> bst l \<and> bst r \<and> k \<notin> set (keys (inorder l)) \<and>
   k \<notin> set (keys (inorder r)) \<and> set (keys (inorder l)) \<inter> set (keys (inorder r)) = {}"
  using sorted_keys_middle [of "inorder l" k v "inorder r"] by (auto simp: bst_def) fastforce

lemma preOrderCopy_abs:
  assumes "bst t" and "dict_inv d"
  shows "\<exists>d'. preOrderCopy t d = Inr d' \<and> dict_inv d' \<and>
    abs_map d' = abs_map d ++ map_of (inorder t) \<and> current d' = current d"
  using assms
proof (induction t arbitrary: d)
  case nil
  then show ?case by simp
next
  case (Node c l k v r)
  note b = bst_Node [OF Node.prems(1)]
  obtain d1 where d1: "setValue d k v = Inr d1" "dict_inv d1" "abs_map d1 = (abs_map d)(k \<mapsto> v)"
    "current d1 = current d" using setValue_abs [OF Node.prems(2)] by blast
  obtain d2 where d2: "preOrderCopy l d1 = Inr d2" "dict_inv d2" "abs_map d2 = abs_map d1 ++ map_of (inorder l)"
    "current d2 = current d1" using Node.IH(1) [OF _ d1(2)] b by blast
  obtain d3 where d3: "preOrderCopy r d2 = Inr d3" "dict_inv d3" "abs_map d3 = abs_map d2 ++ map_of (inorder r)"
    "current d3 = current d2" using Node.IH(2) [OF _ d2(2)] b by blast
  have kl: "map_of (inorder l) k = None" and kr: "map_of (inorder r) k = None"
    and lr: "\<And>x. map_of (inorder l) x = None \<or> map_of (inorder r) x = None"
    using b by (auto simp: map_of_eq_None_iff)
  have "abs_map d3 = abs_map d ++ map_of (inorder (Node c l k v r))"
  proof
    fix x
    show "abs_map d3 x = (abs_map d ++ map_of (inorder (Node c l k v r))) x"
      using d1(3) d2(3) d3(3) kl kr lr [of x]
      by (cases "x = k") (auto simp: map_add_def split: option.splits)
  qed
  with d1 d2 d3 show ?case by simp
qed

lemma preOrderCopy_into_empty:
  assumes "dict_inv d" and "pairs d = []" and "dict_inv D"
  shows "\<exists>d'. preOrderCopy (root D) d = Inr d' \<and> dict_inv d' \<and> pairs d' = pairs D \<and>
    current d' = current d"
proof -
  from preOrderCopy_abs [OF dict_inv_bst [OF assms(3)] assms(1)]
  obtain d' where d': "preOrderCopy (root D) d = Inr d'" "dict_inv d'"
    "map_of (pairs d') = map_of (pairs D)" "current d' = current d"
    using assms(2) by (auto simp: abs_map_def pairs_def)
  have "pairs d' = pairs D"
    by (rule sorted_keys_map_of_eq [OF dict_inv_sorted [OF d'(2)] dict_inv_sorted [OF assms(3)] d'(3)])
  with d' show ?thesis by blast
qed

end
