(* ===== verification/Dict_Ops.thy ===== *)
theory Dict_Ops
  imports RB_Dictionary
begin

text \<open>
  The client's view of \<open>Dictionary\<close>: the state-changing public calls as a datatype
  of operations, one step function that dispatches them to the member functions of
  \<open>RB_Dictionary\<close>, runs of operations that stop at the first exception (as an
  uncaught \<open>logic_error\<close> stops the test drivers of \<open>src/pa8\<close>), and the dictionaries
  reachable from the constructor by calls and copies. The lemmas show that every
  successful call keeps the class invariant, how a forward walk with \<open>next()\<close> visits
  the pairs, and that removing every key empties the dictionary.
\<close>

section \<open>Operations and runs\<close>

datatype ('k, 'v) dict_op =
    SetValue 'k 'v | Remove 'k | Begin | End | Next | Prev | Clear

fun apply_op ::
  "('k::linorder, 'v) dict_op \<Rightarrow> ('k, 'v) Dictionary \<Rightarrow> ('k, 'v) Dictionary result" where
  "apply_op (SetValue k v) d = setValue d k v"
| "apply_op (Remove k) d = remove d k"
| "apply_op Begin d = Inr (iter_begin d)"
| "apply_op End d = Inr (iter_end d)"
| "apply_op Next d = iter_next d"
| "apply_op Prev d = iter_prev d"
| "apply_op Clear d = Inr (clear d)"

fun run_ops ::
  "('k::linorder, 'v) dict_op list \<Rightarrow> ('k, 'v) Dictionary \<Rightarrow> ('k, 'v) Dictionary result" where
  "run_ops [] d = Inr d"
| "run_ops (a # as) d = (case apply_op a d of Inl e \<Rightarrow> Inl e | Inr d' \<Rightarrow> run_ops as d')"

inductive reachable :: "('k::linorder, 'v) Dictionary \<Rightarrow> bool" where
  empty: "reachable Dictionary_empty"
| step: "reachable d \<Longrightarrow> apply_op a d = Inr d' \<Longrightarrow> reachable d'"
| copy: "reachable D \<Longrightarrow> Dictionary_copy D = Inr d' \<Longrightarrow> reachable d'"

section \<open>Lemmas\<close>

lemma apply_op_inv: "dict_inv d \<Longrightarrow> apply_op a d = Inr d' \<Longrightarrow> dict_inv d'"
proof (cases a)
  case (SetValue k v)
  assume "dict_inv d" "apply_op a d = Inr d'"
  with SetValue show ?thesis using setValue_abs [of d k v] by auto
next
  case (Remove k)
  assume a: "dict_inv d" "apply_op a d = Inr d'"
  then have "contains d k" using Remove by (auto simp: remove_def split: if_splits)
  with a Remove show ?thesis using remove_abs [of d k] by auto
next
  case Clear
  assume "apply_op a d = Inr d'"
  with Clear show ?thesis using clear_inv [of d] by simp
qed (use iter_begin_abs iter_end_abs iter_next_inv iter_prev_inv in auto)

lemma reachable_inv: "reachable d \<Longrightarrow> dict_inv d"
proof (induction rule: reachable.induct)
  case empty
  then show ?case by simp
next
  case (step d a d')
  then show ?case using apply_op_inv by blast
next
  case (copy D d')
  then show ?case
    using preOrderCopy_into_empty [OF dict_inv_empty _ copy.IH] by (auto simp: Dictionary_copy_def pairs_def)
qed

lemma run_next_walk:
  assumes "dict_inv d" and "i < length (pairs d)" and "i + n \<le> length (pairs d)"
    and "current d = Some (fst (pairs d ! i))"
  shows "\<exists>d'. run_ops (replicate n Next) d = Inr d' \<and> dict_inv d' \<and> pairs d' = pairs d \<and>
    current d' = (if i + n < length (pairs d) then Some (fst (pairs d ! (i + n))) else None)"
  using assms
proof (induction n arbitrary: d i)
  case 0
  then show ?case by simp
next
  case (Suc n)
  obtain d1 where d1: "iter_next d = Inr d1" "dict_inv d1" "pairs d1 = pairs d"
    "current d1 = (if Suc i < length (pairs d) then Some (fst (pairs d ! Suc i)) else None)"
    using iter_next_nth [OF Suc.prems(1,2,4)] by blast
  show ?case
  proof (cases "Suc i < length (pairs d)")
    case True
    then show ?thesis using Suc.IH [OF d1(2), of "Suc i"] Suc.prems d1 by auto
  next
    case False
    then have "n = 0" using Suc.prems by simp
    with False d1 show ?thesis by simp
  qed
qed

lemma run_remove_all:
  assumes "dict_inv d" and "distinct ks" and "set ks = set (keys (pairs d))"
  shows "\<exists>d'. run_ops (map Remove ks) d = Inr d' \<and> dict_inv d' \<and> pairs d' = []"
  using assms
proof (induction ks arbitrary: d)
  case Nil
  then show ?case by simp
next
  case (Cons k ks)
  have "k \<in> set (keys (pairs d))" unfolding Cons.prems(3) [symmetric] by simp
  then have "contains d k" using contains_abs [OF Cons.prems(1), of k] keys_abs_map [of k d] by simp
  then obtain d1 where d1: "remove d k = Inr d1" "dict_inv d1"
    "pairs d1 = filter (\<lambda>p. fst p \<noteq> k) (pairs d)"
    using remove_pairs [OF Cons.prems(1)] by blast
  have "set (keys (pairs d1)) = set (keys (pairs d)) - {k}" unfolding d1(3) by auto
  then have "set ks = set (keys (pairs d1))" using Cons.prems(2,3) by auto
  then obtain d2 where "run_ops (map Remove ks) d1 = Inr d2" "dict_inv d2" "pairs d2 = []"
    using Cons.IH [OF d1(2)] Cons.prems(2) by auto
  with d1(1) show ?case by simp
qed

end
