(* ===== verification/Cursor_List.thy ===== *)
theory Cursor_List
  imports Prelude
begin

text \<open>
  The \<open>List\<close> class of \<open>src/pa6/List.cpp\<close>: a doubly linked list of \<open>long\<close> values
  between two dummy nodes, with a cursor standing between the nodes \<open>beforeCursor\<close> and
  \<open>afterCursor\<close> at position \<open>pos_cursor\<close>. Nodes have identities, so that a pointer
  that survives the deletion of its node can be told apart: node \<open>0\<close> is
  \<open>frontDummy\<close>, node \<open>1\<close> is \<open>backDummy\<close>, real nodes carry the identities the
  allocator \<open>next_id\<close> hands out, and the record keeps the real nodes from front to back
  with their data. Following a \<open>next\<close> or \<open>prev\<close> link, or reading data, through a
  pointer to a deleted node is \<open>Use_after_free\<close>; through the null link of a dummy it
  is \<open>Null_dereference\<close>. \<open>ListElement\<close> is \<open>long\<close>; the values the repository
  stores are far from its bounds, so they are modelled as \<open>int\<close>.
\<close>

section \<open>State\<close>

definition frontDummy :: nat where "frontDummy = 0"
definition backDummy :: nat where "backDummy = 1"

record DList =
  nodes :: "(nat \<times> int) list"
  beforeCursor :: nat
  afterCursor :: nat
  pos_cursor :: int
  num_elements :: int
  next_id :: nat

text \<open>The nodes reachable from \<open>frontDummy\<close> by \<open>next\<close> links, in order.\<close>

definition chain :: "DList \<Rightarrow> nat list" where
  "chain L = frontDummy # map fst (nodes L) @ [backDummy]"

fun succ_of :: "nat list \<Rightarrow> nat \<Rightarrow> nat option" where
  "succ_of (a # b # r) i = (if a = i then Some b else succ_of (b # r) i)"
| "succ_of _ i = None"

fun pred_of :: "nat list \<Rightarrow> nat \<Rightarrow> nat option" where
  "pred_of (a # b # r) i = (if b = i then Some a else pred_of (b # r) i)"
| "pred_of _ i = None"

text \<open>\<open>N->next\<close>, \<open>N->prev\<close> and \<open>N->data\<close> (the dummies hold the \<open>0\<close> of \<open>Node(0)\<close>).\<close>

definition next_ptr :: "DList \<Rightarrow> nat \<Rightarrow> nat result" where
  "next_ptr L i =
     (if i \<notin> set (chain L) then Inl Use_after_free
      else case succ_of (chain L) i of None \<Rightarrow> Inl Null_dereference | Some j \<Rightarrow> Inr j)"

definition prev_ptr :: "DList \<Rightarrow> nat \<Rightarrow> nat result" where
  "prev_ptr L i =
     (if i \<notin> set (chain L) then Inl Use_after_free
      else case pred_of (chain L) i of None \<Rightarrow> Inl Null_dereference | Some j \<Rightarrow> Inr j)"

definition data_at :: "DList \<Rightarrow> nat \<Rightarrow> int result" where
  "data_at L i =
     (if i = frontDummy \<or> i = backDummy then Inr 0
      else case map_of (nodes L) i of None \<Rightarrow> Inl Use_after_free | Some x \<Rightarrow> Inr x)"

text \<open>\<open>frontDummy->next\<close> and \<open>backDummy->prev\<close>.\<close>

definition first_id :: "DList \<Rightarrow> nat" where
  "first_id L = hd (map fst (nodes L) @ [backDummy])"

definition last_id :: "DList \<Rightarrow> nat" where
  "last_id L = last (frontDummy # map fst (nodes L))"

text \<open>Linking a new node in front of the live node \<open>a\<close> (\<open>backDummy\<close>: at the back).\<close>

definition link_before :: "nat \<Rightarrow> nat \<times> int \<Rightarrow> (nat \<times> int) list \<Rightarrow> (nat \<times> int) list" where
  "link_before a y ns = (let k = length (takeWhile (\<lambda>p. fst p \<noteq> a) ns) in take k ns @ y # drop k ns)"

definition unlink :: "nat \<Rightarrow> (nat \<times> int) list \<Rightarrow> (nat \<times> int) list" where
  "unlink i ns = filter (\<lambda>p. fst p \<noteq> i) ns"

definition live_cursor :: "DList \<Rightarrow> bool" where
  "live_cursor L = (beforeCursor L \<in> set (chain L) \<and> afterCursor L \<in> set (chain L))"

section \<open>Constructors and access functions\<close>

text \<open>\<open>List()\<close> (lines 32--44).\<close>

definition List_empty :: DList where
  "List_empty = \<lparr>nodes = [], beforeCursor = frontDummy, afterCursor = backDummy, pos_cursor = 0,
     num_elements = 0, next_id = 2\<rparr>"

text \<open>\<open>length()\<close>, \<open>position()\<close> (lines 80--82, 110--112).\<close>

definition length_L :: "DList \<Rightarrow> int" where
  "length_L L = num_elements L"

definition position :: "DList \<Rightarrow> int" where
  "position L = pos_cursor L"

text \<open>\<open>front()\<close>, \<open>back()\<close> (lines 87--106).\<close>

definition front_L :: "DList \<Rightarrow> int result" where
  "front_L L = (if num_elements L \<le> 0 then Inl (Runtime_error ''List: front(): empty List\<newline>'')
     else data_at L (first_id L))"

definition back_L :: "DList \<Rightarrow> int result" where
  "back_L L = (if num_elements L \<le> 0 then Inl (Runtime_error ''List: back(): empty List\<newline>'')
     else data_at L (last_id L))"

text \<open>\<open>peekNext()\<close>, \<open>peekPrev()\<close> (lines 117--140).\<close>

definition peekNext :: "DList \<Rightarrow> int result" where
  "peekNext L = (if pos_cursor L < num_elements L then data_at L (afterCursor L)
     else Inl (Runtime_error ''List: peekNext(): cursor is at the back\<newline>''))"

definition peekPrev :: "DList \<Rightarrow> int result" where
  "peekPrev L = (if 0 < pos_cursor L then data_at L (beforeCursor L)
     else Inl (Runtime_error ''List: peekPrev(): cursor is at the front\<newline>''))"

section \<open>Manipulation procedures\<close>

text \<open>\<open>moveFront()\<close>, \<open>moveBack()\<close> (lines 158--170).\<close>

definition moveFront :: "DList \<Rightarrow> DList" where
  "moveFront L = L\<lparr>pos_cursor := 0, afterCursor := first_id L, beforeCursor := frontDummy\<rparr>"

definition moveBack :: "DList \<Rightarrow> DList" where
  "moveBack L = L\<lparr>pos_cursor := num_elements L, beforeCursor := last_id L, afterCursor := backDummy\<rparr>"

text \<open>\<open>moveNext()\<close>, \<open>movePrev()\<close> (lines 176--210): the passed-over element and the new state.\<close>

definition moveNext :: "DList \<Rightarrow> (int \<times> DList) result" where
  "moveNext L =
     (if pos_cursor L < num_elements L then
        rbind (next_ptr L (afterCursor L)) (\<lambda>a.
        rbind (next_ptr L (beforeCursor L)) (\<lambda>b.
        rbind (data_at L b) (\<lambda>x.
        Inr (x, L\<lparr>afterCursor := a, beforeCursor := b, pos_cursor := pos_cursor L + 1\<rparr>))))
      else Inl (Runtime_error ''List: moveNext(): cursor is at the back\<newline>''))"

definition movePrev :: "DList \<Rightarrow> (int \<times> DList) result" where
  "movePrev L =
     (if 0 < pos_cursor L then
        rbind (prev_ptr L (afterCursor L)) (\<lambda>a.
        rbind (prev_ptr L (beforeCursor L)) (\<lambda>b.
        rbind (data_at L a) (\<lambda>x.
        Inr (x, L\<lparr>afterCursor := a, beforeCursor := b, pos_cursor := pos_cursor L - 1\<rparr>))))
      else Inl (Runtime_error ''List: movePrev(): cursor is at the front\<newline>''))"

text \<open>\<open>insertAfter(x)\<close>, \<open>insertBefore(x)\<close> (lines 214--244): a fresh node linked between
  the cursor's two nodes; the writes through a pointer to a deleted node are undefined.\<close>

definition insertAfter :: "DList \<Rightarrow> int \<Rightarrow> DList result" where
  "insertAfter L x =
     (if \<not> live_cursor L then Inl Use_after_free
      else Inr (L\<lparr>nodes := link_before (afterCursor L) (next_id L, x) (nodes L),
                 afterCursor := next_id L, num_elements := num_elements L + 1,
                 next_id := Suc (next_id L)\<rparr>))"

definition insertBefore :: "DList \<Rightarrow> int \<Rightarrow> DList result" where
  "insertBefore L x =
     (if \<not> live_cursor L then Inl Use_after_free
      else Inr (L\<lparr>nodes := link_before (afterCursor L) (next_id L, x) (nodes L),
                 beforeCursor := next_id L, num_elements := num_elements L + 1,
                 pos_cursor := pos_cursor L + 1, next_id := Suc (next_id L)\<rparr>))"

text \<open>\<open>setAfter(x)\<close>, \<open>setBefore(x)\<close> (lines 249--270).\<close>

definition set_data :: "DList \<Rightarrow> nat \<Rightarrow> int \<Rightarrow> DList result" where
  "set_data L i x =
     (if i \<notin> set (chain L) then Inl Use_after_free
      else Inr (L\<lparr>nodes := map (\<lambda>p. if fst p = i then (i, x) else p) (nodes L)\<rparr>))"

definition setAfter :: "DList \<Rightarrow> int \<Rightarrow> DList result" where
  "setAfter L x = (if pos_cursor L < num_elements L then set_data L (afterCursor L) x
     else Inl (Runtime_error ''List: setAfter(): cursor is at the back\<newline>''))"

definition setBefore :: "DList \<Rightarrow> int \<Rightarrow> DList result" where
  "setBefore L x = (if 0 < pos_cursor L then set_data L (beforeCursor L) x
     else Inl (Runtime_error ''List: setBefore(): cursor is at the front\<newline>''))"

text \<open>\<open>eraseAfter()\<close>, \<open>eraseBefore()\<close> (lines 275--325): the node is unlinked and
  deleted, the cursor pointer moves past it. (\<open>afterCursor\<close> and \<open>beforeCursor\<close> are
  never null, so the inner \<open>!= nullptr\<close> tests always hold.)\<close>

definition eraseAfter :: "DList \<Rightarrow> DList result" where
  "eraseAfter L =
     (if pos_cursor L < num_elements L then
        if \<not> live_cursor L then Inl Use_after_free
        else rbind (next_ptr L (afterCursor L)) (\<lambda>a.
          Inr (L\<lparr>nodes := unlink (afterCursor L) (nodes L), afterCursor := a,
                 num_elements := num_elements L - 1\<rparr>))
      else Inl (Runtime_error ''List: eraseAfter(): cursor is at the back\<newline>''))"

definition eraseBefore :: "DList \<Rightarrow> DList result" where
  "eraseBefore L =
     (if 0 < pos_cursor L then
        if \<not> live_cursor L then Inl Use_after_free
        else rbind (prev_ptr L (beforeCursor L)) (\<lambda>b.
          Inr (L\<lparr>nodes := unlink (beforeCursor L) (nodes L), beforeCursor := b,
                 pos_cursor := pos_cursor L - 1, num_elements := num_elements L - 1\<rparr>))
      else Inl (Runtime_error ''List: eraseBefore(): cursor is at the front\<newline>''))"

text \<open>\<open>clear()\<close> (lines 146--154): \<open>moveFront()\<close>, then \<open>eraseAfter(); moveFront()\<close>
  while \<open>frontDummy->next != backDummy\<close>, then \<open>pos_cursor = 0\<close>. The loop function
  takes the state before its \<open>moveFront()\<close>; every round deletes the front node.\<close>

function clear_loop :: "DList \<Rightarrow> DList result" where
  "clear_loop L =
     (let L0 = moveFront L in
      if first_id L0 \<noteq> backDummy then rbind (eraseAfter L0) clear_loop else Inr L0)"
  by pat_completeness auto
termination
  by (relation "measure (\<lambda>L. length (nodes L))")
    (auto simp: moveFront_def first_id_def eraseAfter_def unlink_def rbind_eq_Inr
      split: if_splits intro: length_filter_hd_less)

definition clear_L :: "DList \<Rightarrow> DList result" where
  "clear_L L = rbind (clear_loop L) (\<lambda>L'. Inr (L'\<lparr>pos_cursor := 0\<rparr>))"

section \<open>Other functions\<close>

text \<open>\<open>findNext(x)\<close> (lines 335--352): \<open>moveNext()\<close> while the cursor is not at the
  back, until the element passed over is \<open>x\<close>; then the position, else \<open>moveBack()\<close>
  and \<open>-1\<close>.\<close>

function findNext_L :: "DList \<Rightarrow> int \<Rightarrow> (int \<times> DList) result" where
  "findNext_L L x =
     (if pos_cursor L < num_elements L then
        rbind (moveNext L) (\<lambda>(_, L').
        rbind (data_at L' (beforeCursor L')) (\<lambda>d.
        if d = x then Inr (pos_cursor L', L') else findNext_L L' x))
      else Inr (-1, moveBack L))"
  by pat_completeness auto
termination
  by (relation "measure (\<lambda>(L, x). nat (num_elements L - pos_cursor L))")
    (auto simp: moveNext_def rbind_eq_Inr split: if_splits)

text \<open>\<open>findPrev(x)\<close> (lines 360--377), the mirror image, ending with \<open>moveFront()\<close>.\<close>

function findPrev_L :: "DList \<Rightarrow> int \<Rightarrow> (int \<times> DList) result" where
  "findPrev_L L x =
     (if 0 < pos_cursor L then
        rbind (movePrev L) (\<lambda>(_, L').
        rbind (data_at L' (afterCursor L')) (\<lambda>d.
        if d = x then Inr (pos_cursor L', L') else findPrev_L L' x))
      else Inr (-1, moveFront L))"
  by pat_completeness auto
termination
  by (relation "measure (\<lambda>(L, x). nat (pos_cursor L))")
    (auto simp: movePrev_def rbind_eq_Inr split: if_splits)

text \<open>
  \<open>cleanup()\<close> (lines 385--424). The inner loop walks \<open>my_node\<close> over the nodes after
  \<open>curr\<close>; it deletes only the node it stands on and reads that node's \<open>next\<close> before
  the \<open>delete\<close>, so it visits exactly the nodes that followed \<open>curr\<close> when it started,
  in order: the list \<open>ms\<close>. A removed duplicate moves \<open>pos_cursor\<close> back by the code's
  rule \<open>pos_cursor >= num_elements - 1 || my_node == afterCursor\<close>; the cursor
  pointers themselves are left alone.
\<close>

fun cleanup_inner :: "nat \<Rightarrow> nat list \<Rightarrow> DList \<Rightarrow> DList result" where
  "cleanup_inner cur [] L = Inr L"
| "cleanup_inner cur (my # ms) L =
     rbind (data_at L cur) (\<lambda>dc. rbind (data_at L my) (\<lambda>dm.
       if dc = dm then
         cleanup_inner cur ms
           (L\<lparr>nodes := unlink my (nodes L),
              pos_cursor := (if num_elements L - 1 \<le> pos_cursor L \<or> my = afterCursor L
                             then pos_cursor L - 1 else pos_cursor L),
              num_elements := num_elements L - 1\<rparr>)
       else cleanup_inner cur ms L))"

text \<open>The outer loop: \<open>curr\<close> runs over the nodes still linked after each inner loop
  (\<open>curr = curr->next\<close> is the first of the later nodes the inner loop kept).\<close>

function cleanup_outer :: "nat list \<Rightarrow> DList \<Rightarrow> DList result" where
  "cleanup_outer [] L = Inr L"
| "cleanup_outer (cur # rs) L =
     rbind (cleanup_inner cur rs L) (\<lambda>L'.
       cleanup_outer (filter (\<lambda>i. i \<in> set (map fst (nodes L'))) rs) L')"
  by pat_completeness auto
termination
  by (relation "measure (\<lambda>(rs, L). length rs)") (auto intro: le_imp_less_Suc length_filter_le)

definition cleanup :: "DList \<Rightarrow> DList result" where
  "cleanup L = cleanup_outer (map fst (nodes L)) L"

text \<open>The copy constructor (lines 47--68): \<open>insertBefore\<close> of every element of the
  source, front to back, into an empty list; the copy's cursor ends at the back.\<close>

fun insert_all :: "int list \<Rightarrow> DList \<Rightarrow> DList result" where
  "insert_all [] L = Inr L"
| "insert_all (x # xs) L = rbind (insertBefore L x) (insert_all xs)"

definition List_copy :: "DList \<Rightarrow> DList result" where
  "List_copy L = insert_all (map snd (nodes L)) List_empty"

text \<open>\<open>operator=\<close> (lines 513--521): a copy of the source swapped in. The model is the
  branch \<open>this != &L\<close>; a self-assignment leaves the list as it is.\<close>

definition assign_L :: "DList \<Rightarrow> DList \<Rightarrow> DList result" where
  "assign_L L R = List_copy R"

text \<open>\<open>concat(L)\<close> (lines 429--443): a copy of this list, the elements of \<open>L\<close>
  inserted before its cursor, then \<open>moveFront()\<close>.\<close>

definition concat_L :: "DList \<Rightarrow> DList \<Rightarrow> DList result" where
  "concat_L T L =
     rbind (List_copy T) (\<lambda>R. rbind (insert_all (map snd (nodes L)) R) (\<lambda>R'. Inr (moveFront R')))"

text \<open>\<open>to_string()\<close> (lines 448--465): \<open>", "\<close> before every element but the first.\<close>

fun to_string_loop :: "bool \<Rightarrow> int list \<Rightarrow> string \<Rightarrow> string" where
  "to_string_loop first [] s = s"
| "to_string_loop first (x # xs) s =
     to_string_loop False xs (s @ (if first then [] else '', '') @ string_of_int x)"

definition to_string_L :: "DList \<Rightarrow> string" where
  "to_string_L L = to_string_loop True (map snd (nodes L)) ''('' @ '')''"

text \<open>\<open>equals(R)\<close> (lines 470--491).\<close>

fun equals_loop :: "int list \<Rightarrow> int list \<Rightarrow> bool" where
  "equals_loop (x # xs) (y # ys) = (if x \<noteq> y then False else equals_loop xs ys)"
| "equals_loop _ _ = True"

definition equals_L :: "DList \<Rightarrow> DList \<Rightarrow> bool" where
  "equals_L L R = (if num_elements L \<noteq> num_elements R then False
     else equals_loop (map snd (nodes L)) (map snd (nodes R)))"

section \<open>Invariant and abstraction\<close>

text \<open>
  The list the class represents: the elements before and after the cursor. The invariant
  says that the node identities are distinct real ones below the allocator, the counters
  are right, and the cursor pointers are the two nodes around position \<open>pos_cursor\<close>.
\<close>

definition elems :: "DList \<Rightarrow> int list" where
  "elems L = map snd (nodes L)"

definition abs_L :: "DList \<Rightarrow> int list \<times> int list" where
  "abs_L L = (take (nat (pos_cursor L)) (elems L), drop (nat (pos_cursor L)) (elems L))"

definition list_inv :: "DList \<Rightarrow> bool" where
  "list_inv L =
     (distinct (map fst (nodes L)) \<and> (\<forall>i \<in> set (map fst (nodes L)). 2 \<le> i \<and> i < next_id L) \<and> 2 \<le> next_id L \<and>
      num_elements L = int (length (nodes L)) \<and> 0 \<le> pos_cursor L \<and> pos_cursor L \<le> num_elements L \<and>
      beforeCursor L = chain L ! nat (pos_cursor L) \<and> afterCursor L = chain L ! Suc (nat (pos_cursor L)))"

section \<open>Reference specifications\<close>

text \<open>The string \<open>to_string()\<close> promises (the elements separated by \<open>", "\<close>), and the
  result \<open>cleanup()\<close> promises: the frontmost occurrence of every element kept, in order
  (on nodes and on values).\<close>

fun commas :: "int list \<Rightarrow> string" where
  "commas [] = []"
| "commas [x] = string_of_int x"
| "commas (x # y # xs) = string_of_int x @ '', '' @ commas (y # xs)"

function dedup_nodes :: "(nat \<times> int) list \<Rightarrow> (nat \<times> int) list" where
  "dedup_nodes [] = []"
| "dedup_nodes (q # qs) = q # dedup_nodes (filter (\<lambda>p. snd p \<noteq> snd q) qs)"
  by pat_completeness auto
termination by (relation "measure length") (auto intro: le_imp_less_Suc length_filter_le)

function dedup :: "int list \<Rightarrow> int list" where
  "dedup [] = []"
| "dedup (x # xs) = x # dedup (filter (\<lambda>y. y \<noteq> x) xs)"
  by pat_completeness auto
termination by (relation "measure length") (auto intro: le_imp_less_Suc length_filter_le)

end
