(* ===== verification/Cursor_List_Ops.thy ===== *)
theory Cursor_List_Ops
  imports Cursor_List
begin

text \<open>
  Lemmas on the pointer-level model of \<open>src/pa6/List.cpp\<close>: how the \<open>next\<close> and \<open>prev\<close>
  links of the chain read as list indexing, and that every cursor operation preserves
  \<open>list_inv\<close> and acts on the abstraction \<open>abs_L\<close> the way the comments of \<open>List.cpp\<close>
  describes (moves, insertions, deletions, overwrites, peeks).
\<close>

lemma succ_of_nth: "distinct xs \<Longrightarrow> Suc i < length xs \<Longrightarrow> succ_of xs (xs ! i) = Some (xs ! Suc i)"
proof (induction xs arbitrary: i)
  case Nil
  then show ?case by simp
next
  case (Cons a xs)
  then obtain b r where xs: "xs = b # r" by (cases xs) auto
  show ?case
  proof (cases i)
    case 0
    with xs show ?thesis by simp
  next
    case (Suc j)
    then have "a \<noteq> xs ! j" using Cons.prems by (auto simp: nth_mem)
    with Cons Suc xs show ?thesis by simp
  qed
qed

lemma pred_of_nth: "distinct xs \<Longrightarrow> Suc i < length xs \<Longrightarrow> pred_of xs (xs ! Suc i) = Some (xs ! i)"
proof (induction xs "xs ! Suc i" arbitrary: i rule: pred_of.induct)
  case (1 a b r)
  then show ?case by (cases i) (auto simp: nth_Cons')
qed auto

lemma chain_elems_upd [simp]:
  "chain (L\<lparr>pos_cursor := p\<rparr>) = chain L" "chain (L\<lparr>beforeCursor := b\<rparr>) = chain L"
  "chain (L\<lparr>afterCursor := a\<rparr>) = chain L" "chain (L\<lparr>num_elements := n\<rparr>) = chain L"
  "elems (L\<lparr>pos_cursor := p\<rparr>) = elems L" "elems (L\<lparr>beforeCursor := b\<rparr>) = elems L"
  "elems (L\<lparr>afterCursor := a\<rparr>) = elems L" "elems (L\<lparr>num_elements := n\<rparr>) = elems L"
  by (simp_all add: chain_def elems_def)

lemma chain_0 [simp]: "chain L ! 0 = frontDummy"
  by (simp add: chain_def)

lemma chain_distinct: "list_inv L \<Longrightarrow> distinct (chain L)"
  by (auto simp: list_inv_def chain_def frontDummy_def backDummy_def)

lemma length_chain [simp]: "length (chain L) = length (nodes L) + 2"
  by (simp add: chain_def)

lemma chain_nth_Suc: "i < length (nodes L) \<Longrightarrow> chain L ! Suc i = fst (nodes L ! i)"
  by (simp add: chain_def nth_append)

lemma data_at_nth:
  assumes "list_inv L" and "i < length (nodes L)"
  shows "data_at L (chain L ! Suc i) = Inr (elems L ! i)"
proof -
  have d: "distinct (map fst (nodes L))" and r: "fst (nodes L ! i) \<ge> 2"
    using assms nth_mem [OF assms(2)] by (auto simp: list_inv_def)
  have "map_of (nodes L) (fst (nodes L ! i)) = Some (snd (nodes L ! i))"
    using d assms(2) by (simp add: map_of_eq_Some_iff [OF d])
  then show ?thesis using r assms(2)
    by (simp add: data_at_def chain_nth_Suc elems_def frontDummy_def backDummy_def)
qed

lemma length_elems [simp]: "length (elems L) = length (nodes L)"
  by (simp add: elems_def)

lemma next_ptr_nth:
  "list_inv L \<Longrightarrow> Suc k < length (chain L) \<Longrightarrow> next_ptr L (chain L ! k) = Inr (chain L ! Suc k)"
  using succ_of_nth [OF chain_distinct] by (simp add: next_ptr_def)

lemma prev_ptr_nth:
  "list_inv L \<Longrightarrow> Suc k < length (chain L) \<Longrightarrow> prev_ptr L (chain L ! Suc k) = Inr (chain L ! k)"
  using pred_of_nth [OF chain_distinct] by (simp add: prev_ptr_def del: length_chain)

lemma abs_L_split:
  assumes "abs_L L = (xs, ys)"
  shows "elems L = xs @ ys" "list_inv L \<Longrightarrow> length xs = nat (pos_cursor L)"
  using assms by (auto simp: abs_L_def list_inv_def min_def)

lemma abs_L_after:
  assumes "abs_L L = (xs, y # ys)"
  shows "nat (pos_cursor L) < length (nodes L)" "elems L ! nat (pos_cursor L) = y"
    "take (Suc (nat (pos_cursor L))) (elems L) = xs @ [y]" "drop (Suc (nat (pos_cursor L))) (elems L) = ys"
proof -
  let ?p = "nat (pos_cursor L)"
  have t: "take ?p (elems L) = xs" and d: "drop ?p (elems L) = y # ys" using assms by (auto simp: abs_L_def)
  show lt: "?p < length (nodes L)" using d by (metis drop_eq_Nil2 length_elems list.simps(3) not_le)
  show y: "elems L ! ?p = y" using d lt by (metis Cons_nth_drop_Suc length_elems list.inject)
  show "take (Suc ?p) (elems L) = xs @ [y]" using t y lt by (simp add: take_Suc_conv_app_nth)
  show "drop (Suc ?p) (elems L) = ys" using d lt by (metis Cons_nth_drop_Suc length_elems list.inject)
qed

lemma moveNext_spec:
  assumes "list_inv L" and "abs_L L = (xs, y # ys)"
  shows "\<exists>L'. moveNext L = Inr (y, L') \<and> list_inv L' \<and> abs_L L' = (xs @ [y], ys) \<and> elems L' = elems L"
proof -
  let ?p = "nat (pos_cursor L)"
  note a = abs_L_after [OF assms(2)]
  have inv: "beforeCursor L = chain L ! ?p" "afterCursor L = chain L ! Suc ?p" "0 \<le> pos_cursor L"
    "num_elements L = int (length (nodes L))"
    using assms(1) by (auto simp: list_inv_def)
  have n1: "next_ptr L (afterCursor L) = Inr (chain L ! Suc (Suc ?p))"
    and n2: "next_ptr L (beforeCursor L) = Inr (chain L ! Suc ?p)"
    using next_ptr_nth [OF assms(1)] a(1) inv by simp_all
  have dt: "data_at L (chain L ! Suc ?p) = Inr y" using data_at_nth [OF assms(1) a(1)] a(2) by simp
  have lt: "pos_cursor L < num_elements L" using a(1) inv by linarith
  let ?L' = "L\<lparr>afterCursor := chain L ! Suc (Suc ?p), beforeCursor := chain L ! Suc ?p,
              pos_cursor := pos_cursor L + 1\<rparr>"
  have "moveNext L = Inr (y, ?L')" using lt n1 n2 dt by (simp add: moveNext_def)
  moreover have "nat (pos_cursor L + 1) = Suc ?p" using inv by simp
  ultimately show ?thesis using assms(1) a lt inv
    by (auto simp: list_inv_def abs_L_def chain_def elems_def)
qed

lemma length_takeWhile_nth:
  "distinct (map f ns) \<Longrightarrow> i < length ns \<Longrightarrow> length (takeWhile (\<lambda>q. f q \<noteq> f (ns ! i)) ns) = i"
proof (induction ns arbitrary: i)
  case Nil
  then show ?case by simp
next
  case (Cons a ns)
  show ?case
  proof (cases i)
    case 0
    then show ?thesis by simp
  next
    case (Suc j)
    then have "f a \<noteq> f (ns ! j)" using Cons.prems by (auto simp: nth_mem)
    with Cons Suc show ?thesis by simp
  qed
qed

lemma takeWhile_after:
  assumes "list_inv L"
  shows "length (takeWhile (\<lambda>q. fst q \<noteq> afterCursor L) (nodes L)) = nat (pos_cursor L)"
proof -
  let ?p = "nat (pos_cursor L)"
  have d: "distinct (map fst (nodes L))" and p: "?p \<le> length (nodes L)"
    and a: "afterCursor L = chain L ! Suc ?p" and r: "\<forall>i \<in> set (map fst (nodes L)). 2 \<le> i"
    using assms by (auto simp: list_inv_def)
  show ?thesis
  proof (cases "?p < length (nodes L)")
    case True
    then have "afterCursor L = fst (nodes L ! ?p)" using a by (simp add: chain_nth_Suc)
    with length_takeWhile_nth [OF d True] show ?thesis by simp
  next
    case False
    then have "afterCursor L = backDummy" using a p by (simp add: chain_def nth_append)
    then have tw: "takeWhile (\<lambda>q. fst q \<noteq> afterCursor L) (nodes L) = nodes L"
      using r by (auto simp: backDummy_def takeWhile_eq_all_conv)
    show ?thesis unfolding tw using False p by simp
  qed
qed

lemma list_inv_pos: "list_inv L \<Longrightarrow> nat (pos_cursor L) \<le> length (nodes L)"
  by (auto simp: list_inv_def)

lemma distinct_mid: "distinct (xs @ a # ys) \<longleftrightarrow> distinct (a # xs @ ys)"
  by auto

lemma distinct_insert_at: "distinct (take k zs @ a # drop k zs) \<longleftrightarrow> a \<notin> set zs \<and> distinct zs"
  using distinct_mid [of "take k zs" a "drop k zs"] by simp

lemma set_insert_at: "set (take k zs @ a # drop k zs) = insert a (set zs)"
  by (metis Un_insert_right append_take_drop_id list.simps(15) set_append)

lemma map_insert_at: "map f (take k zs @ a # drop k zs) = take k (map f zs) @ f a # drop k (map f zs)"
  by (simp add: take_map drop_map)

lemma nth_insert_at: "k \<le> length xs \<Longrightarrow> (take k xs @ y # drop k xs) ! k = y"
  by (simp add: nth_append min_def)

lemma nth_insert_after: "k < length xs \<Longrightarrow> (take k xs @ y # drop k xs) ! Suc k = xs ! k"
  by (simp add: nth_append min_def)

lemma chain_insert:
  "p \<le> length (nodes L) \<Longrightarrow> nodes L' = take p (nodes L) @ y # drop p (nodes L) \<Longrightarrow>
   chain L' = take (Suc p) (chain L) @ fst y # drop (Suc p) (chain L)"
  by (simp add: chain_def take_map drop_map)

lemma live_cursor_inv: "list_inv L \<Longrightarrow> live_cursor L"
  using list_inv_pos [of L] by (auto simp: live_cursor_def list_inv_def intro!: nth_mem)

lemma link_before_inv:
  assumes "list_inv L"
  shows "link_before (afterCursor L) y (nodes L) =
    take (nat (pos_cursor L)) (nodes L) @ y # drop (nat (pos_cursor L)) (nodes L)"
  using takeWhile_after [OF assms] by (simp add: link_before_def Let_def)

lemma insert_ids:
  assumes "list_inv L" and "ns = take k (nodes L) @ (next_id L, x) # drop k (nodes L)"
  shows "distinct (map fst ns) \<and> (\<forall>i \<in> set (map fst ns). 2 \<le> i \<and> i < Suc (next_id L))"
proof -
  have "distinct (map fst (nodes L))" "\<forall>i \<in> set (map fst (nodes L)). 2 \<le> i \<and> i < next_id L"
    "2 \<le> next_id L" using assms(1) by (auto simp: list_inv_def)
  then show ?thesis unfolding assms(2) map_insert_at distinct_insert_at set_insert_at by auto
qed

lemma list_inv_facts:
  assumes "list_inv L"
  shows "num_elements L = int (length (nodes L))" "0 \<le> pos_cursor L" "nat (pos_cursor L) \<le> length (nodes L)"
    "pos_cursor L \<le> num_elements L" "beforeCursor L = chain L ! nat (pos_cursor L)"
    "afterCursor L = chain L ! Suc (nat (pos_cursor L))" "2 \<le> next_id L"
  using assms by (auto simp: list_inv_def)

lemma insertBefore_spec:
  assumes "list_inv L" and "abs_L L = (xs, ys)"
  shows "\<exists>L'. insertBefore L x = Inr L' \<and> list_inv L' \<and> abs_L L' = (xs @ [x], ys)"
proof -
  let ?p = "nat (pos_cursor L)" and ?n = "next_id L"
  note inv = list_inv_facts [OF assms(1)]
  let ?ns = "take ?p (nodes L) @ (?n, x) # drop ?p (nodes L)"
  let ?L' = "L\<lparr>nodes := ?ns, beforeCursor := ?n, num_elements := num_elements L + 1,
      pos_cursor := pos_cursor L + 1, next_id := Suc ?n\<rparr>"
  have ins: "insertBefore L x = Inr ?L'"
    using live_cursor_inv [OF assms(1)] link_before_inv [OF assms(1)] by (simp add: insertBefore_def)
  have c: "chain ?L' = take (Suc ?p) (chain L) @ ?n # drop (Suc ?p) (chain L)"
    using chain_insert [of ?p L ?L' "(?n, x)"] inv(3) by simp
  have "list_inv ?L'"
    using insert_ids [OF assms(1) refl, of ?p x] inv c
    by (simp add: list_inv_def nat_add_distrib nth_insert_at nth_insert_after)
  moreover have "abs_L ?L' = (xs @ [x], ys)"
    using assms(2) inv(2,3) by (auto simp: abs_L_def elems_def nat_add_distrib min_def take_map drop_map)
  ultimately show ?thesis using ins by blast
qed

lemma insertAfter_spec:
  assumes "list_inv L" and "abs_L L = (xs, ys)"
  shows "\<exists>L'. insertAfter L x = Inr L' \<and> list_inv L' \<and> abs_L L' = (xs, x # ys)"
proof -
  let ?p = "nat (pos_cursor L)" and ?n = "next_id L"
  note inv = list_inv_facts [OF assms(1)]
  let ?ns = "take ?p (nodes L) @ (?n, x) # drop ?p (nodes L)"
  let ?L' = "L\<lparr>nodes := ?ns, afterCursor := ?n, num_elements := num_elements L + 1, next_id := Suc ?n\<rparr>"
  have ins: "insertAfter L x = Inr ?L'"
    using live_cursor_inv [OF assms(1)] link_before_inv [OF assms(1)] by (simp add: insertAfter_def)
  have c: "chain ?L' = take (Suc ?p) (chain L) @ ?n # drop (Suc ?p) (chain L)"
    using chain_insert [of ?p L ?L' "(?n, x)"] inv(3) by simp
  have "list_inv ?L'"
    using insert_ids [OF assms(1) refl, of ?p x] inv c
    by (simp add: list_inv_def nth_insert_at nth_append min_def)
  moreover have "abs_L ?L' = (xs, x # ys)"
    using assms(2) inv(2,3) by (auto simp: abs_L_def elems_def min_def take_map drop_map)
  ultimately show ?thesis using ins by blast
qed

lemma abs_L_before:
  assumes "list_inv L" and "abs_L L = (xs @ [y], ys)"
  shows "0 < nat (pos_cursor L)" "nat (pos_cursor L) \<le> length (nodes L)"
    "elems L ! (nat (pos_cursor L) - 1) = y"
    "take (nat (pos_cursor L) - 1) (elems L) = xs" "drop (nat (pos_cursor L) - 1) (elems L) = y # ys"
proof -
  let ?p = "nat (pos_cursor L)"
  have t: "take ?p (elems L) = xs @ [y]" and d: "drop ?p (elems L) = ys" using assms by (auto simp: abs_L_def)
  have len: "length (take ?p (elems L)) = Suc (length xs)" using t by simp
  then show p0: "0 < ?p" by auto
  show pl: "?p \<le> length (nodes L)" using list_inv_facts(3) [OF assms(1)] .
  have "take ?p (elems L) = take (?p - 1) (elems L) @ [elems L ! (?p - 1)]"
    using p0 pl by (metis Suc_diff_1 Suc_le_lessD length_elems take_Suc_conv_app_nth)
  with t show y: "elems L ! (?p - 1) = y" and "take (?p - 1) (elems L) = xs" by auto
  show "drop (?p - 1) (elems L) = y # ys"
    using p0 pl y d by (metis Cons_nth_drop_Suc Suc_diff_1 Suc_le_lessD length_elems)
qed

lemma movePrev_spec:
  assumes "list_inv L" and "abs_L L = (xs @ [y], ys)"
  shows "\<exists>L'. movePrev L = Inr (y, L') \<and> list_inv L' \<and> abs_L L' = (xs, y # ys) \<and> elems L' = elems L"
proof -
  let ?p = "nat (pos_cursor L)"
  note a = abs_L_before [OF assms] and inv = list_inv_facts [OF assms(1)]
  have p: "?p = Suc (?p - 1)" using a(1) by simp
  have n1: "prev_ptr L (afterCursor L) = Inr (chain L ! ?p)"
    using prev_ptr_nth [OF assms(1), of ?p] inv(6) a(2) by simp
  have n2: "prev_ptr L (beforeCursor L) = Inr (chain L ! (?p - 1))"
    using prev_ptr_nth [OF assms(1), of "?p - 1"] inv(5) a(2) p by simp
  have dt: "data_at L (chain L ! ?p) = Inr y"
    using data_at_nth [OF assms(1), of "?p - 1"] a(1,2,3) p by simp
  let ?L' = "L\<lparr>afterCursor := chain L ! ?p, beforeCursor := chain L ! (?p - 1),
              pos_cursor := pos_cursor L - 1\<rparr>"
  have "movePrev L = Inr (y, ?L')" using a(1) n1 n2 dt by (simp add: movePrev_def)
  moreover have "nat (pos_cursor L - 1) = ?p - 1" using inv by simp
  ultimately show ?thesis using assms(1) a inv p
    by (auto simp: list_inv_def abs_L_def chain_def elems_def)
qed

lemma unlink_nth:
  assumes "distinct (map fst ns)" and "i < length ns"
  shows "unlink (fst (ns ! i)) ns = take i ns @ drop (Suc i) ns"
proof -
  have ns: "ns = take i ns @ ns ! i # drop (Suc i) ns" using assms(2) id_take_nth_drop by blast
  have "distinct (map fst (take i ns @ ns ! i # drop (Suc i) ns))" using assms(1) ns by metis
  then have "fst (ns ! i) \<notin> fst ` set (take i ns)" "fst (ns ! i) \<notin> fst ` set (drop (Suc i) ns)"
    by simp_all
  then have "\<forall>q \<in> set (take i ns). fst q \<noteq> fst (ns ! i)" "\<forall>q \<in> set (drop (Suc i) ns). fst q \<noteq> fst (ns ! i)"
    by (metis image_eqI)+
  then show ?thesis by (subst ns) (simp add: unlink_def)
qed

lemma chain_remove:
  "i < length (nodes L) \<Longrightarrow> nodes L' = take i (nodes L) @ drop (Suc i) (nodes L) \<Longrightarrow>
   chain L' = take (Suc i) (chain L) @ drop (Suc (Suc i)) (chain L)"
  by (simp add: chain_def take_map drop_map)

lemma set_remove_at: "set (take i zs @ drop (Suc i) zs) \<subseteq> set zs"
  by (auto dest: in_set_takeD in_set_dropD)

lemma distinct_remove_at: "distinct zs \<Longrightarrow> distinct (take i zs @ drop (Suc i) zs)"
proof (cases "i < length zs")
  case True
  assume d: "distinct zs"
  have "distinct (take i zs @ zs ! i # drop (Suc i) zs)" using d id_take_nth_drop [OF True] by metis
  then show ?thesis unfolding distinct_mid by simp
qed simp

lemma remove_ids:
  assumes "list_inv L"
  shows "distinct (map fst (take i (nodes L) @ drop (Suc i) (nodes L))) \<and>
     (\<forall>j \<in> set (map fst (take i (nodes L) @ drop (Suc i) (nodes L))). 2 \<le> j \<and> j < next_id L)"
proof -
  have m: "map fst (take i (nodes L) @ drop (Suc i) (nodes L)) = take i (map fst (nodes L)) @ drop (Suc i) (map fst (nodes L))"
    by (simp add: take_map drop_map)
  show ?thesis unfolding m
    using assms distinct_remove_at [of "map fst (nodes L)" i] set_remove_at [of i "map fst (nodes L)"]
    by (auto simp: list_inv_def)
qed

lemma eraseAfter_spec:
  assumes "list_inv L" and "abs_L L = (xs, y # ys)"
  shows "\<exists>L'. eraseAfter L = Inr L' \<and> list_inv L' \<and> abs_L L' = (xs, ys)"
proof -
  let ?p = "nat (pos_cursor L)"
  note a = abs_L_after [OF assms(2)] and inv = list_inv_facts [OF assms(1)]
  have d: "distinct (map fst (nodes L))" using assms(1) by (simp add: list_inv_def)
  have aft: "afterCursor L = fst (nodes L ! ?p)" using inv(6) a(1) by (simp add: chain_nth_Suc)
  have n1: "next_ptr L (afterCursor L) = Inr (chain L ! Suc (Suc ?p))"
    using next_ptr_nth [OF assms(1), of "Suc ?p"] inv(6) a(1) by simp
  let ?ns = "take ?p (nodes L) @ drop (Suc ?p) (nodes L)"
  let ?L' = "L\<lparr>nodes := ?ns, afterCursor := chain L ! Suc (Suc ?p), num_elements := num_elements L - 1\<rparr>"
  have lt: "pos_cursor L < num_elements L" using a(1) inv by linarith
  have "eraseAfter L = Inr ?L'"
    using lt live_cursor_inv [OF assms(1)] n1 unlink_nth [OF d a(1)] aft by (simp add: eraseAfter_def)
  moreover have c: "chain ?L' = take (Suc ?p) (chain L) @ drop (Suc (Suc ?p)) (chain L)"
    using chain_remove [of ?p L ?L'] a(1) by simp
  moreover have "list_inv ?L'"
    using remove_ids [OF assms(1), of ?p] inv a(1) c by (simp add: list_inv_def nth_append min_def)
  moreover have "abs_L ?L' = (xs, ys)"
  proof -
    have t: "take ?p (elems L) = xs" using assms(2) by (simp add: abs_L_def)
    then have "elems ?L' = xs @ ys" using a(4) by (simp add: elems_def take_map drop_map)
    moreover have "length xs = ?p" using arg_cong [OF t, of length] a(1) by simp
    ultimately show ?thesis by (simp add: abs_L_def)
  qed
  ultimately show ?thesis by blast
qed

lemma list_inv_remove:
  assumes "list_inv L" and "k < length (nodes L)"
    and "nodes L' = take k (nodes L) @ drop (Suc k) (nodes L)" and "next_id L' = next_id L"
    and "num_elements L' = num_elements L - 1" and "0 \<le> pos_cursor L'" and "nat (pos_cursor L') = k"
    and "beforeCursor L' = chain L ! k" and "afterCursor L' = chain L ! Suc (Suc k)"
  shows "list_inv L'"
proof -
  have c: "chain L' = take (Suc k) (chain L) @ drop (Suc (Suc k)) (chain L)"
    using chain_remove [OF assms(2,3)] .
  have "chain L' ! k = chain L ! k" "chain L' ! Suc k = chain L ! Suc (Suc k)"
    unfolding c using assms(2) by (simp_all add: nth_append min_def)
  moreover have "num_elements L = int (length (nodes L))" "2 \<le> next_id L"
    using assms(1) by (simp_all add: list_inv_def)
  ultimately show ?thesis
    using remove_ids [OF assms(1), of k] assms(2-9) by (simp add: list_inv_def)
qed

lemma eraseBefore_spec:
  assumes "list_inv L" and "abs_L L = (xs @ [y], ys)"
  shows "\<exists>L'. eraseBefore L = Inr L' \<and> list_inv L' \<and> abs_L L' = (xs, ys)"
proof -
  let ?p = "nat (pos_cursor L)"
  let ?q = "?p - 1"
  note a = abs_L_before [OF assms] and inv = list_inv_facts [OF assms(1)]
  have p: "Suc ?q = ?p" using a(1) by simp
  have q: "?q < length (nodes L)" using a(1,2) by simp
  have d: "distinct (map fst (nodes L))" using assms(1) by (simp add: list_inv_def)
  have bef: "beforeCursor L = chain L ! Suc ?q" using inv(5) p by simp
  then have bef': "beforeCursor L = fst (nodes L ! ?q)" using q by (simp add: chain_nth_Suc)
  have n1: "prev_ptr L (beforeCursor L) = Inr (chain L ! ?q)"
    unfolding bef using prev_ptr_nth [OF assms(1), of ?q] q by simp
  let ?L' = "L\<lparr>nodes := take ?q (nodes L) @ drop (Suc ?q) (nodes L), beforeCursor := chain L ! ?q,
     pos_cursor := pos_cursor L - 1, num_elements := num_elements L - 1\<rparr>"
  have "eraseBefore L = Inr ?L'"
    using a(1) live_cursor_inv [OF assms(1)] n1 unlink_nth [OF d q] bef' by (simp add: eraseBefore_def)
  moreover have "list_inv ?L'"
  proof (rule list_inv_remove [OF assms(1) q])
    show "nat (pos_cursor ?L') = ?q" and "0 \<le> pos_cursor ?L'" using a(1) inv(2) by simp_all
    show "afterCursor ?L' = chain L ! Suc (Suc ?q)" using inv(6) p by simp
  qed simp_all
  moreover have "abs_L ?L' = (xs, ys)"
  proof -
    have "drop (Suc ?q) (elems L) = ys" using a(5) by (metis list.sel(3) tl_drop drop_Suc)
    then have "elems ?L' = xs @ ys" using a(4) by (simp add: elems_def take_map drop_map)
    moreover have "length xs = ?q" using arg_cong [OF a(4), of length] q by simp
    ultimately show ?thesis using inv(2) by (simp add: abs_L_def)
  qed
  ultimately show ?thesis by blast
qed

lemma set_data_spec:
  assumes "list_inv L" and "i < length (nodes L)"
  shows "set_data L (chain L ! Suc i) x = Inr (L\<lparr>nodes := (nodes L)[i := (fst (nodes L ! i), x)]\<rparr>)"
proof -
  have d: "distinct (map fst (nodes L))" using assms(1) by (simp add: list_inv_def)
  have "map (\<lambda>p. if fst p = fst (nodes L ! i) then (fst (nodes L ! i), x) else p) (nodes L) =
        (nodes L)[i := (fst (nodes L ! i), x)]"
    using d assms(2) by (auto simp: list_eq_iff_nth_eq nth_list_update)
      (metis d distinct_conv_nth length_map nth_map)
  moreover have "chain L ! Suc i \<in> set (chain L)" using assms(2) by (intro nth_mem) simp
  ultimately show ?thesis using assms(2) by (simp add: set_data_def chain_nth_Suc)
qed

lemma ids_update_data: "map fst ((nodes L)[i := (fst (nodes L ! i), x)]) = map fst (nodes L)"
  by (metis (no_types, lifting) fst_conv list_update_beyond list_update_id map_update not_le nth_map)

lemma elems_update_data: "elems (L\<lparr>nodes := (nodes L)[i := (a, x)]\<rparr>) = (elems L)[i := x]"
  by (simp add: elems_def map_update)

lemma list_inv_update_data:
  "list_inv L \<Longrightarrow> list_inv (L\<lparr>nodes := (nodes L)[i := (fst (nodes L ! i), x)]\<rparr>)"
  unfolding list_inv_def chain_def by (simp add: ids_update_data)

lemma setAfter_spec:
  assumes "list_inv L" and "abs_L L = (xs, y # ys)"
  shows "\<exists>L'. setAfter L x = Inr L' \<and> list_inv L' \<and> abs_L L' = (xs, x # ys)"
proof -
  let ?p = "nat (pos_cursor L)"
  note a = abs_L_after [OF assms(2)] and inv = list_inv_facts [OF assms(1)]
  have lt: "pos_cursor L < num_elements L" using a(1) inv by linarith
  have "setAfter L x = Inr (L\<lparr>nodes := (nodes L)[?p := (fst (nodes L ! ?p), x)]\<rparr>)"
    using lt set_data_spec [OF assms(1) a(1)] inv(6) by (simp add: setAfter_def)
  moreover have "abs_L (L\<lparr>nodes := (nodes L)[?p := (fst (nodes L ! ?p), x)]\<rparr>) = (xs, x # ys)"
  proof -
    have t: "take ?p (elems L) = xs" using assms(2) by (simp add: abs_L_def)
    have "elems (L\<lparr>nodes := (nodes L)[?p := (fst (nodes L ! ?p), x)]\<rparr>) =
        take ?p (elems L) @ x # drop (Suc ?p) (elems L)"
      unfolding elems_update_data using a(1) by (simp add: upd_conv_take_nth_drop)
    moreover have "length xs = ?p" using arg_cong [OF t, of length] a(1) by simp
    ultimately show ?thesis using t a(4) by (simp add: abs_L_def)
  qed
  ultimately show ?thesis using list_inv_update_data [OF assms(1)] by auto
qed

lemma setBefore_spec:
  assumes "list_inv L" and "abs_L L = (xs @ [y], ys)"
  shows "\<exists>L'. setBefore L x = Inr L' \<and> list_inv L' \<and> abs_L L' = (xs @ [x], ys)"
proof -
  let ?p = "nat (pos_cursor L)"
  let ?q = "?p - 1"
  note a = abs_L_before [OF assms] and inv = list_inv_facts [OF assms(1)]
  have p: "Suc ?q = ?p" using a(1) by simp
  have q: "?q < length (nodes L)" using a(1,2) by simp
  have "setBefore L x = Inr (L\<lparr>nodes := (nodes L)[?q := (fst (nodes L ! ?q), x)]\<rparr>)"
    using a(1) set_data_spec [OF assms(1) q] inv(5) p by (simp add: setBefore_def)
  moreover have "abs_L (L\<lparr>nodes := (nodes L)[?q := (fst (nodes L ! ?q), x)]\<rparr>) = (xs @ [x], ys)"
  proof -
    have "elems (L\<lparr>nodes := (nodes L)[?q := (fst (nodes L ! ?q), x)]\<rparr>) =
        take ?q (elems L) @ x # drop (Suc ?q) (elems L)"
      unfolding elems_update_data using q by (simp add: upd_conv_take_nth_drop)
    moreover have "drop (Suc ?q) (elems L) = ys" using a(5) by (metis list.sel(3) tl_drop drop_Suc)
    moreover have "length xs = ?q" using arg_cong [OF a(4), of length] q by simp
    ultimately show ?thesis using a(4) p by (simp add: abs_L_def)
  qed
  ultimately show ?thesis using list_inv_update_data [OF assms(1)] by auto
qed

lemma moveFront_spec:
  assumes "list_inv L"
  shows "list_inv (moveFront L) \<and> abs_L (moveFront L) = ([], elems L)"
proof -
  have "first_id L = chain L ! Suc 0"
    by (cases "nodes L") (simp_all add: first_id_def chain_def)
  then show ?thesis using assms by (simp add: moveFront_def list_inv_def abs_L_def)
qed

lemma moveBack_spec:
  assumes "list_inv L"
  shows "list_inv (moveBack L) \<and> abs_L (moveBack L) = (elems L, [])"
proof -
  have "last_id L = chain L ! length (nodes L)"
    by (simp add: last_id_def chain_def nth_append last_conv_nth)
  moreover have "chain L ! Suc (length (nodes L)) = backDummy" by (simp add: chain_def nth_append)
  ultimately show ?thesis using assms by (simp add: moveBack_def list_inv_def abs_L_def)
qed

lemma abs_L_back_Nil:
  assumes "list_inv L"
  shows "snd (abs_L L) = [] \<longleftrightarrow> \<not> pos_cursor L < num_elements L"
  using list_inv_facts [OF assms] by (auto simp: abs_L_def)

lemma abs_L_front_Nil:
  assumes "list_inv L"
  shows "fst (abs_L L) = [] \<longleftrightarrow> \<not> 0 < pos_cursor L"
  using list_inv_facts [OF assms] by (auto simp: abs_L_def elems_def)

lemma peekNext_spec:
  assumes "list_inv L"
  shows "peekNext L = (case snd (abs_L L) of
     [] \<Rightarrow> Inl (Runtime_error ''List: peekNext(): cursor is at the back\<newline>'') | y # _ \<Rightarrow> Inr y)"
proof (cases "snd (abs_L L)")
  case Nil
  then show ?thesis using abs_L_back_Nil [OF assms] by (simp add: peekNext_def)
next
  case (Cons y ys)
  then have ab: "abs_L L = (fst (abs_L L), y # ys)" by (metis prod.collapse)
  note a = abs_L_after [OF ab] and inv = list_inv_facts [OF assms]
  have "pos_cursor L < num_elements L" using a(1) inv by linarith
  then show ?thesis using Cons data_at_nth [OF assms a(1)] a(2) inv(6) by (simp add: peekNext_def)
qed

lemma peekPrev_spec:
  assumes "list_inv L"
  shows "peekPrev L = (case rev (fst (abs_L L)) of
     [] \<Rightarrow> Inl (Runtime_error ''List: peekPrev(): cursor is at the front\<newline>'') | y # _ \<Rightarrow> Inr y)"
proof (cases "fst (abs_L L)" rule: rev_cases)
  case Nil
  then show ?thesis using abs_L_front_Nil [OF assms] by (simp add: peekPrev_def)
next
  case (snoc xs y)
  then have ab: "abs_L L = (xs @ [y], snd (abs_L L))" by (metis prod.collapse)
  note a = abs_L_before [OF assms ab] and inv = list_inv_facts [OF assms]
  have p: "Suc (nat (pos_cursor L) - 1) = nat (pos_cursor L)" using a(1) by simp
  have "data_at L (beforeCursor L) = Inr y"
    using data_at_nth [OF assms, of "nat (pos_cursor L) - 1"] a(1,2,3) inv(5) p by simp
  then show ?thesis using snoc a(1) by (simp add: peekPrev_def)
qed

end
