(* ===== verification/Cursor_List_Loops.thy ===== *)
theory Cursor_List_Loops
  imports Cursor_List_Ops
begin

text \<open>
  Lemmas on the loops of \<open>src/pa6/List.cpp\<close>: \<open>findNext_L\<close>, \<open>clear_L\<close>, the copy
  constructor, \<open>concat\<close>, \<open>to_string_L\<close>, \<open>equals_L\<close> and the two nested loops of
  \<open>cleanup\<close>, each shown to return (the functions are total) with the result the
  specification names.
\<close>

lemma data_at_before:
  assumes "list_inv L" and "abs_L L = (xs @ [y], ys)"
  shows "data_at L (beforeCursor L) = Inr y"
proof -
  note a = abs_L_before [OF assms] and inv = list_inv_facts [OF assms(1)]
  have p: "Suc (nat (pos_cursor L) - 1) = nat (pos_cursor L)" using a(1) by simp
  show ?thesis using data_at_nth [OF assms(1), of "nat (pos_cursor L) - 1"] a(1,2,3) inv(5) p by simp
qed

lemma pos_abs_L: "list_inv L \<Longrightarrow> abs_L L = (xs, ys) \<Longrightarrow> pos_cursor L = int (length xs)"
  using abs_L_split(2) list_inv_facts(2) by fastforce

lemma findNext_spec:
  assumes "list_inv L" and "abs_L L = (xs, ys)"
  shows "if x \<in> set ys then
      \<exists>us vs L'. ys = us @ x # vs \<and> x \<notin> set us \<and> findNext_L L x = Inr (int (length xs + length us + 1), L') \<and>
        list_inv L' \<and> abs_L L' = (xs @ us @ [x], vs)
    else \<exists>L'. findNext_L L x = Inr (-1, L') \<and> list_inv L' \<and> abs_L L' = (xs @ ys, [])"
  using assms
proof (induction ys arbitrary: xs L)
  case Nil
  then have "\<not> pos_cursor L < num_elements L" using abs_L_back_Nil [OF Nil.prems(1)] by simp
  then have "findNext_L L x = Inr (-1, moveBack L)" by (subst findNext_L.simps) simp
  moreover have "elems L = xs" using abs_L_split(1) [OF Nil.prems(2)] by simp
  ultimately show ?case using moveBack_spec [OF Nil.prems(1)] by simp
next
  case (Cons y ys)
  obtain L1 where L1: "moveNext L = Inr (y, L1)" "list_inv L1" "abs_L L1 = (xs @ [y], ys)"
    using moveNext_spec [OF Cons.prems] by blast
  have lt: "pos_cursor L < num_elements L" using abs_L_back_Nil [OF Cons.prems(1)] Cons.prems(2) by simp
  have d: "data_at L1 (beforeCursor L1) = Inr y" using data_at_before [OF L1(2,3)] .
  have p1: "pos_cursor L1 = int (length xs + 1)" using pos_abs_L [OF L1(2,3)] by simp
  have f: "findNext_L L x = (if y = x then Inr (pos_cursor L1, L1) else findNext_L L1 x)"
    by (subst findNext_L.simps) (simp add: lt L1(1) d)
  show ?case
  proof (cases "y = x")
    case True
    then show ?thesis using f p1 L1 by (auto intro!: exI [of _ "[]"])
  next
    case False
    note IH = Cons.IH [OF L1(2,3)]
    show ?thesis
    proof (cases "x \<in> set ys")
      case True
      with IH obtain us vs L' where "ys = us @ x # vs" "x \<notin> set us"
        "findNext_L L1 x = Inr (int (length (xs @ [y]) + length us + 1), L')" "list_inv L'"
        "abs_L L' = (xs @ [y] @ us @ [x], vs)" by auto
      then show ?thesis using f False True
        by (auto intro!: exI [of _ "y # us"] exI [of _ vs] exI [of _ L'])
    next
      case False
      with IH f \<open>y \<noteq> x\<close> show ?thesis by auto
    qed
  qed
qed

lemma first_id_back: "list_inv L \<Longrightarrow> first_id L = backDummy \<longleftrightarrow> nodes L = []"
  by (cases "nodes L") (auto simp: first_id_def list_inv_def backDummy_def)

lemma clear_loop_spec: "list_inv L \<Longrightarrow> \<exists>L'. clear_loop L = Inr L' \<and> list_inv L' \<and> abs_L L' = ([], [])"
proof (induction L rule: clear_loop.induct)
  case (1 L)
  note mf = moveFront_spec [OF "1.prems"]
  show ?case
  proof (cases "nodes L = []")
    case True
    then have "clear_loop L = Inr (moveFront L)"
      using first_id_back [OF "1.prems"] by (subst clear_loop.simps) (simp add: moveFront_def first_id_def)
    then show ?thesis using mf True by (simp add: elems_def)
  next
    case False
    then obtain y ys where e: "elems L = y # ys" by (cases "nodes L") (auto simp: elems_def)
    obtain L1 where L1: "eraseAfter (moveFront L) = Inr L1" "list_inv L1" "abs_L L1 = ([], ys)"
      using eraseAfter_spec [of "moveFront L" "[]" y ys] mf e by auto
    have fm: "first_id (moveFront L) \<noteq> backDummy"
      using False first_id_back [OF "1.prems"] by (simp add: moveFront_def first_id_def)
    have "clear_loop L = clear_loop L1"
      by (subst clear_loop.simps) (simp add: Let_def fm L1(1))
    then show ?thesis using "1.IH" [OF refl fm L1(1) L1(2)] by simp
  qed
qed

lemma clear_spec: "list_inv L \<Longrightarrow> \<exists>L'. clear_L L = Inr L' \<and> list_inv L' \<and> abs_L L' = ([], [])"
  using clear_loop_spec [of L]
  by (auto simp: clear_L_def list_inv_def abs_L_def elems_def chain_def)

lemma insert_all_spec:
  "list_inv L \<Longrightarrow> abs_L L = (xs, ys) \<Longrightarrow>
   \<exists>L'. insert_all zs L = Inr L' \<and> list_inv L' \<and> abs_L L' = (xs @ zs, ys)"
proof (induction zs arbitrary: L xs)
  case Nil
  then show ?case by simp
next
  case (Cons z zs)
  obtain L1 where "insertBefore L z = Inr L1" "list_inv L1" "abs_L L1 = (xs @ [z], ys)"
    using insertBefore_spec [OF Cons.prems] by blast
  with Cons.IH [of L1 "xs @ [z]"] show ?case by auto
qed

lemma List_empty_spec: "list_inv List_empty \<and> abs_L List_empty = ([], [])"
  by (simp add: List_empty_def list_inv_def abs_L_def elems_def chain_def)

lemma List_copy_spec:
  "\<exists>L'. List_copy L = Inr L' \<and> list_inv L' \<and> abs_L L' = (elems L, [])"
  using insert_all_spec [of List_empty "[]" "[]" "elems L"] List_empty_spec
  by (simp add: List_copy_def elems_def)

lemma elems_abs_L: "abs_L L = (xs, ys) \<Longrightarrow> elems L = xs @ ys"
  by (rule abs_L_split(1))

text \<open>C25: \<open>concat(L)\<close> returns a valid list holding the elements of this list followed by
  those of \<open>L\<close>, with the cursor at the front.\<close>

lemma concat_spec:
  "\<exists>R. concat_L T L = Inr R \<and> list_inv R \<and> abs_L R = ([], elems T @ elems L)"
proof -
  obtain C where C: "List_copy T = Inr C" "list_inv C" "abs_L C = (elems T, [])"
    using List_copy_spec by blast
  obtain C' where C': "insert_all (map snd (nodes L)) C = Inr C'" "list_inv C'"
    "abs_L C' = (elems T @ elems L, [])"
    using insert_all_spec [OF C(2,3), of "elems L"] by (auto simp: elems_def)
  show ?thesis using C C' moveFront_spec [OF C'(2)] elems_abs_L [OF C'(3)] by (simp add: concat_L_def)
qed

lemma to_string_loop_concat:
  "to_string_loop False xs s = s @ concat (map (\<lambda>x. '', '' @ string_of_int x) xs)"
  by (induction xs arbitrary: s) simp_all

lemma commas_Cons: "commas (x # xs) = string_of_int x @ concat (map (\<lambda>x. '', '' @ string_of_int x) xs)"
  by (induction xs arbitrary: x) simp_all

text \<open>C24: \<open>to_string()\<close> is the elements in order, separated by \<open>", "\<close> and enclosed in
  parentheses.\<close>

lemma to_string_spec: "to_string_L L = ''('' @ commas (elems L) @ '')''"
  by (cases "elems L") (simp_all add: to_string_L_def elems_def [symmetric] to_string_loop_concat commas_Cons)

lemma equals_loop_eq: "length xs = length ys \<Longrightarrow> equals_loop xs ys \<longleftrightarrow> xs = ys"
  by (induction xs ys rule: equals_loop.induct) auto

text \<open>C23: \<open>equals(R)\<close> of two valid lists holds exactly when they hold the same sequence
  of elements, whatever their cursors.\<close>

lemma equals_spec: "list_inv L \<Longrightarrow> list_inv R \<Longrightarrow> equals_L L R \<longleftrightarrow> elems L = elems R"
  using equals_loop_eq [of "elems L" "elems R"]
  by (auto simp: equals_L_def list_inv_def elems_def dest: arg_cong [of _ _ length])

lemma map_snd_dedup_nodes: "map snd (dedup_nodes qs) = dedup (map snd qs)"
  by (induction qs rule: dedup_nodes.induct) (simp_all add: filter_map comp_def)

lemma cleanup_inner_spec:
  assumes "distinct (map fst (nodes L))" and "\<forall>i \<in> set (map fst (nodes L)). 2 \<le> i"
    and "map_of (nodes L) cur = Some dc" and "set ms \<subseteq> set (map fst (nodes L))" and "cur \<notin> set ms"
    and "distinct ms"
  shows "\<exists>L'. cleanup_inner cur ms L = Inr L' \<and>
    nodes L' = filter (\<lambda>p. fst p \<notin> set ms \<or> snd p \<noteq> dc) (nodes L) \<and>
    num_elements L' - int (length (nodes L')) = num_elements L - int (length (nodes L))"
  using assms
proof (induction ms arbitrary: L)
  case Nil
  then show ?case by simp
next
  case (Cons my ms)
  have c2: "cur \<ge> 2" using Cons.prems(2,3) by (force dest: map_of_SomeD)
  have dc: "data_at L cur = Inr dc" using Cons.prems(3) c2 by (simp add: data_at_def frontDummy_def backDummy_def)
  have myin: "my \<in> set (map fst (nodes L))" using Cons.prems(4) by simp
  then have "map_of (nodes L) my \<noteq> None" by (simp add: map_of_eq_None_iff)
  then obtain dm where dm: "map_of (nodes L) my = Some dm" by blast
  have m2: "my \<ge> 2" using Cons.prems(2) myin by auto
  have dmd: "data_at L my = Inr dm" using dm m2 by (simp add: data_at_def frontDummy_def backDummy_def)
  have node_my: "snd p = dm" if "p \<in> set (nodes L)" "fst p = my" for p
    using map_of_is_SomeI [OF Cons.prems(1), of "fst p" "snd p"] that dm by (cases p) auto
  show ?case
  proof (cases "dc = dm")
    case True
    let ?L1 = "L\<lparr>nodes := unlink my (nodes L),
      pos_cursor := (if num_elements L - 1 \<le> pos_cursor L \<or> my = afterCursor L then pos_cursor L - 1 else pos_cursor L),
      num_elements := num_elements L - 1\<rparr>"
    have len: "length (unlink my (nodes L)) = length (nodes L) - 1"
    proof -
      obtain i where "i < length (map fst (nodes L))" "map fst (nodes L) ! i = my"
        using myin by (meson in_set_conv_nth)
      then have i: "i < length (nodes L)" "fst (nodes L ! i) = my" by simp_all
      show ?thesis using unlink_nth [OF Cons.prems(1) i(1)] i by simp
    qed
    have step: "cleanup_inner cur (my # ms) L = cleanup_inner cur ms ?L1"
      using dc dmd True by simp
    have d1: "distinct (map fst (nodes ?L1))" using Cons.prems(1) by (simp add: unlink_def distinct_map_filter)
    have r1: "\<forall>i \<in> set (map fst (nodes ?L1)). 2 \<le> i" using Cons.prems(2) by (auto simp: unlink_def)
    have m1: "map_of (nodes ?L1) cur = Some dc" using Cons.prems(3,5) by (simp add: unlink_def map_of_filter_key)
    have s1: "set ms \<subseteq> set (map fst (nodes ?L1))" using Cons.prems(4,6) by (force simp: unlink_def)
    obtain L' where L': "cleanup_inner cur ms ?L1 = Inr L'"
      "nodes L' = filter (\<lambda>p. fst p \<notin> set ms \<or> snd p \<noteq> dc) (nodes ?L1)"
      "num_elements L' - int (length (nodes L')) = num_elements ?L1 - int (length (nodes ?L1))"
      using Cons.IH [OF d1 r1 m1 s1] Cons.prems(5,6) by auto
    have "filter (\<lambda>p. fst p \<notin> set ms \<or> snd p \<noteq> dc) (unlink my (nodes L)) =
        filter (\<lambda>p. fst p \<notin> set (my # ms) \<or> snd p \<noteq> dc) (nodes L)"
      using node_my True by (auto simp: unlink_def intro!: filter_cong)
    moreover have "length (nodes L) \<ge> 1" using myin by (cases "nodes L") auto
    ultimately show ?thesis using step L' len by simp
  next
    case False
    have "set ms \<subseteq> set (map fst (nodes L))" "cur \<notin> set ms" "distinct ms" using Cons.prems(4-6) by auto
    from Cons.IH [OF Cons.prems(1-3) this]
    obtain L' where "cleanup_inner cur ms L = Inr L'"
      "nodes L' = filter (\<lambda>p. fst p \<notin> set ms \<or> snd p \<noteq> dc) (nodes L)"
      "num_elements L' - int (length (nodes L')) = num_elements L - int (length (nodes L))"
      by blast
    moreover have "filter (\<lambda>p. fst p \<notin> set ms \<or> snd p \<noteq> dc) (nodes L) =
        filter (\<lambda>p. fst p \<notin> set (my # ms) \<or> snd p \<noteq> dc) (nodes L)"
      using node_my False by (auto intro!: filter_cong)
    ultimately show ?thesis using False dc dmd by simp
  qed
qed

lemma cleanup_outer_spec:
  assumes "distinct (map fst (nodes L))" and "\<forall>i \<in> set (map fst (nodes L)). 2 \<le> i"
    and "nodes L = ps @ qs"
  shows "\<exists>L'. cleanup_outer (map fst qs) L = Inr L' \<and> nodes L' = ps @ dedup_nodes qs \<and>
    num_elements L' - int (length (nodes L')) = num_elements L - int (length (nodes L))"
  using assms
proof (induction "length qs" arbitrary: L ps qs rule: less_induct)
  case less
  show ?case
  proof (cases qs)
    case Nil
    then show ?thesis using less.prems by simp
  next
    case (Cons q qs')
    obtain cur dc where q: "q = (cur, dc)" by fastforce
    let ?ms = "map fst qs'"
    have d: "distinct (map fst ps @ cur # ?ms)" using less.prems(1,3) Cons q by simp
    have m: "map_of (nodes L) cur = Some dc"
      using map_of_is_SomeI [OF less.prems(1), of cur dc] less.prems(3) Cons q by simp
    have sub: "set ?ms \<subseteq> set (map fst (nodes L))" using less.prems(3) Cons by auto
    have nc: "cur \<notin> set ?ms" and dms: "distinct ?ms" using d by auto
    from cleanup_inner_spec [OF less.prems(1,2) m sub nc dms]
    obtain L1 where L1: "cleanup_inner cur ?ms L = Inr L1"
      "nodes L1 = filter (\<lambda>p. fst p \<notin> set ?ms \<or> snd p \<noteq> dc) (nodes L)"
      "num_elements L1 - int (length (nodes L1)) = num_elements L - int (length (nodes L))"
      by blast
    let ?qs'' = "filter (\<lambda>p. snd p \<noteq> dc) qs'"
    have n1: "nodes L1 = (ps @ [(cur, dc)]) @ ?qs''"
    proof -
      have "filter (\<lambda>p. fst p \<notin> set ?ms \<or> snd p \<noteq> dc) ps = ps" using d by (auto simp: filter_id_conv)
      moreover have "filter (\<lambda>p. fst p \<notin> set ?ms \<or> snd p \<noteq> dc) qs' = ?qs''"
        by (rule filter_cong) auto
      ultimately show ?thesis using L1(2) less.prems(3) Cons q d by simp
    qed
    have rs: "filter (\<lambda>i. i \<in> set (map fst (nodes L1))) ?ms = map fst ?qs''"
    proof -
      have "fst p \<in> set (map fst (nodes L1)) \<longleftrightarrow> snd p \<noteq> dc" if "p \<in> set qs'" for p
      proof
        assume "fst p \<in> set (map fst (nodes L1))"
        then obtain p' where p': "p' \<in> set (nodes L1)" "fst p' = fst p" by auto
        have "p' \<in> set (nodes L)" using p'(1) L1(2) by simp
        moreover have "p \<in> set (nodes L)" using that less.prems(3) Cons by simp
        ultimately have "p' = p" using less.prems(1) p'(2) by (meson distinct_map inj_onD)
        then show "snd p \<noteq> dc" using p'(1) that L1(2) by auto
      next
        assume "snd p \<noteq> dc"
        then show "fst p \<in> set (map fst (nodes L1))" using n1 that by auto
      qed
      then show ?thesis by (simp add: filter_map comp_def cong: filter_cong)
    qed
    have d1: "distinct (map fst (nodes L1))" using less.prems(1) L1(2) by (simp add: distinct_map_filter)
    have r1: "\<forall>i \<in> set (map fst (nodes L1)). 2 \<le> i" using less.prems(2) L1(2) by auto
    have "length ?qs'' < length qs" using Cons by (simp add: le_imp_less_Suc)
    from less.hyps [OF this d1 r1 n1]
    obtain L' where L': "cleanup_outer (map fst ?qs'') L1 = Inr L'"
      "nodes L' = (ps @ [(cur, dc)]) @ dedup_nodes ?qs''"
      "num_elements L' - int (length (nodes L')) = num_elements L1 - int (length (nodes L1))" by blast
    have "cleanup_outer (map fst qs) L = cleanup_outer (map fst ?qs'') L1"
      using Cons q L1(1) rs by simp
    then show ?thesis using L' L1(3) Cons q by simp
  qed
qed

text \<open>C21: \<open>cleanup()\<close> on a valid list returns, keeps the frontmost occurrence of every
  element and removes the others, in order, and keeps \<open>length()\<close> equal to the number
  of elements.\<close>

lemma cleanup_elems:
  assumes "list_inv L"
  shows "\<exists>L'. cleanup L = Inr L' \<and> elems L' = dedup (elems L) \<and> num_elements L' = int (length (elems L'))"
proof -
  have "distinct (map fst (nodes L))" "\<forall>i \<in> set (map fst (nodes L)). 2 \<le> i"
    "num_elements L = int (length (nodes L))" using assms by (auto simp: list_inv_def)
  from cleanup_outer_spec [OF this(1,2), of "[]" "nodes L"] this(3)
  show ?thesis by (auto simp: cleanup_def elems_def map_snd_dedup_nodes)
qed

end
