(* ===== verification/Cursor_List_Refine.thy ===== *)
theory Cursor_List_Refine
  imports Cursor_List_Loops
begin

text \<open>
  The contract the comments of \<open>src/pa6/List.cpp\<close> state, as an abstract machine, and
  the simulation that the pointer-level model implements it. The abstract state is the
  pair (elements before the cursor, elements after it); \<open>list_op\<close> names the
  state-changing members of the class, \<open>step_L\<close> runs one of them on a \<open>DList\<close>,
  \<open>abs_step\<close> says what the comments promise, errors included. \<open>cleanup()\<close> is left
  out of \<open>list_op\<close>: it does not keep the cursor where its comment says (see the root
  theory), and its effect on the elements is shown on its own in \<open>Cursor_List_Loops\<close>.
\<close>


section \<open>Operations and the abstract machine\<close>

datatype list_op = MoveFront | MoveBack | MoveNext | MovePrev | InsertAfter int | InsertBefore int
  | SetAfter int | SetBefore int | EraseAfter | EraseBefore | Clear | FindNext int | FindPrev int

fun step_L :: "list_op \<Rightarrow> DList \<Rightarrow> DList result" where
  "step_L MoveFront L = Inr (moveFront L)"
| "step_L MoveBack L = Inr (moveBack L)"
| "step_L MoveNext L = rbind (moveNext L) (\<lambda>(_, L'). Inr L')"
| "step_L MovePrev L = rbind (movePrev L) (\<lambda>(_, L'). Inr L')"
| "step_L (InsertAfter x) L = insertAfter L x"
| "step_L (InsertBefore x) L = insertBefore L x"
| "step_L (SetAfter x) L = setAfter L x"
| "step_L (SetBefore x) L = setBefore L x"
| "step_L EraseAfter L = eraseAfter L"
| "step_L EraseBefore L = eraseBefore L"
| "step_L Clear L = clear_L L"
| "step_L (FindNext x) L = rbind (findNext_L L x) (\<lambda>(_, L'). Inr L')"
| "step_L (FindPrev x) L = rbind (findPrev_L L x) (\<lambda>(_, L'). Inr L')"

fun run_L :: "list_op list \<Rightarrow> DList \<Rightarrow> DList result" where
  "run_L [] L = Inr L"
| "run_L (c # cs) L = rbind (step_L c L) (run_L cs)"

type_synonym cursor_list = "int list \<times> int list"

text \<open>\<open>findNext(x)\<close> and \<open>findPrev(x)\<close> as their comments describe them: the result and
  the cursor after the first occurrence of \<open>x\<close> in the search direction, or \<open>-1\<close> with
  the cursor at the end it ran into.\<close>

definition find_next_abs :: "int \<Rightarrow> cursor_list \<Rightarrow> int \<times> cursor_list" where
  "find_next_abs x s = (case s of (xs, ys) \<Rightarrow>
     if x \<in> set ys then
       (int (length xs + length (takeWhile (\<lambda>y. y \<noteq> x) ys) + 1),
        (xs @ takeWhile (\<lambda>y. y \<noteq> x) ys @ [x], tl (dropWhile (\<lambda>y. y \<noteq> x) ys)))
     else (-1, (xs @ ys, [])))"

definition find_prev_abs :: "int \<Rightarrow> cursor_list \<Rightarrow> int \<times> cursor_list" where
  "find_prev_abs x s = (case s of (xs, ys) \<Rightarrow>
     if x \<in> set xs then
       (int (length (tl (dropWhile (\<lambda>y. y \<noteq> x) (rev xs)))),
        (rev (tl (dropWhile (\<lambda>y. y \<noteq> x) (rev xs))), x # rev (takeWhile (\<lambda>y. y \<noteq> x) (rev xs)) @ ys))
     else (-1, ([], xs @ ys)))"

fun abs_step :: "list_op \<Rightarrow> cursor_list \<Rightarrow> cursor_list result" where
  "abs_step MoveFront (xs, ys) = Inr ([], xs @ ys)"
| "abs_step MoveBack (xs, ys) = Inr (xs @ ys, [])"
| "abs_step MoveNext (xs, ys) = (case ys of
     [] \<Rightarrow> Inl (Runtime_error ''List: moveNext(): cursor is at the back\<newline>'')
   | y # ys' \<Rightarrow> Inr (xs @ [y], ys'))"
| "abs_step MovePrev (xs, ys) = (if xs = []
     then Inl (Runtime_error ''List: movePrev(): cursor is at the front\<newline>'')
     else Inr (butlast xs, last xs # ys))"
| "abs_step (InsertAfter x) (xs, ys) = Inr (xs, x # ys)"
| "abs_step (InsertBefore x) (xs, ys) = Inr (xs @ [x], ys)"
| "abs_step (SetAfter x) (xs, ys) = (case ys of
     [] \<Rightarrow> Inl (Runtime_error ''List: setAfter(): cursor is at the back\<newline>'')
   | _ # ys' \<Rightarrow> Inr (xs, x # ys'))"
| "abs_step (SetBefore x) (xs, ys) = (if xs = []
     then Inl (Runtime_error ''List: setBefore(): cursor is at the front\<newline>'')
     else Inr (butlast xs @ [x], ys))"
| "abs_step EraseAfter (xs, ys) = (case ys of
     [] \<Rightarrow> Inl (Runtime_error ''List: eraseAfter(): cursor is at the back\<newline>'')
   | _ # ys' \<Rightarrow> Inr (xs, ys'))"
| "abs_step EraseBefore (xs, ys) = (if xs = []
     then Inl (Runtime_error ''List: eraseBefore(): cursor is at the front\<newline>'')
     else Inr (butlast xs, ys))"
| "abs_step Clear _ = Inr ([], [])"
| "abs_step (FindNext x) s = Inr (snd (find_next_abs x s))"
| "abs_step (FindPrev x) s = Inr (snd (find_prev_abs x s))"

fun abs_run :: "list_op list \<Rightarrow> cursor_list \<Rightarrow> cursor_list result" where
  "abs_run [] s = Inr s"
| "abs_run (c # cs) s = rbind (abs_step c s) (abs_run cs)"

text \<open>The simulation relation: an error of the code is the same error of the abstract machine, a
  state of the code satisfies \<open>list_inv\<close> and represents the abstract state.\<close>

fun sim_res :: "DList result \<Rightarrow> cursor_list result \<Rightarrow> bool" where
  "sim_res (Inl e) r = (r = Inl e)"
| "sim_res (Inr L) r = (list_inv L \<and> r = Inr (abs_L L))"

section \<open>Lemmas: the searches\<close>

lemma data_at_after:
  assumes "list_inv L" and "abs_L L = (xs, y # ys)"
  shows "data_at L (afterCursor L) = Inr y"
  using peekNext_spec [OF assms(1)] abs_L_back_Nil [OF assms(1)] assms(2)
  by (simp add: peekNext_def split: if_splits)

lemma takeWhile_dropWhile_first:
  "x \<notin> set us \<Longrightarrow>
   takeWhile (\<lambda>y. y \<noteq> x) (us @ x # vs) = us \<and> dropWhile (\<lambda>y. y \<noteq> x) (us @ x # vs) = x # vs"
  by (induction us) auto

lemma findNext_fun:
  assumes "list_inv L"
  shows "\<exists>L'. findNext_L L x = Inr (fst (find_next_abs x (abs_L L)), L') \<and> list_inv L' \<and>
    abs_L L' = snd (find_next_abs x (abs_L L))"
proof -
  obtain xs ys where a: "abs_L L = (xs, ys)" by fastforce
  note s = findNext_spec [OF assms a, of x]
  show ?thesis
  proof (cases "x \<in> set ys")
    case True
    with s obtain us vs L' where "ys = us @ x # vs" "x \<notin> set us"
      "findNext_L L x = Inr (int (length xs + length us + 1), L')" "list_inv L'"
      "abs_L L' = (xs @ us @ [x], vs)" by auto
    moreover note takeWhile_dropWhile_first [OF \<open>x \<notin> set us\<close>, of vs]
    ultimately show ?thesis using a by (simp add: find_next_abs_def)
  next
    case False
    with s a show ?thesis by (simp add: find_next_abs_def)
  qed
qed

lemma findPrev_fun:
  assumes "list_inv L" and "abs_L L = (xs, ys)"
  shows "\<exists>L'. findPrev_L L x = Inr (fst (find_prev_abs x (xs, ys)), L') \<and> list_inv L' \<and>
    abs_L L' = snd (find_prev_abs x (xs, ys))"
  using assms
proof (induction xs arbitrary: ys L rule: rev_induct)
  case Nil
  then have "\<not> 0 < pos_cursor L" using abs_L_front_Nil [OF Nil.prems(1)] by simp
  then have "findPrev_L L x = Inr (-1, moveFront L)" by (subst findPrev_L.simps) simp
  moreover have "elems L = ys" using abs_L_split(1) [OF Nil.prems(2)] by simp
  ultimately show ?case using moveFront_spec [OF Nil.prems(1)] by (simp add: find_prev_abs_def)
next
  case (snoc y xs)
  obtain L1 where L1: "movePrev L = Inr (y, L1)" "list_inv L1" "abs_L L1 = (xs, y # ys)"
    using movePrev_spec [OF snoc.prems] by blast
  have lt: "0 < pos_cursor L" using abs_L_front_Nil [OF snoc.prems(1)] snoc.prems(2) by simp
  have d: "data_at L1 (afterCursor L1) = Inr y" using data_at_after [OF L1(2,3)] .
  have p1: "pos_cursor L1 = int (length xs)" using pos_abs_L [OF L1(2,3)] .
  have f: "findPrev_L L x = (if y = x then Inr (pos_cursor L1, L1) else findPrev_L L1 x)"
    by (subst findPrev_L.simps) (simp add: lt L1(1) d)
  show ?case
  proof (cases "y = x")
    case True
    then show ?thesis using f p1 L1 by (simp add: find_prev_abs_def)
  next
    case False
    then have "find_prev_abs x (xs @ [y], ys) = find_prev_abs x (xs, y # ys)"
      by (simp add: find_prev_abs_def)
    then show ?thesis using f False snoc.IH [OF L1(2,3)] by simp
  qed
qed

section \<open>Lemmas: one step and a run\<close>

lemma sim_res_Inr: "list_inv L' \<Longrightarrow> r = Inr (abs_L L') \<Longrightarrow> sim_res (Inr L') r"
  by simp

lemma step_refine:
  assumes inv: "list_inv L"
  shows "sim_res (step_L c L) (abs_step c (abs_L L))"
proof -
  obtain xs ys where a: "abs_L L = (xs, ys)" by fastforce
  note e = abs_L_split(1) [OF a]
  note at_back = abs_L_back_Nil [OF inv] and at_front = abs_L_front_Nil [OF inv]
  show ?thesis
  proof (cases c)
    case MoveFront
    then show ?thesis using moveFront_spec [OF inv] a e by simp
  next
    case MoveBack
    then show ?thesis using moveBack_spec [OF inv] a e by simp
  next
    case MoveNext
    show ?thesis
    proof (cases ys)
      case Nil
      then show ?thesis using MoveNext a at_back by (simp add: moveNext_def)
    next
      case (Cons y ys')
      then show ?thesis using MoveNext a moveNext_spec [OF inv, of xs y ys'] by auto
    qed
  next
    case MovePrev
    show ?thesis
    proof (cases xs rule: rev_cases)
      case Nil
      then show ?thesis using MovePrev a at_front by (simp add: movePrev_def)
    next
      case (snoc xs' y)
      then show ?thesis using MovePrev a movePrev_spec [OF inv, of xs' y ys] by auto
    qed
  next
    case (InsertAfter x)
    then show ?thesis using a insertAfter_spec [OF inv a, of x] by auto
  next
    case (InsertBefore x)
    then show ?thesis using a insertBefore_spec [OF inv a, of x] by auto
  next
    case (SetAfter x)
    show ?thesis
    proof (cases ys)
      case Nil
      then show ?thesis using SetAfter a at_back by (simp add: setAfter_def)
    next
      case (Cons y ys')
      then show ?thesis using SetAfter a setAfter_spec [OF inv, of xs y ys' x] by auto
    qed
  next
    case (SetBefore x)
    show ?thesis
    proof (cases xs rule: rev_cases)
      case Nil
      then show ?thesis using SetBefore a at_front by (simp add: setBefore_def)
    next
      case (snoc xs' y)
      then show ?thesis using SetBefore a setBefore_spec [OF inv, of xs' y ys x] by auto
    qed
  next
    case EraseAfter
    show ?thesis
    proof (cases ys)
      case Nil
      then show ?thesis using EraseAfter a at_back by (simp add: eraseAfter_def)
    next
      case (Cons y ys')
      then show ?thesis using EraseAfter a eraseAfter_spec [OF inv, of xs y ys'] by auto
    qed
  next
    case EraseBefore
    show ?thesis
    proof (cases xs rule: rev_cases)
      case Nil
      then show ?thesis using EraseBefore a at_front by (simp add: eraseBefore_def)
    next
      case (snoc xs' y)
      then show ?thesis using EraseBefore a eraseBefore_spec [OF inv, of xs' y ys] by auto
    qed
  next
    case Clear
    then show ?thesis using clear_spec [OF inv] by auto
  next
    case (FindNext x)
    then show ?thesis using findNext_fun [OF inv, of x] by auto
  next
    case (FindPrev x)
    then show ?thesis using findPrev_fun [OF inv a, of x] a by auto
  qed
qed

lemma run_sim: "list_inv L \<Longrightarrow> sim_res (run_L cs L) (abs_run cs (abs_L L))"
proof (induction cs arbitrary: L)
  case Nil
  then show ?case by simp
next
  case (Cons c cs)
  show ?case
  proof (cases "step_L c L")
    case (Inl e)
    then show ?thesis using step_refine [OF Cons.prems, of c] by simp
  next
    case (Inr L1)
    then show ?thesis using step_refine [OF Cons.prems, of c] Cons.IH [of L1] by simp
  qed
qed

text \<open>The abstract machine fails only with the \<open>runtime_error\<close>s its preconditions name.\<close>

lemma abs_step_error: "abs_step c s = Inl e \<Longrightarrow> \<exists>m. e = Runtime_error m"
  by (cases s, cases c) (auto split: list.splits if_splits)

lemma abs_run_error: "abs_run cs s = Inl e \<Longrightarrow> \<exists>m. e = Runtime_error m"
proof (induction cs arbitrary: s)
  case (Cons c cs)
  then show ?case using abs_step_error [of c s] by (cases "abs_step c s") auto
qed simp

end
