(* ===== verification/BST_Tree.thy ===== *)
theory BST_Tree
  imports Prelude
begin

text \<open>
  The data model of \<open>src/pa7/Dictionary.cpp\<close>, an unbalanced binary search tree with a
  sentinel \<open>nil\<close> and parent pointers: nodes without colour, parent links as a zipper
  (the focused node and the chain of its ancestors), and the traversal helpers of the
  source (\<open>search\<close>, \<open>findMin\<close>, \<open>findMax\<close>, \<open>findNext\<close>, \<open>findPrev\<close>). Names carry the
  suffix \<open>_B\<close> to tell them from the red-black tree of pa8. The lemmas relate the
  helpers to the in-order list of pairs.
\<close>

section \<open>Nodes and parent links\<close>

text \<open>\<open>Dictionary::Node\<close> (lines 15--22): key, value, left and right links; \<open>BNil\<close> is
  the sentinel \<open>nil\<close>, which carries no pair.\<close>

datatype ('k, 'v) btree = BNil | BNode "('k, 'v) btree" 'k 'v "('k, 'v) btree"

text \<open>\<open>N->parent\<close> and the chain above it: \<open>BLeft k v r\<close> says that the node is the
  left child of the node with key \<open>k\<close>, value \<open>v\<close> and right subtree \<open>r\<close>. An empty
  path means \<open>N->parent == nil\<close>, so \<open>N\<close> is the root.\<close>

datatype ('k, 'v) bctx = BLeft 'k 'v "('k, 'v) btree" | BRight "('k, 'v) btree" 'k 'v

type_synonym ('k, 'v) bpath = "('k, 'v) bctx list"
type_synonym ('k, 'v) bzipper = "('k, 'v) btree \<times> ('k, 'v) bpath"

fun bplug :: "('k, 'v) bctx \<Rightarrow> ('k, 'v) btree \<Rightarrow> ('k, 'v) btree" where
  "bplug (BLeft k v r) t = BNode t k v r"
| "bplug (BRight l k v) t = BNode l k v t"

text \<open>The whole tree, reached by following parent links to the root; also what the
  writes \<open>P->left = X\<close>, \<open>P->right = X\<close> or \<open>root = X\<close> do when \<open>X\<close> replaces the focus.\<close>

fun broot_of :: "('k, 'v) bzipper \<Rightarrow> ('k, 'v) btree" where
  "broot_of (t, []) = t"
| "broot_of (t, c # p) = broot_of (bplug c t, p)"

section \<open>Search and navigation\<close>

text \<open>\<open>search(R, k)\<close> (lines 92--107).\<close>

fun search_B :: "('k::linorder, 'v) bzipper \<Rightarrow> 'k \<Rightarrow> ('k, 'v) bzipper" where
  "search_B (BNil, p) k = (BNil, p)"
| "search_B (BNode l k' v r, p) k =
     (if k = k' then (BNode l k' v r, p)
      else if k < k' then search_B (l, BLeft k' v r # p) k
      else search_B (r, BRight l k' v # p) k)"

text \<open>\<open>findMin(R)\<close>, \<open>findMax(R)\<close> (lines 112--131). On the sentinel the loop would read
  \<open>nil->left\<close>, a null pointer; every caller passes a real node, and the model returns
  the sentinel there.\<close>

fun findMin_B :: "('k, 'v) bzipper \<Rightarrow> ('k, 'v) bzipper" where
  "findMin_B (BNil, p) = (BNil, p)"
| "findMin_B (BNode l k v r, p) = (if l = BNil then (BNode l k v r, p) else findMin_B (l, BLeft k v r # p))"

fun findMax_B :: "('k, 'v) bzipper \<Rightarrow> ('k, 'v) bzipper" where
  "findMax_B (BNil, p) = (BNil, p)"
| "findMax_B (BNode l k v r, p) = (if r = BNil then (BNode l k v r, p) else findMax_B (r, BRight l k v # p))"

text \<open>The climbing loops of \<open>findNext\<close> (while \<open>N == P->right\<close>) and \<open>findPrev\<close> (while
  \<open>N == P->left\<close>); past the root they return the sentinel.\<close>

fun climb_right_B :: "('k, 'v) bzipper \<Rightarrow> ('k, 'v) bzipper" where
  "climb_right_B (n, []) = (BNil, [])"
| "climb_right_B (n, BRight l k v # p) = climb_right_B (BNode l k v n, p)"
| "climb_right_B (n, BLeft k v r # p) = (BNode n k v r, p)"

fun climb_left_B :: "('k, 'v) bzipper \<Rightarrow> ('k, 'v) bzipper" where
  "climb_left_B (n, []) = (BNil, [])"
| "climb_left_B (n, BLeft k v r # p) = climb_left_B (BNode n k v r, p)"
| "climb_left_B (n, BRight l k v # p) = (BNode l k v n, p)"

text \<open>\<open>findNext(N)\<close> (lines 137--153), \<open>findPrev(N)\<close> (lines 159--175).\<close>

fun findNext_B :: "('k, 'v) bzipper \<Rightarrow> ('k, 'v) bzipper" where
  "findNext_B (BNode l k v r, p) =
     (if r \<noteq> BNil then findMin_B (r, BRight l k v # p) else climb_right_B (BNode l k v r, p))"
| "findNext_B (BNil, p) = (BNil, p)"

fun findPrev_B :: "('k, 'v) bzipper \<Rightarrow> ('k, 'v) bzipper" where
  "findPrev_B (BNode l k v r, p) =
     (if l \<noteq> BNil then findMax_B (l, BLeft k v r # p) else climb_left_B (BNode l k v r, p))"
| "findPrev_B (BNil, p) = (BNil, p)"

fun bkey_of :: "('k, 'v) btree \<Rightarrow> 'k option" where
  "bkey_of BNil = None"
| "bkey_of (BNode _ k _ _) = Some k"

fun bval_of :: "('k, 'v) btree \<Rightarrow> 'v option" where
  "bval_of BNil = None"
| "bval_of (BNode _ _ v _) = Some v"

section \<open>Abstractions\<close>

text \<open>The pairs in key order (the order of \<open>inOrderString\<close>), and those of a path left
  and right of the focus.\<close>

fun binorder :: "('k, 'v) btree \<Rightarrow> ('k \<times> 'v) list" where
  "binorder BNil = []"
| "binorder (BNode l k v r) = binorder l @ (k, v) # binorder r"

fun blefts :: "('k, 'v) bpath \<Rightarrow> ('k \<times> 'v) list" where
  "blefts [] = []"
| "blefts (BLeft k v r # p) = blefts p"
| "blefts (BRight l k v # p) = blefts p @ binorder l @ [(k, v)]"

fun brights :: "('k, 'v) bpath \<Rightarrow> ('k \<times> 'v) list" where
  "brights [] = []"
| "brights (BLeft k v r # p) = (k, v) # binorder r @ brights p"
| "brights (BRight l k v # p) = brights p"

definition bst_B :: "('k::linorder, 'v) btree \<Rightarrow> bool" where
  "bst_B t = sorted_keys (binorder t)"

definition bbounds :: "('k::linorder, 'v) bpath \<Rightarrow> 'k \<Rightarrow> bool" where
  "bbounds p k = ((\<forall>x \<in> set (keys (blefts p)). x < k) \<and> (\<forall>y \<in> set (keys (brights p)). k < y))"

section \<open>Lemmas: zippers and search\<close>

lemma binorder_broot_of [simp, zip_simps]:
  "binorder (broot_of (t, p)) = blefts p @ binorder t @ brights p"
proof (induction p arbitrary: t)
  case (Cons c p)
  then show ?case by (cases c) auto
qed simp

lemma blefts_append [zip_simps]: "blefts (q @ p) = blefts p @ blefts q"
  by (induction q rule: blefts.induct) auto

lemma brights_append [zip_simps]: "brights (q @ p) = brights q @ brights p"
  by (induction q rule: brights.induct) auto

lemma broot_of_append [zip_simps]: "broot_of (t, q @ p) = broot_of (broot_of (t, q), p)"
  by (induction q arbitrary: t) auto

lemma binorder_BNil_iff [simp]: "binorder t = [] \<longleftrightarrow> t = BNil"
  by (cases t) auto

lemma search_B_root_of [zip_simps]: "broot_of (search_B z k) = broot_of z"
  by (induction z k rule: search_B.induct) auto

lemma bbounds_Nil [simp]: "bbounds [] k"
  by (simp add: bbounds_def)

lemma sorted_keys_mid_lt:
  "sorted_keys (xs @ (k, v) # ys) \<Longrightarrow> x \<in> set (keys xs) \<Longrightarrow> x < k"
  "sorted_keys (xs @ (k, v) # ys) \<Longrightarrow> y \<in> set (keys ys) \<Longrightarrow> k < y"
  by (auto simp: sorted_wrt_append)

lemma map_of_mid_key: "k \<notin> set (keys xs) \<Longrightarrow> map_of (xs @ (k, v) # ys) k = Some v"
  by (induction xs) auto

lemma search_B_bounds:
  assumes "sorted_keys (binorder (broot_of (t, p)))" and "bbounds p k"
    and "search_B (t, p) k = (t', p')"
  shows "bbounds p' k \<and> (t' = BNil \<or> (\<exists>l v r. t' = BNode l k v r))"
  using assms
proof (induction "(t, p)" k arbitrary: t p rule: search_B.induct)
  case (2 l k' v r p k)
  note s = sorted_keys_mid_lt [of "blefts p @ binorder l" k' v "binorder r @ brights p"]
  show ?case
  proof (cases "k = k'")
    case False
    show ?thesis
    proof (cases "k < k'")
      case True
      have "k' < y" if "(y, w) \<in> set (binorder r)" for y w using s(2) "2.prems"(1) that by force
      then have "bbounds (BLeft k' v r # p) k"
        using "2.prems"(2) True by (fastforce simp: bbounds_def intro: less_trans)
      with True False "2.prems" show ?thesis by (intro "2.hyps"(1)) auto
    next
      case ge: False
      have "x < k'" if "(x, w) \<in> set (binorder l)" for x w using s(1) "2.prems"(1) that by force
      moreover have "k' < k" using False ge by auto
      ultimately have "bbounds (BRight l k' v # p) k"
        using "2.prems"(2) by (fastforce simp: bbounds_def intro: less_trans)
      with False ge "2.prems" show ?thesis by (intro "2.hyps"(2)) auto
    qed
  qed (use "2.prems" in auto)
qed simp

lemma search_B_found:
  assumes "bst_B t" and "search_B (t, []) k = (BNode l k' v r, p')"
  shows "k' = k \<and> map_of (binorder t) k = Some v \<and> broot_of (BNode l k' v r, p') = t"
proof -
  have s: "sorted_keys (binorder (broot_of (t, [])))" using assms(1) by (simp add: bst_B_def)
  from search_B_bounds [OF s _ assms(2)] have kk: "k' = k" by simp
  have root: "broot_of (BNode l k' v r, p') = t"
    using search_B_root_of [of "(t, [])" k] assms(2) by simp
  have it: "binorder t = (blefts p' @ binorder l) @ (k', v) # binorder r @ brights p'"
    using arg_cong [OF root, of binorder] by simp
  have "sorted_keys ((blefts p' @ binorder l) @ (k', v) # binorder r @ brights p')"
    using s it by simp
  then have "k \<notin> set (keys (blefts p' @ binorder l))" using kk by (auto simp: sorted_wrt_append)
  then have "map_of ((blefts p' @ binorder l) @ (k, v) # binorder r @ brights p') k = Some v"
    by (rule map_of_mid_key)
  then show ?thesis using kk root it by simp
qed

lemma search_B_not_found:
  assumes "bst_B t" and "search_B (t, []) k = (BNil, p')"
  shows "k \<notin> set (keys (binorder t))"
proof -
  have s: "sorted_keys (binorder (broot_of (t, [])))" using assms(1) by (simp add: bst_B_def)
  from search_B_bounds [OF s _ assms(2)] have "bbounds p' k" by simp
  moreover have "broot_of (BNil, p') = t" using search_B_root_of [of "(t, [])" k] assms(2) by simp
  ultimately show ?thesis by (force simp: bbounds_def)
qed

lemma search_B_lookup:
  assumes "bst_B t"
  shows "bval_of (fst (search_B (t, []) k)) = map_of (binorder t) k \<and>
    (fst (search_B (t, []) k) = BNil \<longleftrightarrow> k \<notin> set (keys (binorder t)))"
proof (cases "search_B (t, []) k")
  case (Pair n p)
  show ?thesis
  proof (cases n)
    case BNil
    then have "k \<notin> set (keys (binorder t))" using search_B_not_found [OF assms, of k p] Pair by simp
    then have "map_of (binorder t) k = None" by (simp add: map_of_eq_None_iff)
    then show ?thesis using BNil Pair \<open>k \<notin> set (keys (binorder t))\<close> by simp
  next
    case (BNode l k' v r)
    then show ?thesis using search_B_found [OF assms] Pair
      by (auto simp: in_keys_map_of)
  qed
qed

section \<open>Lemmas: navigation\<close>

lemma findMin_B_shape:
  "findMin_B (t, p) = (t', p') \<Longrightarrow> t \<noteq> BNil \<Longrightarrow>
   \<exists>q k v r. t' = BNode BNil k v r \<and> p' = q @ p \<and> blefts q = [] \<and> broot_of (t', q) = t"
proof (induction "(t, p)" arbitrary: t p rule: findMin_B.induct)
  case (2 l k v r p)
  show ?case
  proof (cases "l = BNil")
    case False
    with "2.prems" "2.hyps" obtain q k' v' r' where
      "t' = BNode BNil k' v' r'" "p' = q @ BLeft k v r # p" "blefts q = []" "broot_of (t', q) = l"
      by auto
    then show ?thesis by (intro exI [of _ "q @ [BLeft k v r]"]) (auto simp: zip_simps)
  qed (use "2.prems" in \<open>auto intro: exI [of _ "[]"]\<close>)
qed simp

lemma findMax_B_shape:
  "findMax_B (t, p) = (t', p') \<Longrightarrow> t \<noteq> BNil \<Longrightarrow>
   \<exists>q l k v. t' = BNode l k v BNil \<and> p' = q @ p \<and> brights q = [] \<and> broot_of (t', q) = t"
proof (induction "(t, p)" arbitrary: t p rule: findMax_B.induct)
  case (2 l k v r p)
  show ?case
  proof (cases "r = BNil")
    case False
    with "2.prems" "2.hyps" obtain q l' k' v' where
      "t' = BNode l' k' v' BNil" "p' = q @ BRight l k v # p" "brights q = []" "broot_of (t', q) = r"
      by auto
    then show ?thesis by (intro exI [of _ "q @ [BRight l k v]"]) (auto simp: zip_simps)
  qed (use "2.prems" in \<open>auto intro: exI [of _ "[]"]\<close>)
qed simp

lemma climb_right_B_result:
  "climb_right_B (n, p) = (t', p') \<Longrightarrow>
   (brights p = [] \<and> t' = BNil) \<or>
   (\<exists>l k v r. t' = BNode l k v r \<and> brights p = (k, v) # binorder r @ brights p')"
  by (induction "(n, p)" arbitrary: n p rule: climb_right_B.induct) auto

lemma climb_left_B_result:
  "climb_left_B (n, p) = (t', p') \<Longrightarrow>
   (blefts p = [] \<and> t' = BNil) \<or>
   (\<exists>l k v r. t' = BNode l k v r \<and> blefts p = blefts p' @ binorder l @ [(k, v)])"
  by (induction "(n, p)" arbitrary: n p rule: climb_left_B.induct) auto

text \<open>The key \<open>findNext\<close> reaches is the first key right of the node in key order, the
  key \<open>findPrev\<close> reaches the last key left of it.\<close>

lemma findNext_B_key:
  "bkey_of (fst (findNext_B (BNode l k v r, p))) =
     (case binorder r @ brights p of [] \<Rightarrow> None | (k', _) # _ \<Rightarrow> Some k')"
proof (cases "findNext_B (BNode l k v r, p)")
  case (Pair t' p')
  show ?thesis
  proof (cases "r = BNil")
    case True
    with Pair have "climb_right_B (BNode l k v r, p) = (t', p')" by simp
    from climb_right_B_result [OF this] True Pair show ?thesis by auto
  next
    case False
    with Pair have "findMin_B (r, BRight l k v # p) = (t', p')" by simp
    from findMin_B_shape [OF this False] obtain q k' v' r' where
      "t' = BNode BNil k' v' r'" "blefts q = []" "broot_of (t', q) = r" by blast
    then show ?thesis using Pair arg_cong [of "broot_of (t', q)" r binorder] by auto
  qed
qed

lemma findPrev_B_key:
  "bkey_of (fst (findPrev_B (BNode l k v r, p))) =
     (case rev (blefts p @ binorder l) of [] \<Rightarrow> None | (k', _) # _ \<Rightarrow> Some k')"
proof (cases "findPrev_B (BNode l k v r, p)")
  case (Pair t' p')
  show ?thesis
  proof (cases "l = BNil")
    case True
    with Pair have "climb_left_B (BNode l k v r, p) = (t', p')" by simp
    from climb_left_B_result [OF this] True Pair show ?thesis by auto
  next
    case False
    with Pair have "findMax_B (l, BLeft k v r # p) = (t', p')" by simp
    from findMax_B_shape [OF this False] obtain q l' k' v' where
      "t' = BNode l' k' v' BNil" "brights q = []" "broot_of (t', q) = l" by blast
    then show ?thesis using Pair arg_cong [of "broot_of (t', q)" l binorder] by auto
  qed
qed

end
