(* ===== verification/BST_Dictionary.thy ===== *)
theory BST_Dictionary
  imports BST_Tree
begin

text \<open>
  The public interface of the \<open>Dictionary\<close> class of \<open>src/pa7/Dictionary.cpp\<close>, the
  unbalanced search tree: the state as a record (\<open>root\<close>, the iterator \<open>current\<close>,
  \<open>num_pairs\<close>), one definition per member function, the precondition checks as
  \<open>Logic_error\<close> values and the text dumps for \<open>keyType = std::string\<close>,
  \<open>valType = int\<close>. As in pa8 the iterator node is named by its key: \<open>setValue\<close> only
  overwrites values and \<open>remove\<close> moves the successor node, so a node keeps its key for
  its whole life. The lemmas show that \<open>setValue\<close> and \<open>remove\<close> act on the in-order
  pairs as the map update and deletion, that the iterator walks the pairs in key order,
  and that the copy constructor rebuilds the source's tree node for node.
\<close>

section \<open>State\<close>

record ('k, 'v) BDictionary =
  broot :: "('k, 'v) btree"
  bcurrent :: "'k option"
  bnum_pairs :: int

text \<open>\<open>Dictionary()\<close> (lines 181--190).\<close>

definition BDictionary_empty :: "('k, 'v) BDictionary" where
  "BDictionary_empty = \<lparr>broot = BNil, bcurrent = None, bnum_pairs = 0\<rparr>"

section \<open>Access functions\<close>

text \<open>\<open>size()\<close>, \<open>contains(k)\<close>, \<open>getValue(k)\<close> (lines 218--241).\<close>

definition size_B :: "('k, 'v) BDictionary \<Rightarrow> int" where
  "size_B d = bnum_pairs d"

definition contains_B :: "('k::linorder, 'v) BDictionary \<Rightarrow> 'k \<Rightarrow> bool" where
  "contains_B d k = (fst (search_B (broot d, []) k) \<noteq> BNil)"

definition getValue_B :: "('k::linorder, 'v) BDictionary \<Rightarrow> 'k \<Rightarrow> 'v result" where
  "getValue_B d k =
     (if \<not> contains_B d k then Inl (Logic_error ''getValue(): pre-condition contains(k) not met'')
      else case bval_of (fst (search_B (broot d, []) k)) of Some v \<Rightarrow> Inr v | None \<Rightarrow> Inl Null_dereference)"

text \<open>\<open>hasCurrent()\<close>, \<open>currentKey()\<close>, \<open>currentVal()\<close> (lines 246--272); \<open>currentVal()\<close>
  throws with the message of \<open>currentKey()\<close>, as the source does.\<close>

definition hasCurrent_B :: "('k, 'v) BDictionary \<Rightarrow> bool" where
  "hasCurrent_B d = (bcurrent d \<noteq> None)"

definition currentKey_B :: "('k, 'v) BDictionary \<Rightarrow> 'k result" where
  "currentKey_B d = (case bcurrent d of
      None \<Rightarrow> Inl (Logic_error ''currentKey(): pre-condition hasCurrent() not met'') | Some k \<Rightarrow> Inr k)"

definition currentVal_B :: "('k::linorder, 'v) BDictionary \<Rightarrow> 'v result" where
  "currentVal_B d = (case bcurrent d of
      None \<Rightarrow> Inl (Logic_error ''currentKey(): pre-condition hasCurrent() not met'')
    | Some k \<Rightarrow> (case bval_of (fst (search_B (broot d, []) k)) of Some v \<Rightarrow> Inr v | None \<Rightarrow> Inl Null_dereference))"

section \<open>Manipulation procedures\<close>

text \<open>\<open>clear()\<close> (lines 279--287): \<open>postOrderDelete(root)\<close> frees the nodes, then the
  fields are reset.\<close>

definition clear_B :: "('k, 'v) BDictionary \<Rightarrow> ('k, 'v) BDictionary" where
  "clear_B d = d\<lparr>broot := BNil, bcurrent := None, bnum_pairs := 0\<rparr>"

text \<open>
  \<open>setValue(k, v)\<close> (lines 293--338): the walk with \<open>P\<close> and \<open>C\<close>, to the left when
  \<open>k < C->key\<close>, to the right when \<open>k > C->key\<close>, overwriting \<open>C->val\<close> on equality;
  otherwise the new node hangs below the last node \<open>P\<close> on the side the last comparison
  chose (or becomes the root). The result is the new tree and whether a node was added.
\<close>

fun setValue_walk_B :: "'k::linorder \<Rightarrow> 'v \<Rightarrow> ('k, 'v) bzipper \<Rightarrow> ('k, 'v) btree \<times> bool" where
  "setValue_walk_B k v (BNil, p) = (broot_of (BNode BNil k v BNil, p), True)"
| "setValue_walk_B k v (BNode l k' v' r, p) =
     (if k < k' then setValue_walk_B k v (l, BLeft k' v' r # p)
      else if k' < k then setValue_walk_B k v (r, BRight l k' v' # p)
      else (broot_of (BNode l k' v r, p), False))"

definition setValue_B :: "('k::linorder, 'v) BDictionary \<Rightarrow> 'k \<Rightarrow> 'v \<Rightarrow> ('k, 'v) BDictionary" where
  "setValue_B d k v = (case setValue_walk_B k v (broot d, []) of
     (t, added) \<Rightarrow> d\<lparr>broot := t, bnum_pairs := (if added then bnum_pairs d + 1 else bnum_pairs d)\<rparr>)"

text \<open>
  The two-children case of \<open>remove\<close> (lines 373--405): \<open>S = findMin(toRemove->right)\<close>;
  unless \<open>S\<close> is \<open>toRemove\<close>'s right child, \<open>S->right\<close> takes \<open>S\<close>'s place as the left
  child of \<open>S\<close>'s parent and \<open>S\<close> takes over \<open>toRemove->right\<close>; then \<open>S\<close> takes
  \<open>toRemove\<close>'s place and its left subtree. \<open>S\<close> is found as a zipper inside the right
  subtree, so an empty path means that \<open>S->parent == toRemove\<close>. The right subtree is a
  real node here, so the sentinel branch is never taken.
\<close>

definition remove_succ_B :: "('k, 'v) btree \<Rightarrow> ('k, 'v) btree \<Rightarrow> ('k, 'v) btree" where
  "remove_succ_B l r = (case findMin_B (r, []) of
      (BNode _ sk sv sr, q) \<Rightarrow> if q = [] then BNode l sk sv sr else BNode l sk sv (broot_of (sr, q))
    | (BNil, _) \<Rightarrow> l)"

text \<open>
  What takes \<open>toRemove\<close>'s place (lines 358--445): the sentinel for a leaf, the splice
  above for two children, the only child otherwise. The one-child case is two
  sequential \<open>if\<close>s in the source (\<open>toRemove->right == nil\<close>, then \<open>toRemove->left ==
  nil\<close>); in that branch exactly one child is the sentinel, so exactly one of them runs.
\<close>

fun remove_node_B :: "('k, 'v) btree \<Rightarrow> ('k, 'v) btree" where
  "remove_node_B BNil = BNil"
| "remove_node_B (BNode l k v r) =
     (if l = BNil \<and> r = BNil then BNil
      else if l \<noteq> BNil \<and> r \<noteq> BNil then remove_succ_B l r
      else if r = BNil then l else r)"

text \<open>\<open>remove(k)\<close> (lines 344--452).\<close>

definition remove_B :: "('k::linorder, 'v) BDictionary \<Rightarrow> 'k \<Rightarrow> ('k, 'v) BDictionary result" where
  "remove_B d k =
     (if \<not> contains_B d k then Inl (Logic_error ''remove(): pre-condition contains(k) not met'')
      else case search_B (broot d, []) k of (N, p) \<Rightarrow>
        Inr (d\<lparr>broot := broot_of (remove_node_B N, p),
               bcurrent := (if bcurrent d = Some k then None else bcurrent d),
               bnum_pairs := bnum_pairs d - 1\<rparr>))"

text \<open>\<open>begin()\<close>, \<open>end()\<close> (lines 457--470).\<close>

definition begin_B :: "('k, 'v) BDictionary \<Rightarrow> ('k, 'v) BDictionary" where
  "begin_B d = (if broot d \<noteq> BNil then d\<lparr>bcurrent := bkey_of (fst (findMin_B (broot d, [])))\<rparr> else d)"

definition end_B :: "('k, 'v) BDictionary \<Rightarrow> ('k, 'v) BDictionary" where
  "end_B d = (if broot d \<noteq> BNil then d\<lparr>bcurrent := bkey_of (fst (findMax_B (broot d, [])))\<rparr> else d)"

text \<open>\<open>next()\<close>, \<open>prev()\<close> (lines 477--504).\<close>

definition next_B :: "('k::linorder, 'v) BDictionary \<Rightarrow> ('k, 'v) BDictionary result" where
  "next_B d = (case bcurrent d of
      None \<Rightarrow> Inl (Logic_error ''next(): pre-condition hasCurrent() not met'')
    | Some k \<Rightarrow> Inr (d\<lparr>bcurrent := bkey_of (fst (findNext_B (search_B (broot d, []) k)))\<rparr>))"

definition prev_B :: "('k::linorder, 'v) BDictionary \<Rightarrow> ('k, 'v) BDictionary result" where
  "prev_B d = (case bcurrent d of
      None \<Rightarrow> Inl (Logic_error ''prev(): pre-condition hasCurrent() not met'')
    | Some k \<Rightarrow> Inr (d\<lparr>bcurrent := bkey_of (fst (findPrev_B (search_B (broot d, []) k)))\<rparr>))"

section \<open>Copies\<close>

text \<open>\<open>preOrderCopy(R, N)\<close> (lines 60--70): \<open>setValue\<close> of every pair of the source in
  pre-order, down to the source's sentinel.\<close>

fun preOrderCopy_B :: "('k::linorder, 'v) btree \<Rightarrow> ('k, 'v) BDictionary \<Rightarrow> ('k, 'v) BDictionary" where
  "preOrderCopy_B BNil d = d"
| "preOrderCopy_B (BNode l k v r) d = preOrderCopy_B r (preOrderCopy_B l (setValue_B d k v))"

text \<open>The copy constructor (lines 193--205) and \<open>operator=\<close> between distinct objects
  (lines 558--565).\<close>

definition BDictionary_copy :: "('k::linorder, 'v) BDictionary \<Rightarrow> ('k, 'v) BDictionary" where
  "BDictionary_copy D = preOrderCopy_B (broot D) BDictionary_empty"

definition assign_B :: "('k::linorder, 'v) BDictionary \<Rightarrow> ('k, 'v) BDictionary \<Rightarrow> ('k, 'v) BDictionary" where
  "assign_B d D = preOrderCopy_B (broot D) (clear_B d)"

section \<open>Text dumps\<close>

text \<open>\<open>inOrderString(s, R)\<close> (lines 31--39): \<open>"key : value\n"\<close> per pair in key order;
  \<open>preOrderString(s, R)\<close> (lines 45--55): \<open>"key\n"\<close> per node in pre-order.\<close>

fun inOrderString_B :: "string \<Rightarrow> (string, int) btree \<Rightarrow> string" where
  "inOrderString_B s BNil = s"
| "inOrderString_B s (BNode l k v r) =
     inOrderString_B (inOrderString_B s l @ k @ '' : '' @ string_of_int v @ ''\<newline>'') r"

fun preOrderString_B :: "string \<Rightarrow> (string, int) btree \<Rightarrow> string" where
  "preOrderString_B s BNil = s"
| "preOrderString_B s (BNode l k v r) = preOrderString_B (preOrderString_B (s @ k @ ''\<newline>'') l) r"

text \<open>\<open>to_string()\<close>, \<open>pre_string()\<close>, \<open>equals(D)\<close> (lines 514--537).\<close>

definition to_string_B :: "(string, int) BDictionary \<Rightarrow> string" where
  "to_string_B d = inOrderString_B [] (broot d)"

definition pre_string_B :: "(string, int) BDictionary \<Rightarrow> string" where
  "pre_string_B d = preOrderString_B [] (broot d)"

definition equals_B :: "(string, int) BDictionary \<Rightarrow> (string, int) BDictionary \<Rightarrow> bool" where
  "equals_B d D = (to_string_B d = to_string_B D)"

section \<open>Invariant and abstraction\<close>

definition bpairs :: "('k, 'v) BDictionary \<Rightarrow> ('k \<times> 'v) list" where
  "bpairs d = binorder (broot d)"

definition bcurrent_ok :: "('k, 'v) BDictionary \<Rightarrow> bool" where
  "bcurrent_ok d = (case bcurrent d of None \<Rightarrow> True | Some k \<Rightarrow> k \<in> set (keys (bpairs d)))"

definition bdict_inv :: "('k::linorder, 'v) BDictionary \<Rightarrow> bool" where
  "bdict_inv d = (bst_B (broot d) \<and> bnum_pairs d = int (length (bpairs d)) \<and> bcurrent_ok d)"

section \<open>Lemmas: lookup and setValue\<close>

lemma bpairs_upd [simp]:
  "bpairs (d\<lparr>bcurrent := c\<rparr>) = bpairs d" "bpairs (d\<lparr>bnum_pairs := n\<rparr>) = bpairs d"
  by (simp_all add: bpairs_def)

lemma bdict_inv_empty [simp]: "bdict_inv BDictionary_empty"
  by (simp add: bdict_inv_def BDictionary_empty_def bst_B_def bpairs_def bcurrent_ok_def)

lemma bpairs_empty [simp]: "bpairs BDictionary_empty = []"
  by (simp add: BDictionary_empty_def bpairs_def)

lemma search_B_split:
  assumes "search_B (t, []) k = (n, p)"
  shows "binorder t = blefts p @ binorder n @ brights p"
  using arg_cong [OF search_B_root_of [of "(t, [])" k], of binorder] assms by simp

lemma contains_B_keys: "bdict_inv d \<Longrightarrow> contains_B d k \<longleftrightarrow> k \<in> set (keys (bpairs d))"
  using search_B_lookup [of "broot d" k] by (simp add: bdict_inv_def contains_B_def bpairs_def)

lemma getValue_B_lookup:
  "bdict_inv d \<Longrightarrow> getValue_B d k =
     (case map_of (bpairs d) k of
        None \<Rightarrow> Inl (Logic_error ''getValue(): pre-condition contains(k) not met'') | Some v \<Rightarrow> Inr v)"
  using search_B_lookup [of "broot d" k]
  by (auto simp: bdict_inv_def getValue_B_def contains_B_def bpairs_def map_of_eq_None_iff
      split: option.split)

lemma setValue_walk_B_search:
  "setValue_walk_B k v z =
     (case search_B z k of
        (BNil, p) \<Rightarrow> (broot_of (BNode BNil k v BNil, p), True)
      | (BNode l k' v' r, p) \<Rightarrow> (broot_of (BNode l k' v r, p), False))"
  by (induction k v z rule: setValue_walk_B.induct) auto

text \<open>C27: on a valid dictionary, \<open>setValue(k, v)\<close> keeps the search-tree, size and
  iterator invariants, acts on the pairs as the map update \<open>k \<mapsto> v\<close>, leaves the
  iterator alone, and grows \<open>size()\<close> by one exactly when \<open>k\<close> was absent.\<close>

lemma setValue_B_abs:
  assumes "bdict_inv d"
  shows "bdict_inv (setValue_B d k v) \<and> map_of (bpairs (setValue_B d k v)) = (map_of (bpairs d))(k \<mapsto> v) \<and>
    bcurrent (setValue_B d k v) = bcurrent d \<and>
    size_B (setValue_B d k v) = size_B d + (if k \<in> set (keys (bpairs d)) then 0 else 1)"
proof -
  have bst: "bst_B (broot d)" using assms by (simp add: bdict_inv_def)
  obtain n p where s: "search_B (broot d, []) k = (n, p)" by fastforce
  note split = search_B_split [OF s]
  have sorted: "sorted_keys (blefts p @ binorder n @ brights p)" using bst split by (simp add: bst_B_def)
  show ?thesis
  proof (cases n)
    case BNil
    have "bbounds p k" using search_B_bounds [of "broot d" "[]" k n p] bst s by (simp add: bst_B_def)
    then have lt: "\<forall>x \<in> set (keys (blefts p)). x < k" and gt: "\<forall>y \<in> set (keys (brights p)). k < y"
      by (auto simp: bbounds_def)
    have sv: "setValue_B d k v = d\<lparr>broot := broot_of (BNode BNil k v BNil, p), bnum_pairs := bnum_pairs d + 1\<rparr>"
      using s BNil by (simp add: setValue_B_def setValue_walk_B_search)
    have old: "bpairs d = blefts p @ brights p" using split BNil by (simp add: bpairs_def)
    have new: "bpairs (setValue_B d k v) = blefts p @ (k, v) # brights p" using sv by (simp add: bpairs_def)
    have ks: "k \<notin> set (keys (blefts p))" "k \<notin> set (keys (brights p))" using lt gt by auto
    have "sorted_keys (blefts p @ (k, v) # brights p)"
      using sorted BNil lt gt by (simp add: sorted_keys_middle sorted_wrt_append)
    then have "bdict_inv (setValue_B d k v)"
      using assms new old sv by (auto simp: bdict_inv_def bst_B_def bcurrent_ok_def bpairs_def split: option.splits)
    moreover have "map_of (bpairs (setValue_B d k v)) = (map_of (bpairs d))(k \<mapsto> v)"
      using map_of_insert_middle [OF ks] new old by simp
    ultimately show ?thesis using sv old ks by (simp add: size_B_def)
  next
    case (BNode l k' v' r)
    from search_B_found [OF bst s [unfolded BNode]] have kk: "k' = k" by simp
    have sv: "setValue_B d k v = d\<lparr>broot := broot_of (BNode l k v r, p)\<rparr>"
      using s BNode kk by (simp add: setValue_B_def setValue_walk_B_search)
    let ?xs = "blefts p @ binorder l" and ?ys = "binorder r @ brights p"
    have old: "bpairs d = ?xs @ (k, v') # ?ys" using split BNode kk by (simp add: bpairs_def)
    have new: "bpairs (setValue_B d k v) = ?xs @ (k, v) # ?ys" using sv by (simp add: bpairs_def)
    have so: "sorted_keys (?xs @ (k, v') # ?ys)" using sorted BNode kk by simp
    have "bdict_inv (setValue_B d k v)"
      using assms sorted_keys_replace [OF so] new old sv
      by (auto simp: bdict_inv_def bst_B_def bcurrent_ok_def bpairs_def split: option.splits)
    moreover have "map_of (bpairs (setValue_B d k v)) = (map_of (bpairs d))(k \<mapsto> v)"
      unfolding new old by (rule map_of_update_middle [OF sorted_keys_mid_notin(1) [OF so]])
    ultimately show ?thesis using sv old by (simp add: size_B_def)
  qed
qed

section \<open>Lemmas: removal\<close>

lemma remove_succ_B_inorder:
  assumes "r \<noteq> BNil"
  shows "binorder (remove_succ_B l r) = binorder l @ binorder r"
proof -
  obtain t' q where f: "findMin_B (r, []) = (t', q)" by fastforce
  from findMin_B_shape [OF f assms] obtain sk sv sr where
    t': "t' = BNode BNil sk sv sr" and q: "blefts q = []" and r: "broot_of (t', q) = r" by auto
  have "binorder r = (sk, sv) # binorder sr @ brights q"
    using arg_cong [OF r, of binorder] t' q by simp
  then show ?thesis using f t' q by (auto simp: remove_succ_B_def)
qed

lemma remove_node_B_inorder: "binorder (remove_node_B (BNode l k v r)) = binorder l @ binorder r"
  using remove_succ_B_inorder [of r l] by auto

lemma filter_key_mid:
  assumes "sorted_keys (xs @ (k, v) # ys)"
  shows "filter (\<lambda>p. fst p \<noteq> k) (xs @ (k, v) # ys) = xs @ ys"
proof -
  note n = sorted_keys_mid_notin [OF assms]
  have "filter (\<lambda>p. fst p \<noteq> k) xs = xs" "filter (\<lambda>p. fst p \<noteq> k) ys = ys"
    using n by (force intro: filter_True)+
  then show ?thesis by simp
qed

lemma current_node_B:
  assumes "bdict_inv d" and "k \<in> set (keys (bpairs d))"
  shows "\<exists>l v r p. search_B (broot d, []) k = (BNode l k v r, p) \<and>
    bpairs d = (blefts p @ binorder l) @ (k, v) # binorder r @ brights p"
proof -
  have bst: "bst_B (broot d)" using assms(1) by (simp add: bdict_inv_def)
  obtain n p where s: "search_B (broot d, []) k = (n, p)" by fastforce
  have "n \<noteq> BNil" using search_B_lookup [OF bst, of k] s assms(2) by (simp add: bpairs_def)
  then obtain l k' v r where n: "n = BNode l k' v r" by (cases n) auto
  have "k' = k" using search_B_found [OF bst s [unfolded n]] by simp
  then show ?thesis using s n search_B_split [OF s] by (simp add: bpairs_def)
qed

text \<open>C28: on a valid dictionary holding \<open>k\<close>, \<open>remove(k)\<close> succeeds, keeps the
  invariants, removes exactly the pair of \<open>k\<close> from the in-order pairs (in all three
  cases of the node's children), undefines the iterator exactly when it was at \<open>k\<close>,
  and decrements \<open>size()\<close>.\<close>

lemma remove_B_abs:
  assumes "bdict_inv d" and "k \<in> set (keys (bpairs d))"
  shows "\<exists>d'. remove_B d k = Inr d' \<and> bdict_inv d' \<and> bpairs d' = filter (\<lambda>p. fst p \<noteq> k) (bpairs d) \<and>
    bcurrent d' = (if bcurrent d = Some k then None else bcurrent d) \<and> size_B d' = size_B d - 1"
proof -
  obtain l v r p where s: "search_B (broot d, []) k = (BNode l k v r, p)"
    and pd: "bpairs d = (blefts p @ binorder l) @ (k, v) # binorder r @ brights p"
    using current_node_B [OF assms] by blast
  let ?d' = "d\<lparr>broot := broot_of (remove_node_B (BNode l k v r), p),
     bcurrent := (if bcurrent d = Some k then None else bcurrent d), bnum_pairs := bnum_pairs d - 1\<rparr>"
  have so: "sorted_keys ((blefts p @ binorder l) @ (k, v) # binorder r @ brights p)"
    using assms(1) pd by (simp add: bdict_inv_def bst_B_def bpairs_def)
  have r: "remove_B d k = Inr ?d'" using s assms contains_B_keys [OF assms(1)] by (simp add: remove_B_def)
  have pd': "bpairs ?d' = filter (\<lambda>p. fst p \<noteq> k) (bpairs d)"
    using filter_key_mid [OF so] pd remove_node_B_inorder [of l k v r]
    by (simp add: bpairs_def del: remove_node_B.simps)
  have "bdict_inv ?d'"
  proof -
    have "bst_B (broot ?d')" using sorted_keys_remove [OF so] pd' filter_key_mid [OF so] pd
      by (simp add: bst_B_def bpairs_def)
    moreover have "bnum_pairs ?d' = int (length (bpairs ?d'))"
      using assms(1) pd' filter_key_mid [OF so] pd by (simp add: bdict_inv_def)
    moreover have "bcurrent_ok ?d'"
      using assms(1) pd' by (auto simp: bdict_inv_def bcurrent_ok_def split: option.splits)
    ultimately show ?thesis by (simp add: bdict_inv_def)
  qed
  then show ?thesis using r pd' by (simp add: size_B_def)
qed

lemma remove_B_absent:
  "bdict_inv d \<Longrightarrow> k \<notin> set (keys (bpairs d)) \<Longrightarrow>
   remove_B d k = Inl (Logic_error ''remove(): pre-condition contains(k) not met'')"
  using contains_B_keys [of d k] by (simp add: remove_B_def)

section \<open>Lemmas: the iterator\<close>

text \<open>C30: \<open>next()\<close> on a valid dictionary whose iterator is at \<open>k\<close> moves it to the key
  that follows \<open>k\<close> in key order, or undefines it after the last key, and keeps the
  pairs and the invariants.\<close>

lemma next_B_abs:
  assumes "bdict_inv d" and "bcurrent d = Some k" and "keys (bpairs d) = xs @ k # ys"
  shows "\<exists>d'. next_B d = Inr d' \<and> bdict_inv d' \<and> bpairs d' = bpairs d \<and>
    bcurrent d' = (case ys of [] \<Rightarrow> None | k' # _ \<Rightarrow> Some k')"
proof -
  obtain l v r p where s: "search_B (broot d, []) k = (BNode l k v r, p)"
    and pd: "bpairs d = (blefts p @ binorder l) @ (k, v) # binorder r @ brights p"
    using current_node_B [OF assms(1)] assms(3) by fastforce
  have "sorted_keys (bpairs d)" using assms(1) by (simp add: bdict_inv_def bst_B_def bpairs_def)
  then have "distinct (keys (bpairs d))" by (rule sorted_keys_distinct)
  then have "distinct (xs @ k # ys)" unfolding assms(3) .
  moreover have "xs @ k # ys = keys (blefts p @ binorder l) @ k # keys (binorder r @ brights p)"
    using assms(3) pd by simp
  ultimately have ys: "ys = keys (binorder r @ brights p)" by (rule distinct_mid_unique [THEN conjunct2])
  have key: "bkey_of (fst (findNext_B (BNode l k v r, p))) = (case ys of [] \<Rightarrow> None | k' # _ \<Rightarrow> Some k')"
    unfolding ys case_keys_hd by (rule findNext_B_key)
  have "bcurrent_ok (d\<lparr>bcurrent := bkey_of (fst (findNext_B (BNode l k v r, p)))\<rparr>)"
    using key assms(3) by (simp add: bcurrent_ok_def bpairs_def split: list.splits)
  moreover have "next_B d = Inr (d\<lparr>bcurrent := bkey_of (fst (findNext_B (BNode l k v r, p)))\<rparr>)"
    using assms(2) s by (simp add: next_B_def)
  ultimately show ?thesis using assms(1) key by (simp add: bdict_inv_def bpairs_def)
qed

lemma prev_B_abs:
  assumes "bdict_inv d" and "bcurrent d = Some k" and "keys (bpairs d) = xs @ k # ys"
  shows "\<exists>d'. prev_B d = Inr d' \<and> bdict_inv d' \<and> bpairs d' = bpairs d \<and>
    bcurrent d' = (case rev xs of [] \<Rightarrow> None | k' # _ \<Rightarrow> Some k')"
proof -
  obtain l v r p where s: "search_B (broot d, []) k = (BNode l k v r, p)"
    and pd: "bpairs d = (blefts p @ binorder l) @ (k, v) # binorder r @ brights p"
    using current_node_B [OF assms(1)] assms(3) by fastforce
  have "sorted_keys (bpairs d)" using assms(1) by (simp add: bdict_inv_def bst_B_def bpairs_def)
  then have "distinct (keys (bpairs d))" by (rule sorted_keys_distinct)
  then have "distinct (xs @ k # ys)" unfolding assms(3) .
  moreover have "xs @ k # ys = keys (blefts p @ binorder l) @ k # keys (binorder r @ brights p)"
    using assms(3) pd by simp
  ultimately have xs: "xs = keys (blefts p @ binorder l)" by (rule distinct_mid_unique [THEN conjunct1])
  have key: "bkey_of (fst (findPrev_B (BNode l k v r, p))) = (case rev xs of [] \<Rightarrow> None | k' # _ \<Rightarrow> Some k')"
    unfolding xs rev_map case_keys_hd by (rule findPrev_B_key)
  have "k' \<in> set (keys (bpairs d))" if "rev xs = k' # zs" for k' zs
  proof -
    have "k' \<in> set (rev xs)" using that by simp
    then show ?thesis using assms(3) by simp
  qed
  then have "bcurrent_ok (d\<lparr>bcurrent := bkey_of (fst (findPrev_B (BNode l k v r, p)))\<rparr>)"
    using key by (simp add: bcurrent_ok_def bpairs_def split: list.splits)
  moreover have "prev_B d = Inr (d\<lparr>bcurrent := bkey_of (fst (findPrev_B (BNode l k v r, p)))\<rparr>)"
    using assms(2) s by (simp add: prev_B_def)
  ultimately show ?thesis using assms(1) key by (simp add: bdict_inv_def bpairs_def)
qed

lemma begin_B_abs:
  assumes "bdict_inv d"
  shows "bdict_inv (begin_B d) \<and> bpairs (begin_B d) = bpairs d \<and>
    bcurrent (begin_B d) = (case keys (bpairs d) of [] \<Rightarrow> bcurrent d | k # _ \<Rightarrow> Some k)"
proof (cases "broot d = BNil")
  case False
  obtain t' q where f: "findMin_B (broot d, []) = (t', q)" by fastforce
  from findMin_B_shape [OF f False] obtain k v r where
    t': "t' = BNode BNil k v r" and q: "blefts q = []" and root: "broot_of (t', q) = broot d" by auto
  have pd: "bpairs d = (k, v) # binorder r @ brights q"
    using arg_cong [OF root, of binorder] t' q by (simp add: bpairs_def)
  have b: "begin_B d = d\<lparr>bcurrent := Some k\<rparr>" using False f t' by (simp add: begin_B_def)
  show ?thesis using assms unfolding b by (simp add: bdict_inv_def bcurrent_ok_def bpairs_def [symmetric] pd)
qed (use assms in \<open>simp add: begin_B_def bpairs_def\<close>)

section \<open>Lemmas: copies rebuild the source's tree\<close>

text \<open>A search for a key that lies between the bounds of a path goes down that path.\<close>

lemma search_B_slot: "bbounds p k \<Longrightarrow> search_B (broot_of (t, p), q) k = search_B (t, p @ q) k"
proof (induction p arbitrary: t q)
  case (Cons c p)
  have b: "bbounds p k" using Cons.prems by (cases c) (auto simp: bbounds_def)
  have "search_B (bplug c t, p @ q) k = search_B (t, c # p @ q) k"
  proof (cases c)
    case (BLeft k' v r)
    then have "k < k'" using Cons.prems by (simp add: bbounds_def)
    then show ?thesis using BLeft by auto
  next
    case (BRight l k' v)
    then have "k' < k" using Cons.prems by (simp add: bbounds_def)
    then show ?thesis using BRight by auto
  qed
  then show ?case using Cons.IH [OF b] by simp
qed simp

lemma bbounds_Cons:
  "bbounds (BLeft k v r # p) x \<longleftrightarrow> bbounds p x \<and> x < k \<and> (\<forall>y \<in> set (keys (binorder r)). x < y)"
  "bbounds (BRight l k v # p) x \<longleftrightarrow> bbounds p x \<and> k < x \<and> (\<forall>y \<in> set (keys (binorder l)). y < x)"
  by (auto simp: bbounds_def)

text \<open>Pre-order insertion of a search tree whose keys fit an empty slot of the target
  hangs exactly that tree into the slot.\<close>

lemma preOrderCopy_B_slot:
  assumes "broot d = broot_of (BNil, p)" and "sorted_keys (binorder t)"
    and "\<forall>x \<in> set (keys (binorder t)). bbounds p x"
  shows "broot (preOrderCopy_B t d) = broot_of (t, p) \<and>
    bnum_pairs (preOrderCopy_B t d) = bnum_pairs d + int (length (binorder t)) \<and>
    bcurrent (preOrderCopy_B t d) = bcurrent d"
  using assms
proof (induction t arbitrary: d p)
  case (BNode l k v r)
  have so: "sorted_keys (binorder l @ (k, v) # binorder r)" using BNode.prems(2) by simp
  note so' = so [unfolded sorted_keys_middle]
  have bk: "bbounds p k" using BNode.prems(3) by simp
  let ?d1 = "setValue_B d k v"
  have d1: "?d1 = d\<lparr>broot := broot_of (BNil, BLeft k v BNil # p), bnum_pairs := bnum_pairs d + 1\<rparr>"
    using search_B_slot [OF bk, of BNil "[]"] BNode.prems(1)
    by (simp add: setValue_B_def setValue_walk_B_search)
  have bl: "\<forall>x \<in> set (keys (binorder l)). bbounds (BLeft k v BNil # p) x"
    using BNode.prems(3) so' by (auto simp: bbounds_Cons intro: less_trans)
  from BNode.IH(1) [of ?d1 "BLeft k v BNil # p"] bl so' d1
  have l: "broot (preOrderCopy_B l ?d1) = broot_of (BNil, BRight l k v # p)"
    "bnum_pairs (preOrderCopy_B l ?d1) = bnum_pairs d + 1 + int (length (binorder l))"
    "bcurrent (preOrderCopy_B l ?d1) = bcurrent d"
    by auto
  have br: "\<forall>x \<in> set (keys (binorder r)). bbounds (BRight l k v # p) x"
    using BNode.prems(3) so' by (auto simp: bbounds_Cons intro: less_trans)
  from BNode.IH(2) [of "preOrderCopy_B l ?d1" "BRight l k v # p"] br so' l
  show ?case by auto
qed simp

text \<open>C29: the copy constructor, which inserts the source's pairs in pre-order into an
  empty unbalanced tree, rebuilds the source's tree node for node, with the same size
  and an undefined iterator.\<close>

lemma BDictionary_copy_tree:
  assumes "bst_B (broot D)"
  shows "broot (BDictionary_copy D) = broot D \<and> bcurrent (BDictionary_copy D) = None \<and>
    bnum_pairs (BDictionary_copy D) = int (length (bpairs D))"
  using preOrderCopy_B_slot [of BDictionary_empty "[]" "broot D"] assms
  by (simp add: BDictionary_copy_def BDictionary_empty_def bst_B_def bpairs_def)

section \<open>Lemmas: the dumps\<close>

lemma inOrderString_B_concat:
  "inOrderString_B s t = s @ concat (map (\<lambda>(k, v). k @ '' : '' @ string_of_int v @ ''\<newline>'') (binorder t))"
  by (induction s t rule: inOrderString_B.induct) simp_all

lemma to_string_B_lines:
  "to_string_B d = concat (map (\<lambda>(k, v). k @ '' : '' @ string_of_int v @ ''\<newline>'') (bpairs d))"
  by (simp add: to_string_B_def bpairs_def inOrderString_B_concat)

end
