(* ===== verification/C_List.thy ===== *)
theory C_List
  imports Cursor_List_Ops
begin

text \<open>
  The List ADT of \<open>src/pa2/List.c\<close> (header \<open>src/pa3/List.h\<close>): a doubly linked list of
  \<open>int\<close>s with \<open>NULL\<close>-terminated ends, fields \<open>front\<close>, \<open>back\<close>, \<open>cursor\<close>, \<open>length\<close>
  and \<open>index\<close>. As for the C++ list of pa6, nodes have identities and the record keeps
  them from front to back with their data; \<open>front\<close>, \<open>back\<close> and the \<open>previous\<close>/\<open>next\<close>
  links are read off that sequence, a \<open>NULL\<close> pointer is \<open>None\<close>, and following it is
  \<open>Null_dereference\<close>. A precondition check that prints its message and calls
  \<open>exit(EXIT_FAILURE)\<close> is \<open>Exit_failure\<close> with the message; a check that only prints
  (two in \<open>insertBefore\<close> and \<open>insertAfter\<close>) lets the function go on. The \<open>L == NULL\<close>
  checks are not modelled: a list handle of the model always exists. \<open>freeNode\<close>,
  \<open>freeList\<close> and the freeing loop of \<open>clear\<close> only release memory.
\<close>

section \<open>State\<close>

text \<open>\<open>ListObj\<close> (lines 28--34) with the nodes of \<open>NodeObj\<close> (lines 18--22) created by
  \<open>newNode\<close> (lines 41--48); \<open>cnext_id\<close> names the next node \<open>malloc\<close> returns.\<close>

record CList =
  cnodes :: "(nat \<times> int) list"
  ccursor :: "nat option"
  clength :: int
  cindex :: int
  cnext_id :: nat

definition cids :: "CList \<Rightarrow> nat list" where
  "cids L = map fst (cnodes L)"

text \<open>\<open>L->front\<close>, \<open>L->back\<close>, \<open>N->next\<close>, \<open>N->previous\<close>, \<open>N->data\<close>.\<close>

definition cfront :: "CList \<Rightarrow> nat option" where
  "cfront L = (case cnodes L of [] \<Rightarrow> None | p # _ \<Rightarrow> Some (fst p))"

definition cback :: "CList \<Rightarrow> nat option" where
  "cback L = (if cnodes L = [] then None else Some (fst (last (cnodes L))))"

definition cnext :: "CList \<Rightarrow> nat \<Rightarrow> nat option" where
  "cnext L i = succ_of (cids L) i"

definition cprev :: "CList \<Rightarrow> nat \<Rightarrow> nat option" where
  "cprev L i = pred_of (cids L) i"

definition cdata :: "CList \<Rightarrow> nat \<Rightarrow> int result" where
  "cdata L i = (case map_of (cnodes L) i of None \<Rightarrow> Inl Use_after_free | Some x \<Rightarrow> Inr x)"

text \<open>Following a pointer: \<open>NULL\<close> is a null dereference.\<close>

definition deref :: "nat option \<Rightarrow> nat result" where
  "deref p = (case p of None \<Rightarrow> Inl Null_dereference | Some i \<Rightarrow> Inr i)"

section \<open>Constructor and access functions\<close>

text \<open>\<open>newList()\<close> (lines 61--74).\<close>

definition newList_C :: CList where
  "newList_C = \<lparr>cnodes = [], ccursor = None, clength = 0, cindex = -1, cnext_id = 0\<rparr>"

text \<open>\<open>length()\<close>, \<open>index()\<close> (lines 91--113).\<close>

definition length_C :: "CList \<Rightarrow> int" where
  "length_C L = clength L"

definition index_C :: "CList \<Rightarrow> int" where
  "index_C L = cindex L"

text \<open>\<open>front()\<close>, \<open>back()\<close>, \<open>get()\<close> (lines 118--175).\<close>

definition front_C :: "CList \<Rightarrow> int result" where
  "front_C L = (if clength L \<le> 0 then Inl (Exit_failure ''List Error: calling front() on an empty List\<newline>'')
     else rbind (deref (cfront L)) (cdata L))"

definition back_C :: "CList \<Rightarrow> int result" where
  "back_C L = (if clength L \<le> 0 then Inl (Exit_failure ''List Error: calling back() on an empty List\<newline>'')
     else rbind (deref (cback L)) (cdata L))"

definition get_C :: "CList \<Rightarrow> int result" where
  "get_C L = (if clength L \<le> 0 then Inl (Exit_failure ''List Error: calling get() on an empty List\<newline>'')
     else if cindex L < 0 then Inl (Exit_failure ''List Error: calling get() with an undefined cursor\<newline>'')
     else rbind (deref (ccursor L)) (cdata L))"

text \<open>\<open>equals(A, B)\<close> (lines 179--204): lengths first, then the data pairwise.\<close>

fun equals_C_loop :: "int list \<Rightarrow> int list \<Rightarrow> bool" where
  "equals_C_loop (x # xs) (y # ys) = (if x \<noteq> y then False else equals_C_loop xs ys)"
| "equals_C_loop _ _ = True"

definition equals_C :: "CList \<Rightarrow> CList \<Rightarrow> bool" where
  "equals_C A B = (if clength A \<noteq> clength B then False
     else equals_C_loop (map snd (cnodes A)) (map snd (cnodes B)))"

section \<open>Manipulation procedures\<close>

text \<open>\<open>clear()\<close> (lines 211--232).\<close>

definition clear_C :: "CList \<Rightarrow> CList" where
  "clear_C L = L\<lparr>cnodes := [], ccursor := None, clength := 0, cindex := -1\<rparr>"

text \<open>\<open>set(L, x)\<close> (lines 237--256).\<close>

definition set_C :: "CList \<Rightarrow> int \<Rightarrow> CList result" where
  "set_C L x = (if clength L \<le> 0 then Inl (Exit_failure ''List Error: calling set() on an empty List\<newline>'')
     else if cindex L < 0 then Inl (Exit_failure ''List Error: calling set() with an undefined cursor\<newline>'')
     else rbind (deref (ccursor L)) (\<lambda>c.
       Inr (L\<lparr>cnodes := map (\<lambda>p. if fst p = c then (c, x) else p) (cnodes L)\<rparr>)))"

text \<open>\<open>moveFront()\<close>, \<open>moveBack()\<close> (lines 261--280).\<close>

definition moveFront_C :: "CList \<Rightarrow> CList" where
  "moveFront_C L = (if 0 < clength L then L\<lparr>ccursor := cfront L, cindex := 0\<rparr> else L)"

definition moveBack_C :: "CList \<Rightarrow> CList" where
  "moveBack_C L = (if 0 < clength L then L\<lparr>ccursor := cback L, cindex := clength L - 1\<rparr> else L)"

text \<open>\<open>movePrev()\<close>, \<open>moveNext()\<close> (lines 286--333).\<close>

definition movePrev_C :: "CList \<Rightarrow> CList" where
  "movePrev_C L = (case ccursor L of None \<Rightarrow> L
     | Some c \<Rightarrow> if ccursor L \<noteq> cfront L then L\<lparr>ccursor := cprev L c, cindex := cindex L - 1\<rparr>
                 else L\<lparr>ccursor := None, cindex := -1\<rparr>)"

definition moveNext_C :: "CList \<Rightarrow> CList" where
  "moveNext_C L = (case ccursor L of None \<Rightarrow> L
     | Some c \<Rightarrow> if ccursor L \<noteq> cback L then L\<lparr>ccursor := cnext L c, cindex := cindex L + 1\<rparr>
                 else L\<lparr>ccursor := None, cindex := -1\<rparr>)"

text \<open>\<open>prepend(L, x)\<close>, \<open>append(L, x)\<close> (lines 339--397). Both branches of the
  \<open>front == NULL\<close> (\<open>back == NULL\<close>) test link the new node at that end.\<close>

definition prepend_C :: "CList \<Rightarrow> int \<Rightarrow> CList" where
  "prepend_C L x =
     (let L1 = L\<lparr>cnodes := (cnext_id L, x) # cnodes L, cnext_id := Suc (cnext_id L),
                 clength := clength L + 1\<rparr>
      in if cindex L \<noteq> -1 then L1\<lparr>cindex := cindex L + 1\<rparr> else L1)"

definition append_C :: "CList \<Rightarrow> int \<Rightarrow> CList" where
  "append_C L x = L\<lparr>cnodes := cnodes L @ [(cnext_id L, x)], cnext_id := Suc (cnext_id L),
     clength := clength L + 1\<rparr>"

text \<open>The list after linking a new node, and the counters \<open>insertBefore\<close> and
  \<open>insertAfter\<close> update.\<close>

definition with_new_node :: "CList \<Rightarrow> (nat \<times> int) list \<Rightarrow> CList" where
  "with_new_node L ns = L\<lparr>cnodes := ns, cnext_id := Suc (cnext_id L), clength := clength L + 1\<rparr>"

text \<open>\<open>insertBefore(L, x)\<close> (lines 402--438): the undefined-cursor check prints its
  message but does not exit; with \<open>index(L) == 0\<close> the node goes in front, otherwise
  before \<open>L->cursor\<close>, through \<open>L->cursor->previous\<close>.\<close>

definition insertBefore_C :: "CList \<Rightarrow> int \<Rightarrow> CList result" where
  "insertBefore_C L x =
     (if clength L \<le> 0 then Inl (Exit_failure ''List Error: calling insertBefore() on an empty List\<newline>'')
      else if cindex L = 0 then
        rbind (deref (cfront L)) (\<lambda>f.
          Inr ((with_new_node L ((cnext_id L, x) # cnodes L))\<lparr>cindex := cindex L + 1\<rparr>))
      else
        rbind (deref (ccursor L)) (\<lambda>c. rbind (deref (cprev L c)) (\<lambda>p.
          Inr ((with_new_node L (link_before c (cnext_id L, x) (cnodes L)))\<lparr>cindex := cindex L + 1\<rparr>))))"

text \<open>\<open>insertAfter(L, x)\<close> (lines 443--477): neither check exits; with
  \<open>index(L) == length - 1\<close> the node goes after \<open>L->back\<close>, otherwise after
  \<open>L->cursor\<close>, in front of \<open>L->cursor->next\<close>.\<close>

definition insertAfter_C :: "CList \<Rightarrow> int \<Rightarrow> CList result" where
  "insertAfter_C L x =
     (if cindex L = clength L - 1 then
        rbind (deref (cback L)) (\<lambda>b. Inr (with_new_node L (cnodes L @ [(cnext_id L, x)])))
      else
        rbind (deref (ccursor L)) (\<lambda>c. rbind (deref (cnext L c)) (\<lambda>n.
          Inr (with_new_node L (link_before n (cnext_id L, x) (cnodes L))))))"

text \<open>\<open>deleteFront()\<close> (lines 482--521): with more than one node the front moves to
  \<open>front->next\<close>, whose \<open>previous\<close> is cleared; the cursor becomes undefined when
  \<open>index(L) == 0\<close>, and otherwise \<open>index\<close> is decremented.\<close>

definition deleteFront_C :: "CList \<Rightarrow> CList result" where
  "deleteFront_C L =
     (if clength L \<le> 0 then Inl (Exit_failure ''List Error: calling deleteFront() on an empty List\<newline>'')
      else if clength L = 1 then
        Inr (L\<lparr>cnodes := [], ccursor := None, cindex := -1, clength := clength L - 1\<rparr>)
      else rbind (deref (cfront L)) (\<lambda>f. rbind (deref (cnext L f)) (\<lambda>f'.
        Inr (L\<lparr>cnodes := unlink f (cnodes L),
               ccursor := (if cindex L = 0 then None else ccursor L),
               cindex := (if cindex L = 0 then -1 else cindex L - 1),
               clength := clength L - 1\<rparr>))))"

text \<open>\<open>deleteBack()\<close> (lines 526--561).\<close>

definition deleteBack_C :: "CList \<Rightarrow> CList result" where
  "deleteBack_C L =
     (if clength L \<le> 0 then Inl (Exit_failure ''List Error: calling deleteBack() on an empty List\<newline>'')
      else if clength L = 1 then
        Inr (L\<lparr>cnodes := [], ccursor := None, cindex := -1, clength := clength L - 1\<rparr>)
      else rbind (deref (cback L)) (\<lambda>b. rbind (deref (cprev L b)) (\<lambda>b'.
        Inr (L\<lparr>cnodes := unlink b (cnodes L),
               ccursor := (if cindex L = clength L - 1 then None else ccursor L),
               cindex := (if cindex L = clength L - 1 then -1 else cindex L),
               clength := clength L - 1\<rparr>))))"

text \<open>\<open>delete()\<close> (lines 566--619): the node unlinked is the front when
  \<open>index(L) == 0\<close>, the back when \<open>index(L) == length - 1\<close>, the cursor node
  otherwise; the cursor becomes undefined.\<close>

definition delete_C :: "CList \<Rightarrow> CList result" where
  "delete_C L =
     (if clength L \<le> 0 then Inl (Exit_failure ''List Error: calling delete() on an empty List\<newline>'')
      else if cindex L < 0 then Inl (Exit_failure ''List Error: calling delete() with an undefined cursor\<newline>'')
      else let L0 = (\<lambda>ns. L\<lparr>cnodes := ns, ccursor := None, cindex := -1, clength := clength L - 1\<rparr>) in
        if clength L = 1 then Inr (L0 [])
        else if cindex L = 0 then
          rbind (deref (cfront L)) (\<lambda>f. rbind (deref (cnext L f)) (\<lambda>_. Inr (L0 (unlink f (cnodes L)))))
        else if cindex L = clength L - 1 then
          rbind (deref (cback L)) (\<lambda>b. rbind (deref (cprev L b)) (\<lambda>_. Inr (L0 (unlink b (cnodes L)))))
        else
          rbind (deref (ccursor L)) (\<lambda>c. rbind (deref (cprev L c)) (\<lambda>_. rbind (deref (cnext L c)) (\<lambda>_.
            Inr (L0 (unlink c (cnodes L)))))))"

section \<open>Other operations\<close>

text \<open>\<open>printList(out, L)\<close> (lines 626--647): each element followed by a space, then a
  newline.\<close>

definition printList_C :: "CList \<Rightarrow> string" where
  "printList_C L = concat (map (\<lambda>x. string_of_int x @ '' '') (map snd (cnodes L))) @ ''\<newline>''"

text \<open>\<open>copyList(L)\<close> (lines 653--671): \<open>append\<close> of every element to a new list.\<close>

fun append_all_C :: "int list \<Rightarrow> CList \<Rightarrow> CList" where
  "append_all_C [] L = L"
| "append_all_C (x # xs) L = append_all_C xs (append_C L x)"

definition copyList_C :: "CList \<Rightarrow> CList" where
  "copyList_C L = append_all_C (map snd (cnodes L)) newList_C"

section \<open>Invariant and abstraction\<close>

text \<open>
  The list the ADT represents, with the cursor as an index into it; the invariant: node
  identities distinct and below the allocator, \<open>length\<close> right, and a defined cursor
  at the node of position \<open>index\<close>. With an undefined cursor the invariant only asks
  for a negative \<open>index\<close>; the header promises \<open>-1\<close>.
\<close>

definition celems :: "CList \<Rightarrow> int list" where
  "celems L = map snd (cnodes L)"

definition absC :: "CList \<Rightarrow> int list \<times> nat option" where
  "absC L = (celems L, case ccursor L of None \<Rightarrow> None | Some _ \<Rightarrow> Some (nat (cindex L)))"

definition clist_inv :: "CList \<Rightarrow> bool" where
  "clist_inv L =
     (distinct (cids L) \<and> (\<forall>i \<in> set (cids L). i < cnext_id L) \<and> clength L = int (length (cnodes L)) \<and>
      (case ccursor L of None \<Rightarrow> cindex L < 0
       | Some c \<Rightarrow> 0 \<le> cindex L \<and> cindex L < clength L \<and> cids L ! nat (cindex L) = c))"

end
