(* ===== verification/C_List_Refine.thy ===== *)
theory C_List_Refine
  imports C_List
begin

text \<open>
  The contract of \<open>src/pa3/List.h\<close> for the list of \<open>src/pa2/List.c\<close> as an abstract
  machine on (elements, cursor index), and the proof that every call whose documented
  precondition holds is implemented by the pointer-level model. The lemmas give, for each
  manipulation procedure, the state it reaches from a valid state.
\<close>

section \<open>Operations and the abstract machine\<close>

datatype clist_op = CPrepend int | CAppend int | CMoveFront | CMoveBack | CMovePrev | CMoveNext
  | CInsertBefore int | CInsertAfter int | CSet int | CDeleteFront | CDeleteBack | CDelete | CClear

fun stepC :: "clist_op \<Rightarrow> CList \<Rightarrow> CList result" where
  "stepC (CPrepend x) L = Inr (prepend_C L x)"
| "stepC (CAppend x) L = Inr (append_C L x)"
| "stepC CMoveFront L = Inr (moveFront_C L)"
| "stepC CMoveBack L = Inr (moveBack_C L)"
| "stepC CMovePrev L = Inr (movePrev_C L)"
| "stepC CMoveNext L = Inr (moveNext_C L)"
| "stepC (CInsertBefore x) L = insertBefore_C L x"
| "stepC (CInsertAfter x) L = insertAfter_C L x"
| "stepC (CSet x) L = set_C L x"
| "stepC CDeleteFront L = deleteFront_C L"
| "stepC CDeleteBack L = deleteBack_C L"
| "stepC CDelete L = delete_C L"
| "stepC CClear L = Inr (clear_C L)"

fun runC :: "clist_op list \<Rightarrow> CList \<Rightarrow> CList result" where
  "runC [] L = Inr L"
| "runC (c # cs) L = rbind (stepC c L) (runC cs)"

type_synonym clist_abs = "int list \<times> nat option"

text \<open>What \<open>List.h\<close> documents for each call; a violated precondition is the exit with
  the message of \<open>List.c\<close>.\<close>

fun abs_stepC :: "clist_op \<Rightarrow> clist_abs \<Rightarrow> clist_abs result" where
  "abs_stepC (CPrepend x) (xs, cur) = Inr (x # xs, map_option Suc cur)"
| "abs_stepC (CAppend x) (xs, cur) = Inr (xs @ [x], cur)"
| "abs_stepC CMoveFront (xs, cur) = Inr (if xs = [] then (xs, cur) else (xs, Some 0))"
| "abs_stepC CMoveBack (xs, cur) = Inr (if xs = [] then (xs, cur) else (xs, Some (length xs - 1)))"
| "abs_stepC CMovePrev (xs, cur) = Inr (xs, case cur of None \<Rightarrow> None | Some 0 \<Rightarrow> None | Some (Suc i) \<Rightarrow> Some i)"
| "abs_stepC CMoveNext (xs, cur) =
     Inr (xs, case cur of None \<Rightarrow> None | Some i \<Rightarrow> if Suc i < length xs then Some (Suc i) else None)"
| "abs_stepC (CInsertBefore x) (xs, cur) =
     (if xs = [] then Inl (Exit_failure ''List Error: calling insertBefore() on an empty List\<newline>'')
      else case cur of None \<Rightarrow> Inl (Exit_failure ''List Error: calling insertBefore() with an undefined cursor\<newline>'')
      | Some i \<Rightarrow> Inr (take i xs @ x # drop i xs, Some (Suc i)))"
| "abs_stepC (CInsertAfter x) (xs, cur) =
     (if xs = [] then Inl (Exit_failure ''List Error: calling insertAfter() on an empty List\<newline>'')
      else case cur of None \<Rightarrow> Inl (Exit_failure ''List Error: calling insertAfter with an undefined cursor\<newline>'')
      | Some i \<Rightarrow> Inr (take (Suc i) xs @ x # drop (Suc i) xs, Some i))"
| "abs_stepC (CSet x) (xs, cur) =
     (if xs = [] then Inl (Exit_failure ''List Error: calling set() on an empty List\<newline>'')
      else case cur of None \<Rightarrow> Inl (Exit_failure ''List Error: calling set() with an undefined cursor\<newline>'')
      | Some i \<Rightarrow> Inr (xs[i := x], Some i))"
| "abs_stepC CDeleteFront (xs, cur) =
     (if xs = [] then Inl (Exit_failure ''List Error: calling deleteFront() on an empty List\<newline>'')
      else Inr (tl xs, case cur of None \<Rightarrow> None | Some 0 \<Rightarrow> None | Some (Suc i) \<Rightarrow> Some i))"
| "abs_stepC CDeleteBack (xs, cur) =
     (if xs = [] then Inl (Exit_failure ''List Error: calling deleteBack() on an empty List\<newline>'')
      else Inr (butlast xs, case cur of None \<Rightarrow> None | Some i \<Rightarrow> if Suc i = length xs then None else Some i))"
| "abs_stepC CDelete (xs, cur) =
     (if xs = [] then Inl (Exit_failure ''List Error: calling delete() on an empty List\<newline>'')
      else case cur of None \<Rightarrow> Inl (Exit_failure ''List Error: calling delete() with an undefined cursor\<newline>'')
      | Some i \<Rightarrow> Inr (take i xs @ drop (Suc i) xs, None))"
| "abs_stepC CClear _ = Inr ([], None)"

fun abs_runC :: "clist_op list \<Rightarrow> clist_abs \<Rightarrow> clist_abs result" where
  "abs_runC [] s = Inr s"
| "abs_runC (c # cs) s = rbind (abs_stepC c s) (abs_runC cs)"

text \<open>The calls whose documented precondition checks all end in \<open>exit(EXIT_FAILURE)\<close>:
  every call but \<open>insertBefore\<close> and \<open>insertAfter\<close>.\<close>

fun exits_on_violation :: "clist_op \<Rightarrow> bool" where
  "exits_on_violation (CInsertBefore _) = False"
| "exits_on_violation (CInsertAfter _) = False"
| "exits_on_violation _ = True"

section \<open>Lemmas: the representation\<close>

text \<open>A valid state representing \<open>(xs, cur)\<close>, field by field.\<close>

definition crep :: "CList \<Rightarrow> clist_abs \<Rightarrow> bool" where
  "crep L s = (clist_inv L \<and> absC L = s)"

lemma crep_iff:
  "crep L (xs, cur) \<longleftrightarrow>
     distinct (cids L) \<and> (\<forall>i \<in> set (cids L). i < cnext_id L) \<and> clength L = int (length (cnodes L)) \<and>
     celems L = xs \<and>
     (case cur of None \<Rightarrow> ccursor L = None \<and> cindex L < 0
      | Some j \<Rightarrow> j < length (cnodes L) \<and> cindex L = int j \<and> ccursor L = Some (cids L ! j))"
  by (cases "ccursor L"; cases cur) (auto simp: crep_def clist_inv_def absC_def)

lemma length_cids [simp]: "length (cids L) = length (cnodes L)"
  by (simp add: cids_def)

lemma length_celems [simp]: "length (celems L) = length (cnodes L)"
  by (simp add: celems_def)

lemma succ_of_last: "distinct xs \<Longrightarrow> xs \<noteq> [] \<Longrightarrow> succ_of xs (last xs) = None"
  by (induction xs rule: induct_list012) auto

lemma pred_of_notin: "i \<notin> set (tl xs) \<Longrightarrow> pred_of xs i = None"
  by (induction xs rule: induct_list012) auto

lemma cfront_nth: "cnodes L \<noteq> [] \<Longrightarrow> cfront L = Some (cids L ! 0)"
  by (cases "cnodes L") (auto simp: cfront_def cids_def)

lemma cback_nth: "cnodes L \<noteq> [] \<Longrightarrow> cback L = Some (cids L ! (length (cnodes L) - 1))"
  by (simp add: cback_def cids_def last_conv_nth)

lemma cnext_nth:
  "distinct (cids L) \<Longrightarrow> Suc i < length (cnodes L) \<Longrightarrow> cnext L (cids L ! i) = Some (cids L ! Suc i)"
  using succ_of_nth [of "cids L" i] by (simp add: cnext_def)

lemma cnext_last:
  assumes "distinct (cids L)" and "Suc i = length (cnodes L)"
  shows "cnext L (cids L ! i) = None"
proof -
  have ne: "cids L \<noteq> []" using assms(2) by (auto simp: cids_def)
  have "length (cnodes L) - Suc 0 = i" using assms(2) by simp
  then have "cids L ! i = last (cids L)" using ne by (simp add: last_conv_nth)
  then show ?thesis using succ_of_last [OF assms(1) ne] by (simp add: cnext_def)
qed

lemma cprev_nth:
  "distinct (cids L) \<Longrightarrow> Suc i < length (cnodes L) \<Longrightarrow> cprev L (cids L ! Suc i) = Some (cids L ! i)"
  using pred_of_nth [of "cids L" i] by (simp add: cprev_def)

lemma cprev_first:
  assumes "distinct (cids L)" and "cnodes L \<noteq> []"
  shows "cprev L (cids L ! 0) = None"
proof -
  obtain a r where "cids L = a # r" using assms(2) by (cases "cids L") (auto simp: cids_def)
  then show ?thesis using assms(1) pred_of_notin [of a "cids L"] by (simp add: cprev_def)
qed

lemma cids_nth_eq:
  "distinct (cids L) \<Longrightarrow> i < length (cnodes L) \<Longrightarrow> j < length (cnodes L) \<Longrightarrow>
   cids L ! i = cids L ! j \<longleftrightarrow> i = j"
  by (simp add: nth_eq_iff_index_eq)

lemma link_before_nth:
  "distinct (map fst ns) \<Longrightarrow> i < length ns \<Longrightarrow> link_before (fst (ns ! i)) y ns = take i ns @ y # drop i ns"
  using length_takeWhile_nth [of fst ns i] by (simp add: link_before_def)

lemma cnodes_fst_nth: "i < length (cnodes L) \<Longrightarrow> fst (cnodes L ! i) = cids L ! i"
  by (simp add: cids_def)

lemmas crep_simps = crep_iff cids_def celems_def

lemma cviews_upd [simp]:
  "cids (L\<lparr>ccursor := c\<rparr>) = cids L" "cids (L\<lparr>cindex := i\<rparr>) = cids L" "cids (L\<lparr>clength := n\<rparr>) = cids L"
  "celems (L\<lparr>ccursor := c\<rparr>) = celems L" "celems (L\<lparr>cindex := i\<rparr>) = celems L"
  "celems (L\<lparr>clength := n\<rparr>) = celems L"
  by (simp_all add: cids_def celems_def)

lemma int_length_pred [simp]: "xs \<noteq> [] \<Longrightarrow> int (length xs - Suc 0) = int (length xs) - 1"
  by (cases xs) auto

lemma fresh_not_in: "\<forall>i \<in> set (cids L). i < cnext_id L \<Longrightarrow> cnext_id L \<notin> set (cids L)"
  by auto

section \<open>Lemmas: one call at a time\<close>

lemma clear_C_rep: "crep L s \<Longrightarrow> crep (clear_C L) ([], None)"
  by (cases s) (simp add: crep_iff clear_C_def cids_def celems_def)

lemma prepend_C_rep: "crep L (xs, cur) \<Longrightarrow> crep (prepend_C L x) (x # xs, map_option Suc cur)"
  by (cases cur) (auto simp: crep_iff prepend_C_def Let_def cids_def celems_def less_Suc_eq)

lemma append_C_rep: "crep L (xs, cur) \<Longrightarrow> crep (append_C L x) (xs @ [x], cur)"
  by (cases cur) (auto simp: crep_iff append_C_def cids_def celems_def nth_append less_Suc_eq)

lemma moveFront_C_rep:
  "crep L (xs, cur) \<Longrightarrow> crep (moveFront_C L) (if xs = [] then (xs, cur) else (xs, Some 0))"
  by (auto simp: crep_iff moveFront_C_def cfront_nth celems_def)

lemma moveBack_C_rep:
  "crep L (xs, cur) \<Longrightarrow> crep (moveBack_C L) (if xs = [] then (xs, cur) else (xs, Some (length xs - 1)))"
  by (auto simp: crep_iff moveBack_C_def cback_nth celems_def)

lemma movePrev_C_rep:
  assumes "crep L (xs, cur)"
  shows "crep (movePrev_C L) (xs, case cur of None \<Rightarrow> None | Some 0 \<Rightarrow> None | Some (Suc i) \<Rightarrow> Some i)"
proof (cases cur)
  case None
  then show ?thesis using assms by (simp add: crep_iff movePrev_C_def)
next
  case (Some j)
  note r = assms [unfolded crep_iff Some, simplified]
  have ne: "cnodes L \<noteq> []" using r by auto
  show ?thesis
  proof (cases j)
    case 0
    then show ?thesis using assms Some ne by (auto simp: crep_iff movePrev_C_def cfront_nth)
  next
    case (Suc i)
    have "cids L ! j \<noteq> cids L ! 0" using r Suc cids_nth_eq [of L j 0] ne by auto
    moreover have "cprev L (cids L ! j) = Some (cids L ! i)" using r Suc cprev_nth [of L i] by auto
    ultimately show ?thesis using assms Some Suc ne by (auto simp: crep_iff movePrev_C_def cfront_nth)
  qed
qed

lemma moveNext_C_rep:
  assumes "crep L (xs, cur)"
  shows "crep (moveNext_C L) (xs, case cur of None \<Rightarrow> None | Some i \<Rightarrow> if Suc i < length xs then Some (Suc i) else None)"
proof (cases cur)
  case None
  then show ?thesis using assms by (simp add: crep_iff moveNext_C_def)
next
  case (Some j)
  note r = assms [unfolded crep_iff Some, simplified]
  have ne: "cnodes L \<noteq> []" using r by auto
  show ?thesis
  proof (cases "Suc j < length xs")
    case True
    have "cids L ! j \<noteq> cids L ! (length (cnodes L) - 1)"
      using r True cids_nth_eq [of L j "length (cnodes L) - 1"] by (auto simp: celems_def)
    moreover have "cnext L (cids L ! j) = Some (cids L ! Suc j)" using r True cnext_nth [of L j] by (auto simp: celems_def)
    ultimately show ?thesis using assms Some True ne by (auto simp: crep_iff moveNext_C_def cback_nth celems_def)
  next
    case False
    then have "j = length (cnodes L) - 1" using r by (auto simp: celems_def)
    then show ?thesis using assms Some False ne by (auto simp: crep_iff moveNext_C_def cback_nth)
  qed
qed

text \<open>A node list edited at one position, with the cursor fields given for the result.\<close>

lemma crep_insert_at:
  assumes "crep L (xs, cur)" and "k \<le> length (cnodes L)"
    and "cnodes L' = take k (cnodes L) @ (cnext_id L, x) # drop k (cnodes L)"
    and "cnext_id L' = Suc (cnext_id L)" and "clength L' = clength L + 1"
    and "case cur' of None \<Rightarrow> ccursor L' = None \<and> cindex L' < 0
         | Some j \<Rightarrow> j < length (cnodes L') \<and> cindex L' = int j \<and> ccursor L' = Some (cids L' ! j)"
  shows "crep L' (take k xs @ x # drop k xs, cur')"
proof -
  note r = assms(1) [unfolded crep_iff, simplified]
  have ids: "cids L' = take k (cids L) @ cnext_id L # drop k (cids L)"
    using assms(3) by (simp add: cids_def take_map drop_map)
  have "distinct (cids L')" using r fresh_not_in [of L] unfolding ids distinct_insert_at by simp
  moreover have "\<forall>i \<in> set (cids L'). i < cnext_id L'"
  proof
    fix j assume "j \<in> set (cids L')"
    then have "j = cnext_id L \<or> j \<in> set (cids L)" unfolding ids by (auto dest: in_set_takeD in_set_dropD)
    then show "j < cnext_id L'" using r assms(4) by auto
  qed
  moreover have "celems L' = take k (celems L) @ x # drop k (celems L)"
    using assms(3) by (simp add: celems_def take_map drop_map)
  moreover have "celems L = xs" using assms(1) by (simp add: crep_iff)
  moreover have "clength L' = int (length (cnodes L'))" using r assms(3,5) assms(2) by simp
  ultimately show ?thesis using assms(6) by (simp add: crep_iff)
qed

lemma crep_remove_at:
  assumes "crep L (xs, cur)" and "k < length (cnodes L)"
    and "cnodes L' = take k (cnodes L) @ drop (Suc k) (cnodes L)"
    and "cnext_id L' = cnext_id L" and "clength L' = clength L - 1"
    and "case cur' of None \<Rightarrow> ccursor L' = None \<and> cindex L' < 0
         | Some j \<Rightarrow> j < length (cnodes L') \<and> cindex L' = int j \<and> ccursor L' = Some (cids L' ! j)"
  shows "crep L' (take k xs @ drop (Suc k) xs, cur')"
proof -
  note r = assms(1) [unfolded crep_iff, simplified]
  have ids: "cids L' = take k (cids L) @ drop (Suc k) (cids L)"
    using assms(3) by (simp add: cids_def take_map drop_map)
  have "distinct (cids L)" using r by simp
  then have "distinct (cids L')" unfolding ids by (rule distinct_remove_at)
  moreover have "\<forall>i \<in> set (cids L'). i < cnext_id L'"
    using r ids assms(4) set_remove_at [of k "cids L"] by auto
  moreover have "celems L' = take k (celems L) @ drop (Suc k) (celems L)"
    using assms(3) by (simp add: celems_def take_map drop_map)
  moreover have "celems L = xs" using assms(1) by (simp add: crep_iff)
  moreover have "clength L' = int (length (cnodes L'))" using r assms(3,5) assms(2) by simp
  ultimately show ?thesis using assms(6) by (simp add: crep_iff)
qed

lemma unlink_cids_nth:
  "crep L s \<Longrightarrow> k < length (cnodes L) \<Longrightarrow> unlink (cids L ! k) (cnodes L) = take k (cnodes L) @ drop (Suc k) (cnodes L)"
  using unlink_nth [of "cnodes L" k] by (cases s) (simp add: crep_iff cids_def)

lemma link_before_cids_nth:
  "crep L s \<Longrightarrow> k < length (cnodes L) \<Longrightarrow> link_before (cids L ! k) y (cnodes L) = take k (cnodes L) @ y # drop k (cnodes L)"
  using link_before_nth [of "cnodes L" k y] by (cases s) (simp add: crep_iff cids_def)

lemma insertBefore_C_rep:
  assumes "crep L (xs, Some i)"
  shows "\<exists>L'. insertBefore_C L x = Inr L' \<and> crep L' (take i xs @ x # drop i xs, Some (Suc i))"
proof -
  note r = assms [unfolded crep_iff, simplified]
  let ?ns = "take i (cnodes L) @ (cnext_id L, x) # drop i (cnodes L)"
  let ?L' = "(with_new_node L ?ns)\<lparr>cindex := cindex L + 1\<rparr>"
  have step: "insertBefore_C L x = Inr ?L'"
  proof (cases i)
    case 0
    then show ?thesis using r cfront_nth [of L] by (auto simp: insertBefore_C_def deref_def)
  next
    case (Suc k)
    have "cprev L (cids L ! i) = Some (cids L ! k)" using r Suc cprev_nth [of L k] by auto
    then show ?thesis using r Suc link_before_cids_nth [OF assms, of i] by (auto simp: insertBefore_C_def deref_def)
  qed
  have "cids ?L' ! Suc i = cids L ! i" using r by (simp add: with_new_node_def cids_def nth_append min_def)
  then have "crep ?L' (take i xs @ x # drop i xs, Some (Suc i))"
    using r by (intro crep_insert_at [OF assms, of i]) (auto simp: with_new_node_def)
  then show ?thesis using step by blast
qed

lemma insertAfter_C_rep:
  assumes "crep L (xs, Some i)"
  shows "\<exists>L'. insertAfter_C L x = Inr L' \<and> crep L' (take (Suc i) xs @ x # drop (Suc i) xs, Some i)"
proof -
  note r = assms [unfolded crep_iff, simplified]
  let ?ns = "take (Suc i) (cnodes L) @ (cnext_id L, x) # drop (Suc i) (cnodes L)"
  let ?L' = "with_new_node L ?ns"
  have step: "insertAfter_C L x = Inr ?L'"
  proof (cases "Suc i = length (cnodes L)")
    case True
    then have "cnodes L \<noteq> []" "length (cnodes L) - 1 = i" by auto
    then have "cback L = Some (cids L ! i)" using cback_nth [of L] by simp
    then show ?thesis using r True by (simp add: insertAfter_C_def deref_def)
  next
    case False
    then have lt: "Suc i < length (cnodes L)" using r by simp
    have "cnext L (cids L ! i) = Some (cids L ! Suc i)" using r lt cnext_nth [of L i] by auto
    then show ?thesis using r lt False link_before_cids_nth [OF assms lt] by (auto simp: insertAfter_C_def deref_def)
  qed
  have "cids ?L' ! i = cids L ! i" using r by (simp add: with_new_node_def cids_def nth_append min_def)
  then have "crep ?L' (take (Suc i) xs @ x # drop (Suc i) xs, Some i)"
    using r by (intro crep_insert_at [OF assms, of "Suc i"]) (auto simp: with_new_node_def)
  then show ?thesis using step by blast
qed

lemma map_update_key:
  "distinct (map fst ns) \<Longrightarrow> i < length ns \<Longrightarrow>
   map (\<lambda>p. if fst p = fst (ns ! i) then (fst (ns ! i), x) else p) ns = ns[i := (fst (ns ! i), x)]"
proof (rule nth_equalityI)
  fix j assume "distinct (map fst ns)" "i < length ns" "j < length (map (\<lambda>p. if fst p = fst (ns ! i) then (fst (ns ! i), x) else p) ns)"
  then show "map (\<lambda>p. if fst p = fst (ns ! i) then (fst (ns ! i), x) else p) ns ! j = ns[i := (fst (ns ! i), x)] ! j"
    using nth_eq_iff_index_eq [of "map fst ns" j i] by (cases "j = i") auto
qed simp

lemma set_C_rep:
  assumes "crep L (xs, Some i)"
  shows "\<exists>L'. set_C L x = Inr L' \<and> crep L' (xs[i := x], Some i)"
proof -
  note r = assms [unfolded crep_iff, simplified]
  let ?L' = "L\<lparr>cnodes := (cnodes L)[i := (cids L ! i, x)]\<rparr>"
  have "set_C L x = Inr ?L'"
    using r map_update_key [of "cnodes L" i x] by (auto simp: set_C_def deref_def cids_def)
  moreover have "cids ?L' = cids L"
    using r list_update_id [of "map fst (cnodes L)" i] by (simp add: cids_def map_update)
  moreover have "celems ?L' = xs[i := x]" using r by (simp add: celems_def map_update)
  ultimately show ?thesis using r by (auto simp: crep_iff)
qed

lemma deleteFront_C_rep:
  assumes "crep L (xs, cur)" and "xs \<noteq> []"
  shows "\<exists>L'. deleteFront_C L = Inr L' \<and>
    crep L' (tl xs, case cur of None \<Rightarrow> None | Some 0 \<Rightarrow> None | Some (Suc i) \<Rightarrow> Some i)"
proof -
  note r = assms(1) [unfolded crep_iff, simplified]
  have n: "0 < length (cnodes L)" using r assms(2) by (auto simp: celems_def)
  show ?thesis
  proof (cases "length (cnodes L) = 1")
    case True
    then have "tl xs = []" using r by (cases "cnodes L") (auto simp: celems_def)
    then show ?thesis using r True
      by (cases cur rule: option.exhaust [case_product nat.exhaust])
        (auto simp: deleteFront_C_def crep_iff cids_def celems_def)
  next
    case False
    then have two: "Suc 0 < length (cnodes L)" using n by arith
    let ?L' = "L\<lparr>cnodes := unlink (cids L ! 0) (cnodes L),
       ccursor := (if cindex L = 0 then None else ccursor L),
       cindex := (if cindex L = 0 then -1 else cindex L - 1), clength := clength L - 1\<rparr>"
    have "deleteFront_C L = Inr ?L'"
      using r n False cfront_nth [of L] cnext_nth [of L 0] two by (simp add: deleteFront_C_def deref_def)
    moreover have "crep ?L' (take 0 xs @ drop (Suc 0) xs,
        case cur of None \<Rightarrow> None | Some 0 \<Rightarrow> None | Some (Suc i) \<Rightarrow> Some i)"
    proof (rule crep_remove_at [OF assms(1) n])
      show "cnodes ?L' = take 0 (cnodes L) @ drop (Suc 0) (cnodes L)"
        using unlink_cids_nth [OF assms(1) n] by simp
      have "cids ?L' = drop 1 (cids L)" using unlink_cids_nth [OF assms(1) n] by (simp add: cids_def drop_map)
      then show "case case cur of None \<Rightarrow> None | Some 0 \<Rightarrow> None | Some (Suc i) \<Rightarrow> Some i of
          None \<Rightarrow> ccursor ?L' = None \<and> cindex ?L' < 0
        | Some j \<Rightarrow> j < length (cnodes ?L') \<and> cindex ?L' = int j \<and> ccursor ?L' = Some (cids ?L' ! j)"
        using r unlink_cids_nth [OF assms(1) n] by (auto split: option.splits nat.splits)
    qed simp_all
    ultimately show ?thesis by (auto simp: drop_Suc)
  qed
qed

lemma deleteBack_C_rep:
  assumes "crep L (xs, cur)" and "xs \<noteq> []"
  shows "\<exists>L'. deleteBack_C L = Inr L' \<and>
    crep L' (butlast xs, case cur of None \<Rightarrow> None | Some i \<Rightarrow> if Suc i = length xs then None else Some i)"
proof -
  note r = assms(1) [unfolded crep_iff, simplified]
  have n: "0 < length (cnodes L)" using r assms(2) by (auto simp: celems_def)
  have lx: "length xs = length (cnodes L)" using r by (auto simp: celems_def)
  show ?thesis
  proof (cases "length (cnodes L) = 1")
    case True
    then have "butlast xs = []" using lx by (cases xs) auto
    then show ?thesis using r True lx by (auto simp: deleteBack_C_def crep_iff cids_def celems_def split: option.splits)
  next
    case False
    let ?k = "length (cnodes L) - 1"
    have k: "?k < length (cnodes L)" "Suc (?k - 1) = ?k" "Suc (?k - 1) < length (cnodes L)"
      using n False by arith+
    let ?L' = "L\<lparr>cnodes := unlink (cids L ! ?k) (cnodes L),
       ccursor := (if cindex L = clength L - 1 then None else ccursor L),
       cindex := (if cindex L = clength L - 1 then -1 else cindex L), clength := clength L - 1\<rparr>"
    have "cprev L (cids L ! ?k) = Some (cids L ! (?k - 1))" using r cprev_nth [of L "?k - 1"] k by auto
    then have "deleteBack_C L = Inr ?L'"
      using r n False cback_nth [of L] by (simp add: deleteBack_C_def deref_def)
    moreover have "crep ?L' (take ?k xs @ drop (Suc ?k) xs,
        case cur of None \<Rightarrow> None | Some i \<Rightarrow> if Suc i = length xs then None else Some i)"
    proof (rule crep_remove_at [OF assms(1) k(1)])
      show "cnodes ?L' = take ?k (cnodes L) @ drop (Suc ?k) (cnodes L)"
        using unlink_cids_nth [OF assms(1) k(1)] by simp
      have "cids ?L' = take ?k (cids L)" using unlink_cids_nth [OF assms(1) k(1)] n by (simp add: cids_def take_map)
      then show "case case cur of None \<Rightarrow> None | Some i \<Rightarrow> if Suc i = length xs then None else Some i of
          None \<Rightarrow> ccursor ?L' = None \<and> cindex ?L' < 0
        | Some j \<Rightarrow> j < length (cnodes ?L') \<and> cindex ?L' = int j \<and> ccursor ?L' = Some (cids ?L' ! j)"
        using r lx n unlink_cids_nth [OF assms(1) k(1)] by (cases cur) auto
    qed simp_all
    moreover have "take ?k xs @ drop (Suc ?k) xs = butlast xs" using lx by (simp add: butlast_conv_take)
    ultimately show ?thesis by auto
  qed
qed

lemma delete_C_rep:
  assumes "crep L (xs, Some i)"
  shows "\<exists>L'. delete_C L = Inr L' \<and> crep L' (take i xs @ drop (Suc i) xs, None)"
proof -
  note r = assms [unfolded crep_iff, simplified]
  have i: "i < length (cnodes L)" using r by simp
  then have ne: "cnodes L \<noteq> []" by auto
  let ?L' = "L\<lparr>cnodes := take i (cnodes L) @ drop (Suc i) (cnodes L), ccursor := None, cindex := -1,
     clength := clength L - 1\<rparr>"
  have ul: "unlink (cids L ! i) (cnodes L) = take i (cnodes L) @ drop (Suc i) (cnodes L)"
    by (rule unlink_cids_nth [OF assms i])
  have "delete_C L = Inr ?L'"
  proof (cases "length (cnodes L) = 1")
    case True
    then show ?thesis using r by (simp add: delete_C_def)
  next
    case False
    show ?thesis
    proof (cases "i = 0")
      case True
      have "Suc 0 < length (cnodes L)" using r False by (cases "cnodes L") auto
      then have "cnext L (cids L ! 0) = Some (cids L ! Suc 0)" using r cnext_nth [of L 0] by simp
      then show ?thesis using r False True cfront_nth [of L] ul
        by (simp add: delete_C_def deref_def)
    next
      case ne0: False
      have p: "cprev L (cids L ! i) = Some (cids L ! (i - 1))" using r ne0 cprev_nth [of L "i - 1"] by auto
      show ?thesis
      proof (cases "Suc i = length (cnodes L)")
        case True
        have "cback L = Some (cids L ! i)" using cback_nth [OF ne] by (simp add: True [symmetric])
        then show ?thesis using r False ne0 True p ul ne by (simp add: delete_C_def deref_def)
      next
        case nb: False
        have "cnext L (cids L ! i) = Some (cids L ! Suc i)" using r nb cnext_nth [of L i] by auto
        then show ?thesis using r False ne0 nb p ul ne by (simp add: delete_C_def deref_def)
      qed
    qed
  qed
  moreover have "crep ?L' (take i xs @ drop (Suc i) xs, None)"
    by (rule crep_remove_at [OF assms i]) (use r in simp_all)
  ultimately show ?thesis by auto
qed

section \<open>Lemmas: access functions, equality and copying\<close>

lemma newList_C_rep: "crep newList_C ([], None)"
  by (simp add: crep_iff newList_C_def cids_def celems_def)

lemma cdata_nth:
  "distinct (cids L) \<Longrightarrow> j < length (cnodes L) \<Longrightarrow> cdata L (cids L ! j) = Inr (celems L ! j)"
proof -
  assume d: "distinct (cids L)" and j: "j < length (cnodes L)"
  have "(cids L ! j, snd (cnodes L ! j)) \<in> set (cnodes L)"
    using j nth_mem [OF j] by (simp add: cids_def)
  then have "map_of (cnodes L) (cids L ! j) = Some (snd (cnodes L ! j))"
    using d by (simp add: cids_def)
  then show ?thesis using j by (simp add: cdata_def celems_def)
qed

lemma get_C_rep: "crep L (xs, Some i) \<Longrightarrow> get_C L = Inr (xs ! i)"
  by (auto simp: crep_iff get_C_def deref_def cdata_nth)

lemma front_C_rep: "crep L (xs, cur) \<Longrightarrow> xs \<noteq> [] \<Longrightarrow> front_C L = Inr (hd xs)"
  using cfront_nth [of L] cdata_nth [of L 0]
  by (auto simp: crep_iff front_C_def deref_def celems_def hd_conv_nth)

lemma back_C_rep: "crep L (xs, cur) \<Longrightarrow> xs \<noteq> [] \<Longrightarrow> back_C L = Inr (last xs)"
  using cback_nth [of L] cdata_nth [of L "length (cnodes L) - 1"]
  by (auto simp: crep_iff back_C_def deref_def celems_def last_conv_nth)

lemma equals_C_loop_eq: "length xs = length ys \<Longrightarrow> equals_C_loop xs ys \<longleftrightarrow> xs = ys"
  by (induction xs ys rule: equals_C_loop.induct) auto

lemma equals_C_rep: "crep A (xs, c) \<Longrightarrow> crep B (ys, d) \<Longrightarrow> equals_C A B \<longleftrightarrow> xs = ys"
  by (auto simp: crep_iff equals_C_def celems_def equals_C_loop_eq dest: map_eq_imp_length_eq)

lemma append_all_C_rep: "crep L (ys, cur) \<Longrightarrow> crep (append_all_C xs L) (ys @ xs, cur)"
proof (induction xs arbitrary: L ys)
  case (Cons x xs)
  from Cons.IH [OF append_C_rep [OF Cons.prems]] show ?case by simp
qed simp

section \<open>Lemmas: simulation of operation sequences\<close>

lemma stepC_refine:
  assumes "crep L s" and "abs_stepC c s = Inr s'"
  shows "\<exists>L'. stepC c L = Inr L' \<and> crep L' s'"
proof (cases s)
  case (Pair xs cur)
  note a = assms [unfolded Pair]
  show ?thesis
  proof (cases c)
    case (CInsertBefore x)
    then show ?thesis using a insertBefore_C_rep [of L xs _ x] by (auto split: if_splits option.splits)
  next
    case (CInsertAfter x)
    then show ?thesis using a insertAfter_C_rep [of L xs _ x] by (auto split: if_splits option.splits)
  next
    case (CSet x)
    then show ?thesis using a set_C_rep [of L xs _ x] by (auto split: if_splits option.splits)
  next
    case CDeleteFront
    then show ?thesis using a deleteFront_C_rep [of L xs cur] by (auto split: if_splits)
  next
    case CDeleteBack
    then show ?thesis using a deleteBack_C_rep [of L xs cur] by (auto split: if_splits)
  next
    case CDelete
    then show ?thesis using a delete_C_rep [of L xs] by (auto split: if_splits option.splits)
  qed (use a clear_C_rep prepend_C_rep append_C_rep moveFront_C_rep moveBack_C_rep movePrev_C_rep
         moveNext_C_rep in auto)
qed

lemma crep_empty_iff: "crep L (xs, cur) \<Longrightarrow> clength L \<le> 0 \<longleftrightarrow> xs = []"
  by (auto simp: crep_iff celems_def)

lemma crep_undef_iff: "crep L (xs, cur) \<Longrightarrow> cindex L < 0 \<longleftrightarrow> cur = None"
  by (cases cur) (auto simp: crep_iff)

lemma cback_empty: "cnodes L = [] \<Longrightarrow> cback L = None"
  by (simp add: cback_def)

lemma stepC_error:
  assumes "crep L (xs, cur)" and "abs_stepC c (xs, cur) = Inl e" and "exits_on_violation c"
  shows "stepC c L = Inl e"
proof -
  have e: "clength L \<le> 0 \<longleftrightarrow> xs = []" "cindex L < 0 \<longleftrightarrow> cur = None"
    using crep_empty_iff [OF assms(1)] crep_undef_iff [OF assms(1)] by auto
  show ?thesis using assms(2,3) e
    by (cases c) (auto simp: set_C_def deleteFront_C_def deleteBack_C_def delete_C_def split: if_splits option.splits)
qed

lemma insertBefore_C_undef:
  assumes "crep L (xs, None)" and "xs \<noteq> []"
  shows "insertBefore_C L x = Inl Null_dereference"
proof -
  have "0 < clength L" "cindex L < 0" "ccursor L = None"
    using assms crep_empty_iff [OF assms(1)] crep_undef_iff [OF assms(1)] by (auto simp: crep_iff)
  then show ?thesis by (simp add: insertBefore_C_def deref_def)
qed

lemma insertAfter_C_undef:
  assumes "crep L (xs, None)"
  shows "insertAfter_C L x = Inl Null_dereference"
proof -
  have "cindex L < 0" "ccursor L = None" "xs = [] \<longleftrightarrow> cnodes L = []" "0 \<le> clength L"
    using assms crep_undef_iff [OF assms(1)] by (auto simp: crep_iff celems_def)
  then show ?thesis using crep_empty_iff [OF assms(1)] cback_empty [of L]
    by (auto simp: insertAfter_C_def deref_def)
qed

lemma runC_refine:
  "crep L s \<Longrightarrow> abs_runC cs s = Inr s' \<Longrightarrow> \<exists>L'. runC cs L = Inr L' \<and> crep L' s'"
proof (induction cs arbitrary: L s)
  case (Cons c cs)
  then obtain t where t: "abs_stepC c s = Inr t" "abs_runC cs t = Inr s'" by (auto simp: rbind_eq_Inr)
  with stepC_refine [OF Cons.prems(1) t(1)] obtain L1 where "stepC c L = Inr L1" "crep L1 t" by auto
  with Cons.IH [OF _ t(2)] show ?case by auto
qed (simp add: crep_def)

lemma runC_exits:
  "crep L s \<Longrightarrow> \<forall>c \<in> set cs. exits_on_violation c \<Longrightarrow> abs_runC cs s = Inl e \<Longrightarrow> runC cs L = Inl e"
proof (induction cs arbitrary: L s)
  case (Cons c cs)
  obtain xs cur where s: "s = (xs, cur)" by fastforce
  show ?case
  proof (cases "abs_stepC c s")
    case (Inl e')
    then show ?thesis using Cons.prems stepC_error [of L xs cur c e'] s by auto
  next
    case (Inr t)
    with stepC_refine [OF Cons.prems(1) Inr] obtain L1 where "stepC c L = Inr L1" "crep L1 t" by auto
    with Cons.IH [of L1 t] Cons.prems Inr show ?thesis by auto
  qed
qed simp

section \<open>Properties of the C list\<close>

lemma crep_absC: "clist_inv L \<Longrightarrow> crep L (absC L)"
  by (simp add: crep_def)

lemma absC_undef: "clist_inv L \<Longrightarrow> cindex L < 0 \<Longrightarrow> absC L = (celems L, None)"
  by (cases "ccursor L") (auto simp: clist_inv_def absC_def)



text \<open>C33. \<open>insertBefore()\<close> and \<open>insertAfter()\<close> on a non-empty list with an undefined
  cursor print the precondition message but do not exit: both then follow the
  \<open>NULL\<close> cursor, a null dereference.\<close>

theorem insert_undefined_null_deref:
  assumes "clist_inv L" and "index_C L < 0" and "0 < length_C L"
  shows "insertBefore_C L x = Inl Null_dereference \<and> insertAfter_C L y = Inl Null_dereference"
proof -
  have r: "crep L (celems L, None)"
    using crep_absC [OF assms(1)] absC_undef [OF assms(1)] assms(2) by (simp add: index_C_def)
  have "celems L \<noteq> []" using crep_empty_iff [OF r] assms(3) by (simp add: length_C_def)
  then show ?thesis using insertBefore_C_undef [OF r] insertAfter_C_undef [OF r] by simp
qed

text \<open>C34. \<open>deleteFront()\<close> on a list of two or more elements whose cursor is undefined
  decrements \<open>index\<close> all the same: \<open>index()\<close> then returns \<open>-2\<close>, where the header
  promises \<open>-1\<close> for an undefined cursor.\<close>

theorem deleteFront_undefined_index:
  assumes "clist_inv L" and "index_C L = -1" and "1 < length_C L"
  shows "\<exists>L'. deleteFront_C L = Inr L' \<and> index_C L' = -2"
proof -
  have r: "crep L (celems L, None)"
    using crep_absC [OF assms(1)] absC_undef [OF assms(1)] assms(2) by (simp add: index_C_def)
  have "celems L \<noteq> []" using crep_empty_iff [OF r] assms(3) by (simp add: length_C_def)
  then obtain L' where L': "deleteFront_C L = Inr L'" using deleteFront_C_rep [OF r] by blast
  then have "index_C L' = -2" using assms(2,3)
    by (auto simp: deleteFront_C_def index_C_def length_C_def rbind_eq_Inr)
  with L' show ?thesis by blast
qed

text \<open>C35. \<open>copyList(L)\<close> returns a valid list with the elements of \<open>L\<close> in order and
  an undefined cursor.\<close>

theorem copyList_C_spec:
  "clist_inv L \<Longrightarrow> clist_inv (copyList_C L) \<and> absC (copyList_C L) = (celems L, None)"
  using append_all_C_rep [OF newList_C_rep, of "map snd (cnodes L)"]
  by (simp add: copyList_C_def crep_def celems_def)

text \<open>C36. \<open>equals(A, B)\<close> on valid lists is true exactly when they hold the same
  sequence; the cursors are not compared, though the comment says "same state".\<close>

theorem equals_C_iff:
  "clist_inv A \<Longrightarrow> clist_inv B \<Longrightarrow> equals_C A B \<longleftrightarrow> celems A = celems B"
  using equals_C_rep [of A "celems A" _ B "celems B"] crep_absC [of A] crep_absC [of B]
  by (auto simp: absC_def)

end
