(* ===== verification/Graph.thy ===== *)
theory Graph
  imports C_List_Refine
begin

text \<open>
  The graph ADT of \<open>src/pa2/Graph.c\<close>: adjacency lists of the pa2 \<open>List\<close> type, the
  arrays \<open>color\<close>, \<open>parent\<close>, \<open>distance\<close>, and breadth-first search. Every call the
  graph makes on a list is the \<open>List.c\<close> function of \<open>C_List\<close>, so a failure of a list
  call (an exit or a null dereference) is a failure of the graph operation. The loops
  whose guard reads the list cursor are \<open>partial_function (option)\<close>: on a corrupt
  list they need not end, and their termination on valid graphs is a theorem.
\<close>

section \<open>Constants and state\<close>

text \<open>The macros of \<open>src/pa2/Graph.h\<close> (lines 15--19).\<close>

definition INF_G :: int where "INF_G = -1"
definition NIL :: int where "NIL = 0"
definition WHITE :: int where "WHITE = 0"
definition GRAY :: int where "GRAY = 1"
definition BLACK_G :: int where "BLACK_G = 2"

text \<open>\<open>GraphObj\<close> (lines 16--25). The arrays have \<open>n + 1\<close> cells indexed by the
  vertex label; cell 0 is allocated and never read. \<open>gsize\<close> and \<open>gcolor\<close> are the fields \<open>size\<close> and \<open>color\<close>.\<close>

record Graph =
  neighbors :: "CList list"
  gcolor :: "int list"
  parent :: "int list"
  distance :: "int list"
  order :: int
  gsize :: int
  source :: int

text \<open>The counting loop \<open>for (i = a; k iterations; i++) s = f i s\<close> of the
  initialisation and printing code.\<close>

primrec for_loop :: "nat \<Rightarrow> nat \<Rightarrow> (nat \<Rightarrow> 'a \<Rightarrow> 'a) \<Rightarrow> 'a \<Rightarrow> 'a" where
  "for_loop 0 i f s = s"
| "for_loop (Suc k) i f s = for_loop k (Suc i) f (f i s)"

definition graph_exit :: "string \<Rightarrow> 'a result" where
  "graph_exit msg = Inl (Exit_failure msg)"

definition invalid_vertex :: "Graph \<Rightarrow> int \<Rightarrow> bool" where
  "invalid_vertex G u = (u < 1 \<or> u > order G)"

section \<open>Constructor and access functions\<close>

text \<open>\<open>newGraph(n)\<close> (lines 32--60): every vertex \<open>1..n\<close> gets a new empty list, colour
  \<open>WHITE\<close>, parent \<open>NIL\<close> and distance \<open>INF\<close>. Cell 0, which \<open>malloc\<close> leaves
  uninitialised, holds the same values here; no operation reads it.\<close>

definition newGraph :: "int \<Rightarrow> Graph" where
  "newGraph n =
     (let m = nat (n + 1);
          G0 = \<lparr>neighbors = replicate m newList_C, gcolor = replicate m WHITE,
                parent = replicate m NIL, distance = replicate m INF_G,
                order = n, gsize = 0, source = NIL\<rparr>
      in for_loop (nat n) 1 (\<lambda>i G. G\<lparr>neighbors := (neighbors G)[i := newList_C],
           gcolor := (gcolor G)[i := WHITE], parent := (parent G)[i := NIL],
           distance := (distance G)[i := INF_G]\<rparr>) G0)"

text \<open>\<open>getOrder\<close>, \<open>getSize\<close>, \<open>getSource\<close> (lines 94--126).\<close>

definition getOrder :: "Graph \<Rightarrow> int" where
  "getOrder G = order G"

definition getSize :: "Graph \<Rightarrow> int" where
  "getSize G = gsize G"

definition getSource :: "Graph \<Rightarrow> int" where
  "getSource G = source G"

text \<open>\<open>getParent\<close>, \<open>getDist\<close> (lines 132--164).\<close>

definition getParent :: "Graph \<Rightarrow> int \<Rightarrow> int result" where
  "getParent G u = (if invalid_vertex G u
     then graph_exit ''Graph Error: calling getParent() with an invalid vertex\<newline>''
     else Inr (parent G ! nat u))"

definition getDist :: "Graph \<Rightarrow> int \<Rightarrow> int result" where
  "getDist G u = (if invalid_vertex G u
     then graph_exit ''Graph Error: calling getDist() with an invalid vertex\<newline>''
     else Inr (distance G ! nat u))"

text \<open>\<open>getPath(L, G, u)\<close> (lines 171--223), recursive through \<open>parent\<close>: it ends only
  when the parent chain from \<open>u\<close> reaches the source or \<open>NIL\<close>.\<close>

partial_function (option) getPath :: "CList \<Rightarrow> Graph \<Rightarrow> int \<Rightarrow> CList result option" where
  "getPath L G u =
     (if invalid_vertex G u then Some (graph_exit ''Graph Error: calling getPath() with an invalid vertex\<newline>'')
      else if getSource G = NIL then Some (graph_exit ''Graph Error: calling getPath() before BFS() is called\<newline>'')
      else if u = getSource G then Some (Inr (append_C L u))
      else if parent G ! nat u = NIL then Some (Inr (append_C L NIL))
      else Option.bind (getPath L G (parent G ! nat u)) (\<lambda>r. Some (rbind r (\<lambda>L'. Inr (append_C L' u)))))"

section \<open>Manipulation procedures\<close>

text \<open>\<open>makeNull(G)\<close> (lines 230--244): \<open>clear\<close> on every adjacency list, size 0.\<close>

definition makeNull :: "Graph \<Rightarrow> Graph" where
  "makeNull G =
     (for_loop (nat (order G)) 1 (\<lambda>i G. G\<lparr>neighbors := (neighbors G)[i := clear_C (neighbors G ! i)]\<rparr>) G)
     \<lparr>gsize := 0\<rparr>"

text \<open>The sorted insertion of \<open>addEdge\<close> and \<open>addArc\<close>, written out three times in the
  source (lines 266--290, 296--314 and 339--362): prepend when the list is empty or
  the new label is below the front, otherwise walk the cursor from the front and
  \<open>insertBefore\<close> the first larger element (\<open>break\<close>), appending when the walk falls
  off the end.\<close>

partial_function (option) insert_walk :: "CList \<Rightarrow> int \<Rightarrow> CList result option" where
  "insert_walk L u =
     (if 0 \<le> index_C L then
        (case get_C L of Inl e \<Rightarrow> Some (Inl e)
         | Inr w \<Rightarrow> if u < w then Some (insertBefore_C L u) else insert_walk (moveNext_C L) u)
      else Some (Inr L))"

definition insert_sorted :: "CList \<Rightarrow> int \<Rightarrow> CList result option" where
  "insert_sorted L u =
     (if length_C L = 0 then Some (Inr (prepend_C L u))
      else case front_C L of Inl e \<Rightarrow> Some (Inl e)
        | Inr f \<Rightarrow> if u < f then Some (Inr (prepend_C L u))
            else Option.bind (insert_walk (moveFront_C L) u) (\<lambda>r. Some (rbind r (\<lambda>L'.
                   Inr (if index_C L' = -1 then append_C L' u else L')))))"

text \<open>Inserting into the adjacency list of vertex \<open>v\<close> of the graph.\<close>

definition insert_neighbor :: "Graph \<Rightarrow> int \<Rightarrow> int \<Rightarrow> Graph result option" where
  "insert_neighbor G v u =
     Option.bind (insert_sorted (neighbors G ! nat v) u) (\<lambda>r. Some (rbind r (\<lambda>L.
       Inr (G\<lparr>neighbors := (neighbors G)[nat v := L]\<rparr>))))"

text \<open>\<open>addEdge(G, u, v)\<close> (lines 251--318): \<open>u\<close> into the list of \<open>v\<close>, then \<open>v\<close> into
  the list of \<open>u\<close> (the same list when \<open>u = v\<close>), then \<open>size++\<close>.\<close>

definition addEdge :: "Graph \<Rightarrow> int \<Rightarrow> int \<Rightarrow> Graph result option" where
  "addEdge G u v =
     (if invalid_vertex G u \<or> invalid_vertex G v
      then Some (graph_exit ''Graph Error: calling addEdge() with invalid vertex indices\<newline>'')
      else Option.bind (insert_neighbor G v u) (\<lambda>r. case r of Inl e \<Rightarrow> Some (Inl e)
        | Inr G1 \<Rightarrow> Option.bind (insert_neighbor G1 u v) (\<lambda>r. Some (rbind r (\<lambda>G2.
            Inr (G2\<lparr>gsize := gsize G2 + 1\<rparr>))))))"

text \<open>\<open>addArc(G, u, v)\<close> (lines 324--367): \<open>v\<close> into the list of \<open>u\<close>, then \<open>size++\<close>.\<close>

definition addArc :: "Graph \<Rightarrow> int \<Rightarrow> int \<Rightarrow> Graph result option" where
  "addArc G u v =
     (if invalid_vertex G u \<or> invalid_vertex G v
      then Some (graph_exit ''Graph Error: calling addArc() with invalid vertex indices\<newline>'')
      else Option.bind (insert_neighbor G u v) (\<lambda>r. Some (rbind r (\<lambda>G1.
        Inr (G1\<lparr>gsize := gsize G1 + 1\<rparr>)))))"

text \<open>\<open>BFS(G, s)\<close> (lines 372--426). The inner \<open>for\<close> loop (lines 410--419) walks the
  cursor of the list of \<open>u\<close>, which stays in \<open>G\<close>; a \<open>WHITE\<close> neighbour is coloured
  \<open>GRAY\<close>, gets distance \<open>distance[u] + 1\<close> and parent \<open>u\<close>, and is appended to the
  queue \<open>Q\<close>.\<close>

definition discover :: "int \<Rightarrow> int \<Rightarrow> Graph \<times> CList \<Rightarrow> Graph \<times> CList" where
  "discover u v GQ = (case GQ of (G, Q) \<Rightarrow>
     if gcolor G ! nat v = WHITE then
       (G\<lparr>gcolor := (gcolor G)[nat v := GRAY], distance := (distance G)[nat v := distance G ! nat u + 1],
          parent := (parent G)[nat v := u]\<rparr>, append_C Q v)
     else (G, Q))"

definition move_adj :: "(CList \<Rightarrow> CList) \<Rightarrow> int \<Rightarrow> Graph \<Rightarrow> Graph" where
  "move_adj f u G = G\<lparr>neighbors := (neighbors G)[nat u := f (neighbors G ! nat u)]\<rparr>"

partial_function (option) bfs_scan :: "int \<Rightarrow> Graph \<times> CList \<Rightarrow> (Graph \<times> CList) result option" where
  "bfs_scan u GQ =
     (if 0 \<le> index_C (neighbors (fst GQ) ! nat u) then
        (case get_C (neighbors (fst GQ) ! nat u) of Inl e \<Rightarrow> Some (Inl e)
         | Inr v \<Rightarrow> bfs_scan u (case discover u v GQ of (G, Q) \<Rightarrow> (move_adj moveNext_C u G, Q)))
      else Some (Inr GQ))"

text \<open>The \<open>while (length(Q) > 0)\<close> loop (lines 401--422): take the front \<open>u\<close> off the
  queue, scan its list, colour it \<open>BLACK\<close>.\<close>

partial_function (option) bfs_loop :: "Graph \<Rightarrow> CList \<Rightarrow> Graph result option" where
  "bfs_loop G Q =
     (if 0 < length_C Q then
        (case front_C Q of Inl e \<Rightarrow> Some (Inl e)
         | Inr u \<Rightarrow> (case deleteFront_C Q of Inl e \<Rightarrow> Some (Inl e)
           | Inr Q1 \<Rightarrow> Option.bind (bfs_scan u (move_adj moveFront_C u G, Q1)) (\<lambda>r. case r of
               Inl e \<Rightarrow> Some (Inl e)
             | Inr (G2, Q2) \<Rightarrow> bfs_loop (G2\<lparr>gcolor := (gcolor G2)[nat u := BLACK_G]\<rparr>) Q2)))
      else Some (Inr G))"

definition BFS :: "Graph \<Rightarrow> int \<Rightarrow> Graph result option" where
  "BFS G s =
     (if invalid_vertex G s then Some (graph_exit ''Graph Error: calling BFS() with an invalid source vertex\<newline>'')
      else let G1 = for_loop (nat (order G)) 1 (\<lambda>u G. G\<lparr>gcolor := (gcolor G)[u := WHITE],
                      distance := (distance G)[u := INF_G], parent := (parent G)[u := NIL]\<rparr>) G;
               G2 = G1\<lparr>source := s, gcolor := (gcolor G1)[nat s := GRAY], distance := (distance G1)[nat s := 0]\<rparr>
           in bfs_loop G2 (append_C newList_C s))"

section \<open>Other operations\<close>

text \<open>\<open>printGraph(out, G)\<close> (lines 432--452): per vertex \<open>i\<close> the text \<open>i:\<close>, then
  \<open> v\<close> for each neighbour met by the cursor walk over the list of \<open>i\<close> (which leaves
  that cursor off the end), then a newline. The result is the text written and the
  graph with the moved cursors.\<close>

partial_function (option) print_adj :: "CList \<Rightarrow> string \<Rightarrow> (string \<times> CList) result option" where
  "print_adj L out =
     (if 0 \<le> index_C L then
        (case get_C L of Inl e \<Rightarrow> Some (Inl e)
         | Inr v \<Rightarrow> print_adj (moveNext_C L) (out @ '' '' @ string_of_int v))
      else Some (Inr (out, L)))"

definition print_vertex :: "nat \<Rightarrow> (string \<times> Graph) result option \<Rightarrow> (string \<times> Graph) result option" where
  "print_vertex i st = Option.bind st (\<lambda>r. case r of Inl e \<Rightarrow> Some (Inl e)
     | Inr (out, G) \<Rightarrow> Option.bind (print_adj (moveFront_C (neighbors G ! i)) (out @ string_of_int (int i) @ '':''))
         (\<lambda>r. Some (rbind r (\<lambda>(out', L). Inr (out' @ ''\<newline>'', G\<lparr>neighbors := (neighbors G)[i := L]\<rparr>)))))"

definition printGraph :: "Graph \<Rightarrow> (string \<times> Graph) result option" where
  "printGraph G = for_loop (nat (order G)) 1 print_vertex (Some (Inr ([], G)))"

section \<open>Invariant and abstraction\<close>

text \<open>The labels stored in the adjacency list of vertex \<open>u\<close>, and the invariant of a
  graph: the arrays have \<open>order + 1\<close> cells, and the list of each vertex is a valid
  list, sorted, of labels in \<open>1..order\<close>.\<close>

definition adj :: "Graph \<Rightarrow> int \<Rightarrow> int list" where
  "adj G u = celems (neighbors G ! nat u)"

definition vertices :: "Graph \<Rightarrow> int list" where
  "vertices G = [1..order G]"

definition graph_inv :: "Graph \<Rightarrow> bool" where
  "graph_inv G =
     (0 \<le> order G \<and> length (neighbors G) = nat (order G) + 1 \<and> length (gcolor G) = nat (order G) + 1 \<and>
      length (parent G) = nat (order G) + 1 \<and> length (distance G) = nat (order G) + 1 \<and>
      (\<forall>u \<in> set (vertices G). clist_inv (neighbors G ! nat u) \<and> sorted (adj G u) \<and>
         set (adj G u) \<subseteq> set (vertices G)))"

declare getPath.simps [code] insert_walk.simps [code] bfs_scan.simps [code] bfs_loop.simps [code]
  print_adj.simps [code]

end
