(* ===== verification/Graph_Ops.thy ===== *)
theory Graph_Ops
  imports Graph
begin

text \<open>
  The list calls of the graph code on valid lists: the sorted insertion of
  \<open>addEdge\<close>/\<open>addArc\<close> returns and inserts as \<open>insort\<close>.
\<close>

section \<open>The cursor on a valid list\<close>

lemma index_C_rep: "crep L (xs, cur) \<Longrightarrow> index_C L = (case cur of None \<Rightarrow> index_C L | Some i \<Rightarrow> int i)"
  and index_C_nonneg_rep: "crep L (xs, cur) \<Longrightarrow> 0 \<le> index_C L \<longleftrightarrow> cur \<noteq> None"
  by (cases cur; auto simp: crep_iff index_C_def)+

lemma moveNext_C_last:
  assumes "crep L (xs, Some i)" and "Suc i = length xs"
  shows "index_C (moveNext_C L) = -1"
proof -
  have ne: "cnodes L \<noteq> []" and l: "length (cnodes L) - Suc 0 = i" using assms
    by (auto simp: crep_iff celems_def)
  then have "cback L = ccursor L" using assms cback_nth [OF ne] by (auto simp: crep_iff)
  moreover have "ccursor L \<noteq> None" using assms by (auto simp: crep_iff)
  ultimately show ?thesis by (auto simp: moveNext_C_def index_C_def split: option.split)
qed

section \<open>Sorted insertion\<close>

text \<open>The walk from position \<open>i\<close> stops at the first element after \<open>i\<close> above \<open>u\<close>.\<close>

lemma insert_walk_rep:
  assumes "crep L (xs, Some i)"
  shows "\<exists>L'. insert_walk L u = Some (Inr L') \<and>
    (let k = i + length (takeWhile (\<lambda>w. w \<le> u) (drop i xs)) in
       if k < length xs then crep L' (take k xs @ u # drop k xs, Some (Suc k))
       else crep L' (xs, None) \<and> index_C L' = -1)"
  using assms
proof (induction "length xs - i" arbitrary: i L)
  case 0
  then show ?case by (auto simp: crep_iff celems_def)
next
  case (Suc m)
  have i: "i < length xs" using Suc.prems by (auto simp: crep_iff celems_def)
  have idx: "0 \<le> index_C L" using index_C_nonneg_rep [OF Suc.prems] by simp
  have g: "get_C L = Inr (xs ! i)" by (rule get_C_rep [OF Suc.prems])
  have d: "drop i xs = xs ! i # drop (Suc i) xs" using i by (simp add: Cons_nth_drop_Suc)
  show ?case
  proof (cases "u < xs ! i")
    case True
    then show ?thesis using insertBefore_C_rep [OF Suc.prems, of u] idx g d i
      by (subst insert_walk.simps) auto
  next
    case False
    note mv = moveNext_C_rep [OF Suc.prems]
    show ?thesis
    proof (cases "Suc i < length xs")
      case True
      then have "crep (moveNext_C L) (xs, Some (Suc i))" using mv by simp
      have "m = length xs - Suc i" using Suc.hyps(2) by arith
      from Suc.hyps(1) [OF this \<open>crep (moveNext_C L) (xs, Some (Suc i))\<close>] obtain L' where
        "insert_walk (moveNext_C L) u = Some (Inr L')"
        "let k = Suc i + length (takeWhile (\<lambda>w. w \<le> u) (drop (Suc i) xs)) in
           if k < length xs then crep L' (take k xs @ u # drop k xs, Some (Suc k))
           else crep L' (xs, None) \<and> index_C L' = -1" by auto
      then show ?thesis using idx g d False by (subst insert_walk.simps) simp
    next
      case nt: False
      then have m: "crep (moveNext_C L) (xs, None)" using mv by simp
      have "insert_walk (moveNext_C L) u = Some (Inr (moveNext_C L))"
        using index_C_nonneg_rep [OF m] by (subst insert_walk.simps) simp
      then show ?thesis using idx g d False nt i m moveNext_C_last [OF Suc.prems]
        by (subst insert_walk.simps) auto
    qed
  qed
qed

lemma takeWhile_insort:
  "sorted xs \<Longrightarrow> take (length (takeWhile (\<lambda>w. w \<le> u) xs)) xs @ u # drop (length (takeWhile (\<lambda>w. w \<le> u) xs)) xs
     = insort u (xs :: int list)"
proof (induction xs)
  case (Cons x xs)
  show ?case
  proof (cases "x \<le> u")
    case True
    with Cons show ?thesis by (auto simp: insort_is_Cons)
  qed (use Cons in auto)
qed simp

lemma insert_sorted_rep:
  assumes "crep L (xs, cur)" and "sorted xs"
  shows "\<exists>L' c. insert_sorted L u = Some (Inr L') \<and> crep L' (insort u xs, c)"
proof (cases "xs = []")
  case True
  then have "length_C L = 0" using assms(1) by (simp add: crep_iff celems_def length_C_def)
  then show ?thesis using prepend_C_rep [OF assms(1), of u] True by (auto simp: insert_sorted_def)
next
  case False
  have l: "length_C L \<noteq> 0" using assms(1) False by (auto simp: crep_iff celems_def length_C_def)
  have f: "front_C L = Inr (hd xs)" by (rule front_C_rep [OF assms(1) False])
  show ?thesis
  proof (cases "u < hd xs")
    case True
    then have "insort u xs = u # xs" using assms(2) False
      by (cases xs) (auto simp: insort_is_Cons)
    then show ?thesis using l f True prepend_C_rep [OF assms(1), of u] by (auto simp: insert_sorted_def)
  next
    case nlt: False
    let ?k = "length (takeWhile (\<lambda>w. w \<le> u) xs)"
    have m: "crep (moveFront_C L) (xs, Some 0)" using moveFront_C_rep [OF assms(1)] False by simp
    obtain L' where w: "insert_walk (moveFront_C L) u = Some (Inr L')"
      and r: "if ?k < length xs then crep L' (take ?k xs @ u # drop ?k xs, Some (Suc ?k))
              else crep L' (xs, None) \<and> index_C L' = -1"
      using insert_walk_rep [OF m, of u] by (auto simp: Let_def)
    have ins: "take ?k xs @ u # drop ?k xs = insort u xs" by (rule takeWhile_insort [OF assms(2)])
    show ?thesis
    proof (cases "?k < length xs")
      case True
      then have "crep L' (insort u xs, Some (Suc ?k))" "index_C L' \<noteq> -1"
        using r ins index_C_rep [of L' _ "Some (Suc ?k)"] by auto
      then show ?thesis using l f nlt w by (auto simp: insert_sorted_def)
    next
      case False
      then have "?k = length xs" by (simp add: length_takeWhile_le le_antisym)
      then have "insort u xs = xs @ [u]" using ins by simp
      then show ?thesis using l f nlt w r False append_C_rep [of L' xs None u]
        by (auto simp: insert_sorted_def)
    qed
  qed
qed

section \<open>Adjacency lists of a valid graph\<close>

lemma vertex_iff [simp]: "u \<in> set (vertices G) \<longleftrightarrow> 1 \<le> u \<and> u \<le> order G"
  by (simp add: vertices_def)

lemma valid_vertex_iff: "\<not> invalid_vertex G u \<longleftrightarrow> u \<in> set (vertices G)"
  by (auto simp: invalid_vertex_def)

lemma graph_inv_lengths:
  assumes "graph_inv G"
  shows "0 \<le> order G" "length (neighbors G) = nat (order G) + 1" "length (gcolor G) = nat (order G) + 1"
    "length (parent G) = nat (order G) + 1" "length (distance G) = nat (order G) + 1"
  using assms by (simp_all add: graph_inv_def)

lemma graph_inv_vertex:
  assumes "graph_inv G" and "u \<in> set (vertices G)"
  shows "clist_inv (neighbors G ! nat u)" "sorted (adj G u)" "set (adj G u) \<subseteq> set (vertices G)"
  using assms unfolding graph_inv_def by blast+

lemma vertex_nat_less: "u \<in> set (vertices G) \<Longrightarrow> nat u < nat (order G) + 1"
  by (simp add: less_Suc_eq_le nat_mono)

lemma vertex_nat_pos: "u \<in> set (vertices G) \<Longrightarrow> Suc 0 \<le> nat u"
  by (simp add: Suc_le_eq)

lemma vertices_upd [simp]:
  "vertices (G\<lparr>neighbors := ns\<rparr>) = vertices G" "vertices (G\<lparr>gcolor := cs\<rparr>) = vertices G"
  "vertices (G\<lparr>parent := ps\<rparr>) = vertices G" "vertices (G\<lparr>distance := ds\<rparr>) = vertices G"
  "vertices (G\<lparr>gsize := k\<rparr>) = vertices G" "vertices (G\<lparr>source := s\<rparr>) = vertices G"
  by (simp_all add: vertices_def)

lemma vertex_index: "graph_inv G \<Longrightarrow> u \<in> set (vertices G) \<Longrightarrow> nat u < length (neighbors G)"
  using graph_inv_lengths(2) vertex_nat_less by metis

lemma graph_inv_crep:
  "graph_inv G \<Longrightarrow> u \<in> set (vertices G) \<Longrightarrow> crep (neighbors G ! nat u) (adj G u, snd (absC (neighbors G ! nat u)))"
  using graph_inv_vertex(1) by (simp add: crep_def adj_def absC_def)

lemma nat_vertex_eq: "u \<in> set (vertices G) \<Longrightarrow> nat w = nat u \<longleftrightarrow> w = u"
  by (simp add: nat_eq_iff)

text \<open>Replacing the list of vertex \<open>v\<close> by a valid sorted list of labels.\<close>

lemma graph_inv_set_list:
  assumes "graph_inv G" and "v \<in> set (vertices G)" and "crep L (ys, c)" and "sorted ys"
    and "set ys \<subseteq> set (vertices G)"
  shows "graph_inv (G\<lparr>neighbors := (neighbors G)[nat v := L]\<rparr>)"
    and "adj (G\<lparr>neighbors := (neighbors G)[nat v := L]\<rparr>) = (adj G)(v := ys)"
proof -
  let ?G = "G\<lparr>neighbors := (neighbors G)[nat v := L]\<rparr>"
  have n: "nat v < length (neighbors G)" by (rule vertex_index [OF assms(1,2)])
  have nb: "neighbors ?G ! nat u = (if u = v then L else neighbors G ! nat u)" if "u \<in> set (vertices G)" for u
  proof -
    have "nat v = nat u \<longleftrightarrow> u = v" using nat_vertex_eq [OF assms(2), of u] by auto
    then show ?thesis using n by (auto simp: nth_list_update)
  qed
  have e: "celems L = ys" using assms(3) by (simp add: crep_iff)
  show a: "adj ?G = (adj G)(v := ys)"
  proof
    fix u
    show "adj ?G u = ((adj G)(v := ys)) u"
    proof (cases "u = v")
      case True
      then show ?thesis using n e by (simp add: adj_def)
    next
      case False
      then have "nat u \<noteq> nat v" using nat_vertex_eq [OF assms(2), of u] by simp
      then show ?thesis using False by (simp add: adj_def)
    qed
  qed
  have "clist_inv L" using assms(3) by (simp add: crep_def)
  have "clist_inv (neighbors ?G ! nat u) \<and> sorted (adj ?G u) \<and> set (adj ?G u) \<subseteq> set (vertices G)"
    if u: "u \<in> set (vertices G)" for u
  proof (cases "u = v")
    case True
    then show ?thesis using nb [OF u] a \<open>clist_inv L\<close> assms(4,5) by simp
  next
    case False
    then show ?thesis using nb [OF u] a graph_inv_vertex [OF assms(1) u] by simp
  qed
  then show "graph_inv ?G" using graph_inv_lengths [OF assms(1)] n
    unfolding graph_inv_def by (simp del: vertex_iff)
qed

lemma insert_neighbor_spec:
  assumes "graph_inv G" and "v \<in> set (vertices G)" and "u \<in> set (vertices G)"
  shows "\<exists>G'. insert_neighbor G v u = Some (Inr G') \<and> graph_inv G' \<and>
    adj G' = (adj G)(v := insort u (adj G v)) \<and> (\<exists>L. G' = G\<lparr>neighbors := (neighbors G)[nat v := L]\<rparr>)"
proof -
  have r: "crep (neighbors G ! nat v) (adj G v, snd (absC (neighbors G ! nat v)))"
    by (rule graph_inv_crep [OF assms(1,2)])
  have s: "sorted (adj G v)" "set (adj G v) \<subseteq> set (vertices G)"
    by (rule graph_inv_vertex [OF assms(1,2)])+
  obtain L c where L: "insert_sorted (neighbors G ! nat v) u = Some (Inr L)" "crep L (insort u (adj G v), c)"
    using insert_sorted_rep [OF r s(1), of u] by blast
  have "sorted (insort u (adj G v))" "set (insort u (adj G v)) \<subseteq> set (vertices G)"
    using s assms(3) by (simp_all add: sorted_insort set_insort_key del: vertex_iff)
  from graph_inv_set_list [OF assms(1,2) L(2) this] L(1) show ?thesis
    by (auto simp: insert_neighbor_def)
qed

lemma graph_inv_upd_gsize [simp]: "graph_inv (G\<lparr>gsize := k\<rparr>) = graph_inv G"
  by (simp add: graph_inv_def vertices_def adj_def)

lemma adj_upd [simp]:
  "adj (G\<lparr>gcolor := cs\<rparr>) = adj G" "adj (G\<lparr>parent := ps\<rparr>) = adj G" "adj (G\<lparr>distance := ds\<rparr>) = adj G"
  "adj (G\<lparr>gsize := k\<rparr>) = adj G" "adj (G\<lparr>source := s\<rparr>) = adj G"
  by (simp_all add: adj_def fun_eq_iff)

section \<open>Adding edges and arcs\<close>

lemma addArc_spec:
  assumes "graph_inv G" and "u \<in> set (vertices G)" and "v \<in> set (vertices G)"
  shows "\<exists>G'. addArc G u v = Some (Inr G') \<and> graph_inv G' \<and> adj G' = (adj G)(u := insort v (adj G u)) \<and>
    gsize G' = gsize G + 1 \<and> order G' = order G \<and> gcolor G' = gcolor G \<and> parent G' = parent G \<and>
    distance G' = distance G \<and> source G' = source G"
proof -
  obtain G1 L where "insert_neighbor G u v = Some (Inr G1)" "graph_inv G1"
    "adj G1 = (adj G)(u := insort v (adj G u))" "G1 = G\<lparr>neighbors := (neighbors G)[nat u := L]\<rparr>"
    using insert_neighbor_spec [OF assms] by blast
  moreover have "\<not> invalid_vertex G u" "\<not> invalid_vertex G v" using assms(2,3) by (auto simp: invalid_vertex_def)
  ultimately show ?thesis by (simp add: addArc_def)
qed

text \<open>C39. \<open>addEdge(G, u, v)\<close> on a valid graph and two valid vertices returns (its
  insertion walks end), keeps the graph valid, inserts \<open>u\<close> into the sorted list of \<open>v\<close>
  and then \<open>v\<close> into the sorted list of \<open>u\<close> as \<open>insort\<close> does, and adds one to the size;
  the arrays and the source are untouched.\<close>

theorem addEdge_spec:
  assumes "graph_inv G" and "u \<in> set (vertices G)" and "v \<in> set (vertices G)"
  shows "\<exists>G'. addEdge G u v = Some (Inr G') \<and> graph_inv G' \<and>
    adj G' = (let a = (adj G)(v := insort u (adj G v)) in a(u := insort v (a u))) \<and>
    gsize G' = gsize G + 1 \<and> order G' = order G \<and> gcolor G' = gcolor G \<and> parent G' = parent G \<and>
    distance G' = distance G \<and> source G' = source G"
proof -
  obtain G1 L where 1: "insert_neighbor G v u = Some (Inr G1)" "graph_inv G1"
    "adj G1 = (adj G)(v := insort u (adj G v))" "G1 = G\<lparr>neighbors := (neighbors G)[nat v := L]\<rparr>"
    using insert_neighbor_spec [OF assms(1,3,2)] by blast
  have "u \<in> set (vertices G1)" "v \<in> set (vertices G1)" using assms(2,3) 1(4) by simp_all
  then obtain G2 L' where 2: "insert_neighbor G1 u v = Some (Inr G2)" "graph_inv G2"
    "adj G2 = (adj G1)(u := insort v (adj G1 u))" "G2 = G1\<lparr>neighbors := (neighbors G1)[nat u := L']\<rparr>"
    using insert_neighbor_spec [OF 1(2)] by blast
  moreover have "\<not> invalid_vertex G u" "\<not> invalid_vertex G v" using assms(2,3) by (auto simp: invalid_vertex_def)
  ultimately show ?thesis using 1 2 by (simp add: addEdge_def Let_def)
qed

section \<open>The counting loop, the constructor and \<open>makeNull\<close>\<close>

lemma for_loop_id: "(\<And>j. f j s = s) \<Longrightarrow> for_loop k i f s = s"
  by (induction k arbitrary: i) simp_all

lemma for_loop_field:
  "(\<And>j s. proj (f j s) = g j (proj s)) \<Longrightarrow> proj (for_loop k i f s) = for_loop k i g (proj s)"
  by (induction k arbitrary: i s) simp_all

lemma for_loop_update_length [simp]:
  "length (for_loop k i (\<lambda>j xs. xs[j := h j (xs ! j)]) xs) = length xs"
  by (induction k arbitrary: i xs) simp_all

lemma for_loop_update_nth:
  "j < length xs \<Longrightarrow> for_loop k i (\<lambda>j xs. xs[j := h j (xs ! j)]) xs ! j = (if i \<le> j \<and> j < i + k then h j (xs ! j) else xs ! j)"
  by (induction k arbitrary: i xs) (auto simp: nth_list_update not_less_eq_eq dest: antisym)

lemma replicate_update_same: "(replicate m x)[j := x] = replicate m x"
  by (induction m arbitrary: j) (auto split: nat.split)

lemma newGraph_unfold:
  "newGraph n = \<lparr>neighbors = replicate (nat (n + 1)) newList_C, gcolor = replicate (nat (n + 1)) WHITE,
     parent = replicate (nat (n + 1)) NIL, distance = replicate (nat (n + 1)) INF_G,
     order = n, gsize = 0, source = NIL\<rparr>"
  unfolding newGraph_def Let_def by (rule for_loop_id) (simp add: replicate_update_same)


lemma makeNull_neighbors:
  "neighbors (makeNull G) = for_loop (nat (order G)) 1 (\<lambda>j xs. xs[j := clear_C (xs ! j)]) (neighbors G)"
  unfolding makeNull_def by (simp add: for_loop_field [where proj = neighbors])

lemma makeNull_other [simp]:
  "order (makeNull G) = order G" "gcolor (makeNull G) = gcolor G" "parent (makeNull G) = parent G"
  "distance (makeNull G) = distance G" "source (makeNull G) = source G" "gsize (makeNull G) = 0"
  unfolding makeNull_def
  by (simp_all add: for_loop_field [where g = "\<lambda>j x. x"] for_loop_id)

lemma makeNull_spec:
  assumes "graph_inv G"
  shows "graph_inv (makeNull G) \<and> (\<forall>u \<in> set (vertices G). adj (makeNull G) u = []) \<and> getSize (makeNull G) = 0"
proof -
  have nb: "neighbors (makeNull G) ! nat u = clear_C (neighbors G ! nat u)" if "u \<in> set (vertices G)" for u
    using that vertex_index [OF assms that] vertex_nat_less [OF that] vertex_nat_pos [OF that]
    by (simp add: makeNull_neighbors for_loop_update_nth [where h = "\<lambda>j. clear_C"] nat_le_iff)
  have c: "clist_inv (clear_C L) \<and> celems (clear_C L) = []" if "clist_inv L" for L
    using clear_C_rep [of L "absC L"] that by (simp add: crep_def absC_def)
  have a: "\<forall>u \<in> set (vertices G). adj (makeNull G) u = [] \<and> clist_inv (neighbors (makeNull G) ! nat u)"
    using nb c graph_inv_vertex(1) [OF assms] by (simp add: adj_def)
  have "length (neighbors (makeNull G)) = length (neighbors G)"
    using for_loop_update_length [where h = "\<lambda>j. clear_C"] by (simp add: makeNull_neighbors)
  then have "graph_inv (makeNull G)" using a graph_inv_lengths [OF assms]
    unfolding graph_inv_def vertices_def by (simp del: vertex_iff)
  then show ?thesis using a by (simp add: getSize_def)
qed

end
