(* ===== verification/Graph_BFS.thy ===== *)
theory Graph_BFS
  imports Graph_Ops
begin

text \<open>
  Breadth-first search of \<open>src/pa2/Graph.c\<close> on valid graphs: the scan of one
  adjacency list as a fold of \<open>discover\<close>, termination of the queue loop, and the
  distances and parents it leaves.
\<close>

section \<open>The loop invariant\<close>

text \<open>The queue loop keeps a valid graph and a valid queue of non-\<open>WHITE\<close> vertices;
  it ends because each iteration removes one vertex from the queue and adds only
  vertices that stop being \<open>WHITE\<close>.\<close>

definition white :: "Graph \<Rightarrow> int \<Rightarrow> bool" where
  "white G v = (gcolor G ! nat v = WHITE)"

definition whites :: "Graph \<Rightarrow> nat" where
  "whites G = length (filter (white G) (vertices G))"

definition bfs_qinv :: "Graph \<Rightarrow> CList \<Rightarrow> bool" where
  "bfs_qinv G Q = (graph_inv G \<and> clist_inv Q \<and> set (celems Q) \<subseteq> set (vertices G) \<and>
     (\<forall>v \<in> set (celems Q). \<not> white G v))"

text \<open>What one iteration does, for a queue with head \<open>u\<close>: \<open>u\<close> leaves the queue
  and turns \<open>BLACK\<close>; its \<open>WHITE\<close> neighbours \<open>ns\<close> turn \<open>GRAY\<close>, get distance
  \<open>d(u) + 1\<close> and parent \<open>u\<close>, and join the queue.\<close>

definition bfs_next :: "Graph \<Rightarrow> CList \<Rightarrow> Graph \<Rightarrow> CList \<Rightarrow> bool" where
  "bfs_next G Q G3 Q3 = (let u = hd (celems Q) in \<exists>ns.
     celems Q3 = tl (celems Q) @ ns \<and> distinct ns \<and> set ns = {w \<in> set (adj G u). white G w} \<and>
     adj G3 = adj G \<and> order G3 = order G \<and> source G3 = source G \<and> gsize G3 = gsize G \<and>
     length (gcolor G3) = length (gcolor G) \<and> length (distance G3) = length (distance G) \<and>
     length (parent G3) = length (parent G) \<and>
     (\<forall>j < length (gcolor G). let f = (int j \<in> set (adj G u) \<and> gcolor G ! j = WHITE) in
        gcolor G3 ! j = (if j = nat u then BLACK_G else if f then GRAY else gcolor G ! j) \<and>
        distance G3 ! j = (if f then distance G ! nat u + 1 else distance G ! j) \<and>
        parent G3 ! j = (if f then u else parent G ! j)))"

section \<open>One scan\<close>

text \<open>Vertex \<open>j\<close> is discovered by a scan of \<open>xs\<close> when it occurs in \<open>xs\<close> and is
  \<open>WHITE\<close> before the scan.\<close>

lemma discover_fields [simp]:
  "neighbors (fst (discover u v GQ)) = neighbors (fst GQ)" "order (fst (discover u v GQ)) = order (fst GQ)"
  "source (fst (discover u v GQ)) = source (fst GQ)" "gsize (fst (discover u v GQ)) = gsize (fst GQ)"
  "length (gcolor (fst (discover u v GQ))) = length (gcolor (fst GQ))"
  "length (distance (fst (discover u v GQ))) = length (distance (fst GQ))"
  "length (parent (fst (discover u v GQ))) = length (parent (fst GQ))"
  by (cases GQ; simp add: discover_def)+

lemma fold_discover_fields [simp]:
  "neighbors (fst (fold (discover u) xs GQ)) = neighbors (fst GQ)"
  "order (fst (fold (discover u) xs GQ)) = order (fst GQ)"
  "source (fst (fold (discover u) xs GQ)) = source (fst GQ)"
  "gsize (fst (fold (discover u) xs GQ)) = gsize (fst GQ)"
  "length (gcolor (fst (fold (discover u) xs GQ))) = length (gcolor (fst GQ))"
  "length (distance (fst (fold (discover u) xs GQ))) = length (distance (fst GQ))"
  "length (parent (fst (fold (discover u) xs GQ))) = length (parent (fst GQ))"
  by (induction xs arbitrary: GQ) simp_all

lemma fold_discover:
  assumes "crep Q (qs, c)" and "nat u < length (gcolor G)" and "gcolor G ! nat u \<noteq> WHITE"
    and "\<forall>w \<in> set xs. 0 < w \<and> nat w < length (gcolor G)"
    and "length (distance G) = length (gcolor G)" and "length (parent G) = length (gcolor G)"
  shows "\<exists>ns. crep (snd (fold (discover u) xs (G, Q))) (qs @ ns, c) \<and> distinct ns \<and>
     set ns = {w \<in> set xs. gcolor G ! nat w = WHITE} \<and>
     (\<forall>j < length (gcolor G). let f = (int j \<in> set xs \<and> gcolor G ! j = WHITE) in
        gcolor (fst (fold (discover u) xs (G, Q))) ! j = (if f then GRAY else gcolor G ! j) \<and>
        distance (fst (fold (discover u) xs (G, Q))) ! j = (if f then distance G ! nat u + 1 else distance G ! j) \<and>
        parent (fst (fold (discover u) xs (G, Q))) ! j = (if f then u else parent G ! j))"
  using assms
proof (induction xs arbitrary: G Q qs)
  case Nil
  then show ?case by simp
next
  case (Cons x xs)
  have x: "0 < x" "nat x < length (gcolor G)" using Cons.prems(4) by auto
  show ?case
  proof (cases "gcolor G ! nat x = WHITE")
    case False
    then have d: "discover u x (G, Q) = (G, Q)" by (simp add: discover_def)
    from Cons.IH [OF Cons.prems(1-3)] Cons.prems(4-6) obtain ns where ns:
      "crep (snd (fold (discover u) xs (G, Q))) (qs @ ns, c)" "distinct ns"
      "set ns = {w \<in> set xs. gcolor G ! nat w = WHITE}"
      "\<forall>j < length (gcolor G). let f = (int j \<in> set xs \<and> gcolor G ! j = WHITE) in
        gcolor (fst (fold (discover u) xs (G, Q))) ! j = (if f then GRAY else gcolor G ! j) \<and>
        distance (fst (fold (discover u) xs (G, Q))) ! j = (if f then distance G ! nat u + 1 else distance G ! j) \<and>
        parent (fst (fold (discover u) xs (G, Q))) ! j = (if f then u else parent G ! j)" by auto
    have "int j = x \<Longrightarrow> gcolor G ! j \<noteq> WHITE" for j using False by auto
    then show ?thesis using ns d False by (auto simp: Let_def)
  next
    case True
    let ?G1 = "G\<lparr>gcolor := (gcolor G)[nat x := GRAY], distance := (distance G)[nat x := distance G ! nat u + 1],
          parent := (parent G)[nat x := u]\<rparr>"
    have d: "discover u x (G, Q) = (?G1, append_C Q x)" using True by (simp add: discover_def)
    have ux: "nat u \<noteq> nat x" using True Cons.prems(3) by auto
    have q1: "crep (append_C Q x) (qs @ [x], c)" by (rule append_C_rep [OF Cons.prems(1)])
    have "gcolor ?G1 ! nat u \<noteq> WHITE" using ux Cons.prems(3) by simp
    from Cons.IH [OF q1 _ this] Cons.prems(2,4-6) obtain ns where ns:
      "crep (snd (fold (discover u) xs (?G1, append_C Q x))) ((qs @ [x]) @ ns, c)" "distinct ns"
      "set ns = {w \<in> set xs. gcolor ?G1 ! nat w = WHITE}"
      "\<forall>j < length (gcolor G). let f = (int j \<in> set xs \<and> gcolor ?G1 ! j = WHITE) in
        gcolor (fst (fold (discover u) xs (?G1, append_C Q x))) ! j = (if f then GRAY else gcolor ?G1 ! j) \<and>
        distance (fst (fold (discover u) xs (?G1, append_C Q x))) ! j = (if f then distance ?G1 ! nat u + 1 else distance ?G1 ! j) \<and>
        parent (fst (fold (discover u) xs (?G1, append_C Q x))) ! j = (if f then u else parent ?G1 ! j)"
      by auto
    have gx: "GRAY \<noteq> WHITE" by (simp add: GRAY_def WHITE_def)
    have s: "set (x # ns) = {w \<in> set (x # xs). gcolor G ! nat w = WHITE}"
      using ns(3) True x gx by (auto simp: nth_list_update)
    have dn: "distinct (x # ns)" using ns(2,3) x gx by auto
    have "\<forall>j < length (gcolor G). let f = (int j \<in> set (x # xs) \<and> gcolor G ! j = WHITE) in
        gcolor (fst (fold (discover u) (x # xs) (G, Q))) ! j = (if f then GRAY else gcolor G ! j) \<and>
        distance (fst (fold (discover u) (x # xs) (G, Q))) ! j = (if f then distance G ! nat u + 1 else distance G ! j) \<and>
        parent (fst (fold (discover u) (x # xs) (G, Q))) ! j = (if f then u else parent G ! j)"
    proof (intro allI impI)
      fix j assume j: "j < length (gcolor G)"
      show "let f = (int j \<in> set (x # xs) \<and> gcolor G ! j = WHITE) in
        gcolor (fst (fold (discover u) (x # xs) (G, Q))) ! j = (if f then GRAY else gcolor G ! j) \<and>
        distance (fst (fold (discover u) (x # xs) (G, Q))) ! j = (if f then distance G ! nat u + 1 else distance G ! j) \<and>
        parent (fst (fold (discover u) (x # xs) (G, Q))) ! j = (if f then u else parent G ! j)"
        using ns(4) [rule_format, OF j] j x True ux gx Cons.prems(5,6) by (cases "j = nat x") (auto simp: Let_def d)
    qed
    then show ?thesis using ns(1) s dn d by (auto simp del: set_simps)
  qed
qed

lemma discover_neighbors:
  "discover u v (G\<lparr>neighbors := N\<rparr>, Q) = (case discover u v (G, Q) of (G', Q') \<Rightarrow> (G'\<lparr>neighbors := N\<rparr>, Q'))"
  by (simp add: discover_def)

lemma fold_discover_neighbors:
  "fold (discover u) xs (G\<lparr>neighbors := N\<rparr>, Q) = (case fold (discover u) xs (G, Q) of (G', Q') \<Rightarrow> (G'\<lparr>neighbors := N\<rparr>, Q'))"
proof (induction xs arbitrary: G Q)
  case (Cons x xs)
  obtain G1 Q1 where "discover u x (G, Q) = (G1, Q1)" by fastforce
  with Cons show ?case by (simp add: discover_neighbors)
qed simp

lemma bfs_scan_done: "crep (neighbors G ! nat u) (xs, None) \<Longrightarrow> bfs_scan u (G, Q) = Some (Inr (G, Q))"
  using index_C_nonneg_rep [of "neighbors G ! nat u" xs None] by (subst bfs_scan.simps) simp

lemma bfs_scan_fold:
  assumes "crep (neighbors G ! nat u) (xs, Some i)" and "nat u < length (neighbors G)"
  shows "\<exists>A'. crep A' (xs, None) \<and> bfs_scan u (G, Q) = Some (Inr (case fold (discover u) (drop i xs) (G, Q) of
           (G', Q') \<Rightarrow> (G'\<lparr>neighbors := (neighbors G)[nat u := A']\<rparr>, Q')))"
  using assms
proof (induction "length xs - i" arbitrary: i G Q)
  case 0
  then show ?case by (auto simp: crep_iff celems_def)
next
  case (Suc m)
  let ?A = "neighbors G ! nat u"
  have i: "i < length xs" using Suc.prems by (auto simp: crep_iff celems_def)
  have idx: "0 \<le> index_C ?A" using index_C_nonneg_rep [OF Suc.prems(1)] by simp
  have g: "get_C ?A = Inr (xs ! i)" by (rule get_C_rep [OF Suc.prems(1)])
  have dr: "drop i xs = xs ! i # drop (Suc i) xs" using i by (simp add: Cons_nth_drop_Suc)
  obtain G1 Q1 where d: "discover u (xs ! i) (G, Q) = (G1, Q1)" by fastforce
  have n1: "neighbors G1 = neighbors G" using d discover_fields(1) [of u "xs ! i" "(G, Q)"] by simp
  let ?G2 = "move_adj moveNext_C u G1"
  have n2: "neighbors ?G2 = (neighbors G)[nat u := moveNext_C ?A]" by (simp add: move_adj_def n1)
  have a2: "neighbors ?G2 ! nat u = moveNext_C ?A" using Suc.prems(2) by (simp add: n2)
  have len2: "nat u < length (neighbors ?G2)" using Suc.prems(2) by (simp add: n2)
  have step: "bfs_scan u (G, Q) = bfs_scan u (?G2, Q1)"
    using idx g d by (subst bfs_scan.simps) simp
  have g2: "?G2 = G1\<lparr>neighbors := (neighbors G)[nat u := moveNext_C ?A]\<rparr>" by (simp add: move_adj_def n1)
  note mv = moveNext_C_rep [OF Suc.prems(1)]
  show ?case
  proof (cases "Suc i < length xs")
    case True
    then have r2: "crep (neighbors ?G2 ! nat u) (xs, Some (Suc i))" using mv a2 by simp
    have "m = length xs - Suc i" using Suc.hyps(2) by arith
    from Suc.hyps(1) [OF this r2 len2, of Q1] obtain A' where A': "crep A' (xs, None)"
      "bfs_scan u (?G2, Q1) = Some (Inr (case fold (discover u) (drop (Suc i) xs) (?G2, Q1) of
           (G', Q') \<Rightarrow> (G'\<lparr>neighbors := (neighbors ?G2)[nat u := A']\<rparr>, Q')))" by blast
    show ?thesis
    proof (intro exI conjI)
      show "crep A' (xs, None)" by (rule A'(1))
      obtain G' Q' where f: "fold (discover u) (drop (Suc i) xs) (G1, Q1) = (G', Q')" by fastforce
      show "bfs_scan u (G, Q) = Some (Inr (case fold (discover u) (drop i xs) (G, Q) of
           (G', Q') \<Rightarrow> (G'\<lparr>neighbors := (neighbors G)[nat u := A']\<rparr>, Q')))"
        using step A'(2) f d dr by (simp add: g2 fold_discover_neighbors)
    qed
  next
    case False
    then have r2: "crep (neighbors ?G2 ! nat u) (xs, None)" using mv a2 i by simp
    have "drop (Suc i) xs = []" using False by simp
    then show ?thesis using step bfs_scan_done [OF r2] d dr mv i False
      by (intro exI [of _ "moveNext_C ?A"]) (simp add: g2)
  qed
qed

section \<open>One iteration of the queue loop\<close>

lemma graph_inv_cong:
  assumes "graph_inv G" and "order G' = order G" and "neighbors G' = neighbors G"
    and "length (gcolor G') = length (gcolor G)" and "length (distance G') = length (distance G)"
    and "length (parent G') = length (parent G)"
  shows "graph_inv G'" and "adj G' = adj G"
proof -
  show "adj G' = adj G" using assms(3) by (simp add: adj_def fun_eq_iff)
  moreover have "vertices G' = vertices G" using assms(2) by (simp add: vertices_def)
  ultimately show "graph_inv G'" using assms unfolding graph_inv_def by simp
qed

lemma colors_differ [simp]: "GRAY \<noteq> WHITE" "BLACK_G \<noteq> WHITE"
  by (simp_all add: GRAY_def BLACK_G_def WHITE_def)

lemma whites_card: "whites G = card {v \<in> set (vertices G). white G v}"
proof -
  have "{x. white G x} \<inter> set (vertices G) = {v \<in> set (vertices G). white G v}" by auto
  then show ?thesis unfolding whites_def by (simp add: distinct_length_filter vertices_def)
qed

lemma move_adj_fields [simp]:
  "gcolor (move_adj f u G) = gcolor G" "distance (move_adj f u G) = distance G" "parent (move_adj f u G) = parent G"
  "order (move_adj f u G) = order G" "source (move_adj f u G) = source G" "gsize (move_adj f u G) = gsize G"
  "neighbors (move_adj f u G) = (neighbors G)[nat u := f (neighbors G ! nat u)]"
  by (simp_all add: move_adj_def)

text \<open>The scan of \<open>BFS\<close> from the front of the list of \<open>u\<close>, empty or not.\<close>

lemma bfs_scan_front:
  assumes "crep (neighbors G ! nat u) (xs, c)" and "nat u < length (neighbors G)"
  shows "\<exists>A'. crep A' (xs, None) \<and> bfs_scan u (move_adj moveFront_C u G, Q) =
    Some (Inr (case fold (discover u) xs (move_adj moveFront_C u G, Q) of
      (G', Q') \<Rightarrow> (G'\<lparr>neighbors := (neighbors G)[nat u := A']\<rparr>, Q')))"
proof -
  let ?A = "neighbors G ! nat u" and ?Gm = "move_adj moveFront_C u G"
  have a: "neighbors ?Gm ! nat u = moveFront_C ?A" using assms(2) by simp
  note mf = moveFront_C_rep [OF assms(1)]
  show ?thesis
  proof (cases "xs = []")
    case True
    then have c: "c = None" using assms(1) by (cases c) (auto simp: crep_iff celems_def)
    then have "crep (neighbors ?Gm ! nat u) (xs, None)" using mf a True by simp
    then show ?thesis using bfs_scan_done True mf c by (intro exI [of _ "moveFront_C ?A"]) simp
  next
    case False
    then have "crep (neighbors ?Gm ! nat u) (xs, Some 0)" using mf a by simp
    from bfs_scan_fold [OF this] assms(2) obtain A' where "crep A' (xs, None)"
      "bfs_scan u (?Gm, Q) = Some (Inr (case fold (discover u) xs (?Gm, Q) of
           (G', Q') \<Rightarrow> (G'\<lparr>neighbors := (neighbors ?Gm)[nat u := A']\<rparr>, Q')))" by auto
    then show ?thesis by (intro exI [of _ A']) simp
  qed
qed

lemma bfs_qinv_head:
  assumes "bfs_qinv G Q" and "celems Q \<noteq> []"
  shows "crep Q (celems Q, snd (absC Q))" "hd (celems Q) \<in> set (vertices G)" "\<not> white G (hd (celems Q))"
    "0 < length_C Q" "front_C Q = Inr (hd (celems Q))"
proof -
  show q: "crep Q (celems Q, snd (absC Q))" using assms(1) crep_absC [of Q] by (simp add: bfs_qinv_def absC_def)
  show "hd (celems Q) \<in> set (vertices G)" "\<not> white G (hd (celems Q))"
    using assms hd_in_set [OF assms(2)] unfolding bfs_qinv_def by blast+
  show "0 < length_C Q" using q assms(2) by (simp add: crep_iff length_C_def celems_def)
  show "front_C Q = Inr (hd (celems Q))" by (rule front_C_rep [OF q assms(2)])
qed

lemma bfs_iteration:
  assumes inv: "bfs_qinv G Q" and ne: "celems Q \<noteq> []"
  shows "\<exists>G3 Q3. bfs_loop G Q = bfs_loop G3 Q3 \<and> bfs_qinv G3 Q3 \<and>
     whites G3 + length (celems Q3) < whites G + length (celems Q) \<and> bfs_next G Q G3 Q3"
proof -
  define u where "u = hd (celems Q)"
  note h = bfs_qinv_head [OF inv ne, folded u_def]
  have g: "graph_inv G" using inv by (simp add: bfs_qinv_def)
  note L = graph_inv_lengths [OF g]
  have un: "nat u < length (neighbors G)" by (rule vertex_index [OF g h(2)])
  obtain Q1 c1 where Q1: "deleteFront_C Q = Inr Q1" "crep Q1 (tl (celems Q), c1)"
    using deleteFront_C_rep [OF h(1) ne] by blast
  let ?xs = "adj G u" and ?Gm = "move_adj moveFront_C u G"
  obtain A' where A': "crep A' (?xs, None)" and sc: "bfs_scan u (?Gm, Q1) =
      Some (Inr (case fold (discover u) ?xs (?Gm, Q1) of (G', Q') \<Rightarrow> (G'\<lparr>neighbors := (neighbors G)[nat u := A']\<rparr>, Q')))"
    using bfs_scan_front [OF graph_inv_crep [OF g h(2)] un] by blast
  obtain G' Q' where f: "fold (discover u) ?xs (?Gm, Q1) = (G', Q')" by fastforce
  define G3 where "G3 = (G'\<lparr>neighbors := (neighbors G)[nat u := A']\<rparr>)\<lparr>gcolor := (gcolor G')[nat u := BLACK_G]\<rparr>"
  have loop: "bfs_loop G Q = bfs_loop G3 Q'"
    using h(4,5) Q1(1) sc f by (subst bfs_loop.simps) (simp add: G3_def)
  have wu: "gcolor G ! nat u \<noteq> WHITE" using h(3) by (simp add: white_def)
  have ul: "nat u < length (gcolor G)" using un L by simp
  have xs: "\<forall>w \<in> set ?xs. 0 < w \<and> nat w < length (gcolor G)"
    using graph_inv_vertex(3) [OF g h(2)] L vertex_nat_less by fastforce
  obtain ns where ns: "crep Q' (tl (celems Q) @ ns, c1)" "distinct ns" "set ns = {w \<in> set ?xs. gcolor G ! nat w = WHITE}"
    "\<forall>j < length (gcolor G). let f = (int j \<in> set ?xs \<and> gcolor G ! j = WHITE) in
        gcolor G' ! j = (if f then GRAY else gcolor G ! j) \<and>
        distance G' ! j = (if f then distance G ! nat u + 1 else distance G ! j) \<and>
        parent G' ! j = (if f then u else parent G ! j)"
    using fold_discover [of Q1 "tl (celems Q)" c1 u ?Gm ?xs] Q1(2) ul wu xs L f by (auto simp: Let_def)
  have lens: "length (gcolor G') = length (gcolor G)" "length (distance G') = length (distance G)"
    "length (parent G') = length (parent G)" "order G' = order G" "source G' = source G" "gsize G' = gsize G"
    using fold_discover_fields [of u ?xs "(?Gm, Q1)"] f by simp_all
  have arr: "\<forall>j < length (gcolor G). let f = (int j \<in> set ?xs \<and> gcolor G ! j = WHITE) in
        gcolor G3 ! j = (if j = nat u then BLACK_G else if f then GRAY else gcolor G ! j) \<and>
        distance G3 ! j = (if f then distance G ! nat u + 1 else distance G ! j) \<and>
        parent G3 ! j = (if f then u else parent G ! j)"
    using ns(4) lens(1) wu by (auto simp: G3_def Let_def nth_list_update)
  have gx: "graph_inv (G\<lparr>neighbors := (neighbors G)[nat u := A']\<rparr>)" "adj (G\<lparr>neighbors := (neighbors G)[nat u := A']\<rparr>) = adj G"
    using graph_inv_set_list [OF g h(2) A' graph_inv_vertex(2,3) [OF g h(2)]] by simp_all
  have g3: "graph_inv G3" "adj G3 = adj G"
    using graph_inv_cong [OF gx(1), of G3] gx(2) lens by (simp_all add: G3_def)
  have wh: "white G3 v \<longleftrightarrow> white G v \<and> v \<notin> set ns" if "v \<in> set (vertices G)" for v
  proof -
    have "nat v < length (gcolor G)" using that L vertex_nat_less by metis
    moreover have "int (nat v) = v" using that by simp
    ultimately show ?thesis using arr [rule_format, of "nat v"] ns(3) wu
      by (auto simp: white_def Let_def split: if_splits)
  qed
  have V3: "vertices G3 = vertices G" using lens by (simp add: G3_def vertices_def)
  have nsV: "set ns \<subseteq> {v \<in> set (vertices G). white G v}"
    using ns(3) graph_inv_vertex(3) [OF g h(2)] by (auto simp: white_def)
  have "{v \<in> set (vertices G3). white G3 v} = {v \<in> set (vertices G). white G v} - set ns"
    using wh V3 by auto
  then have "whites G3 = whites G - length ns"
    using nsV ns(2) by (simp add: whites_card card_Diff_subset distinct_card)
  moreover have "length ns \<le> whites G"
  proof -
    have "finite {v \<in> set (vertices G). white G v}" by (simp del: vertex_iff)
    from card_mono [OF this nsV] show ?thesis using ns(2) by (simp add: whites_card distinct_card del: vertex_iff)
  qed
  moreover have "celems Q' = tl (celems Q) @ ns" using ns(1) by (simp add: crep_iff)
  ultimately have meas: "whites G3 + length (celems Q') < whites G + length (celems Q)"
    using ne by (cases "celems Q") auto
  have q3: "bfs_qinv G3 Q'"
  proof -
    have "clist_inv Q'" using ns(1) by (simp add: crep_def)
    moreover have "set (celems Q') \<subseteq> set (vertices G3)"
      using \<open>celems Q' = tl (celems Q) @ ns\<close> inv nsV V3 ne by (auto simp: bfs_qinv_def dest: list.set_sel(2))
    moreover have "\<forall>v \<in> set (celems Q'). \<not> white G3 v"
    proof
      fix v assume v: "v \<in> set (celems Q')"
      have "set (tl (celems Q)) \<subseteq> set (celems Q)" by (cases "celems Q") auto
      then have "v \<in> set (vertices G)" "v \<in> set ns \<or> \<not> white G v"
        using v \<open>celems Q' = tl (celems Q) @ ns\<close> inv nsV unfolding bfs_qinv_def by auto
      then show "\<not> white G3 v" using wh by blast
    qed
    ultimately show ?thesis using g3 by (simp add: bfs_qinv_def)
  qed
  show ?thesis
    using loop q3 meas \<open>celems Q' = tl (celems Q) @ ns\<close> ns(2,3) g3(2) arr lens
    unfolding bfs_next_def Let_def u_def [symmetric]
    by (intro exI [of _ G3] exI [of _ Q'] conjI exI [of _ ns]) (simp_all add: G3_def white_def Let_def)
qed

section \<open>The queue loop\<close>

text \<open>Induction over the iterations of the loop, for any property \<open>I\<close> that the
  iterations keep: the loop returns, with an empty queue, and \<open>I\<close> holds at the end.\<close>

lemma bfs_loop_induct:
  assumes "bfs_qinv G Q" and "I G Q"
    and step: "\<And>G Q G3 Q3. bfs_qinv G Q \<Longrightarrow> I G Q \<Longrightarrow> celems Q \<noteq> [] \<Longrightarrow> bfs_qinv G3 Q3 \<Longrightarrow>
       bfs_next G Q G3 Q3 \<Longrightarrow> I G3 Q3"
  shows "\<exists>G' Q'. bfs_loop G Q = Some (Inr G') \<and> bfs_qinv G' Q' \<and> celems Q' = [] \<and> I G' Q'"
  using assms(1,2)
proof (induction "whites G + length (celems Q)" arbitrary: G Q rule: less_induct)
  case less
  show ?case
  proof (cases "celems Q = []")
    case True
    then have "\<not> 0 < length_C Q" using less.prems(1) by (simp add: bfs_qinv_def clist_inv_def length_C_def celems_def)
    then have "bfs_loop G Q = Some (Inr G)" by (subst bfs_loop.simps) simp
    then show ?thesis using less.prems True by blast
  next
    case False
    obtain G3 Q3 where it: "bfs_loop G Q = bfs_loop G3 Q3" "bfs_qinv G3 Q3"
      "whites G3 + length (celems Q3) < whites G + length (celems Q)" "bfs_next G Q G3 Q3"
      using bfs_iteration [OF less.prems(1) False] by blast
    have "I G3 Q3" by (rule step [OF less.prems False it(2,4)])
    from less.hyps [OF it(3) it(2) this] it(1) show ?thesis by simp
  qed
qed

section \<open>\<open>BFS\<close>\<close>

text \<open>The state \<open>BFS\<close> hands to the queue loop: every vertex \<open>WHITE\<close> with distance
  \<open>INF\<close> and parent \<open>NIL\<close>, except the source, \<open>GRAY\<close> at distance 0, alone in the queue.\<close>

lemma BFS_start:
  assumes g: "graph_inv G" and s: "s \<in> set (vertices G)"
  shows "\<exists>G2. BFS G s = bfs_loop G2 (append_C newList_C s) \<and> bfs_qinv G2 (append_C newList_C s) \<and>
    adj G2 = adj G \<and> order G2 = order G \<and> source G2 = s \<and> gsize G2 = gsize G \<and>
    length (gcolor G2) = length (gcolor G) \<and> length (distance G2) = length (distance G) \<and>
    length (parent G2) = length (parent G) \<and>
    (\<forall>v \<in> set (vertices G). gcolor G2 ! nat v = (if v = s then GRAY else WHITE) \<and>
       distance G2 ! nat v = (if v = s then 0 else INF_G) \<and> parent G2 ! nat v = NIL)"
proof -
  note L = graph_inv_lengths [OF g]
  let ?f = "\<lambda>u G. G\<lparr>gcolor := (gcolor G)[u := WHITE], distance := (distance G)[u := INF_G], parent := (parent G)[u := NIL]\<rparr>"
  define G1 where "G1 = for_loop (nat (order G)) 1 ?f G"
  define G2 where "G2 = G1\<lparr>source := s, gcolor := (gcolor G1)[nat s := GRAY], distance := (distance G1)[nat s := 0]\<rparr>"
  have c1: "gcolor G1 = for_loop (nat (order G)) 1 (\<lambda>j xs. xs[j := (\<lambda>j x. WHITE) j (xs ! j)]) (gcolor G)"
    unfolding G1_def by (rule for_loop_field) simp
  have d1: "distance G1 = for_loop (nat (order G)) 1 (\<lambda>j xs. xs[j := (\<lambda>j x. INF_G) j (xs ! j)]) (distance G)"
    unfolding G1_def by (rule for_loop_field) simp
  have p1: "parent G1 = for_loop (nat (order G)) 1 (\<lambda>j xs. xs[j := (\<lambda>j x. NIL) j (xs ! j)]) (parent G)"
    unfolding G1_def by (rule for_loop_field) simp
  have o1: "neighbors G1 = neighbors G" "order G1 = order G" "gsize G1 = gsize G"
    unfolding G1_def by (rule for_loop_field [where g = "\<lambda>j x. x", THEN trans], simp, rule for_loop_id, simp)+
  have lens: "length (gcolor G2) = length (gcolor G)" "length (distance G2) = length (distance G)"
    "length (parent G2) = length (parent G)"
    using for_loop_update_length [where h = "\<lambda>j x. WHITE"] for_loop_update_length [where h = "\<lambda>j x. INF_G"]
      for_loop_update_length [where h = "\<lambda>j x. NIL"]
    by (simp_all add: G2_def c1 d1 p1 del: for_loop.simps)
  have arr: "gcolor G2 ! nat v = (if v = s then GRAY else WHITE) \<and>
       distance G2 ! nat v = (if v = s then 0 else INF_G) \<and> parent G2 ! nat v = NIL" if v: "v \<in> set (vertices G)" for v
  proof -
    have "nat v < length (gcolor G)" "nat v < length (distance G)" "nat v < length (parent G)"
      "1 \<le> nat v" "nat v < 1 + nat (order G)" using v L vertex_nat_less [OF v] by auto
    moreover have "nat v = nat s \<longleftrightarrow> v = s" using nat_vertex_eq [OF s] .
    moreover note for_loop_update_nth [where h = "\<lambda>j x. WHITE", of "nat v" "gcolor G"]
      for_loop_update_nth [where h = "\<lambda>j x. INF_G", of "nat v" "distance G"]
      for_loop_update_nth [where h = "\<lambda>j x. NIL", of "nat v" "parent G"]
    ultimately show ?thesis using for_loop_update_length [where h = "\<lambda>j x. WHITE"]
        for_loop_update_length [where h = "\<lambda>j x. INF_G"]
      by (cases "v = s") (simp_all add: G2_def c1 d1 p1 nth_list_update del: for_loop.simps)
  qed
  have gi: "graph_inv G2" "adj G2 = adj G"
    using graph_inv_cong [OF g, of G2] lens o1 by (simp_all add: G2_def)
  have q: "crep (append_C newList_C s) ([s], None)" using append_C_rep [OF newList_C_rep] by simp
  have e: "celems (append_C newList_C s) = [s]" using q by (simp add: crep_iff)
  have "vertices G2 = vertices G" using o1 by (simp add: G2_def vertices_def)
  then have "bfs_qinv G2 (append_C newList_C s)"
    using gi(1) q s arr [OF s] e by (simp add: bfs_qinv_def crep_def white_def del: vertex_iff)
  moreover have "BFS G s = bfs_loop G2 (append_C newList_C s)"
    using s by (simp add: BFS_def invalid_vertex_def G2_def G1_def Let_def del: for_loop.simps)
  ultimately show ?thesis using gi lens arr o1 by (intro exI [of _ G2]) (simp add: G2_def)
qed

end
