(* ===== verification/Graph_Paths.thy ===== *)
theory Graph_Paths
  imports Graph_BFS
begin

text \<open>
  What \<open>BFS\<close> computes: the vertices reachable from the source within \<open>k\<close> edges,
  the invariant of the queue loop that makes the distances shortest (the queue is
  ordered by distance and spans at most two consecutive distances, finished vertices
  have no \<open>WHITE\<close> neighbour), and the parent links that \<open>getPath\<close> follows.
\<close>

section \<open>Reachability and the loop invariant\<close>

text \<open>The vertices reachable from \<open>s\<close> by a walk of at most \<open>k\<close> edges.\<close>

fun within :: "Graph \<Rightarrow> int \<Rightarrow> nat \<Rightarrow> int list" where
  "within G s 0 = [s]"
| "within G s (Suc k) = remdups (within G s k @ concat (map (adj G) (within G s k)))"

definition reach :: "Graph \<Rightarrow> int \<Rightarrow> nat \<Rightarrow> int \<Rightarrow> bool" where
  "reach G s k v = (v \<in> set (within G s k))"

definition dist :: "Graph \<Rightarrow> int \<Rightarrow> int" where
  "dist G v = distance G ! nat v"

definition finished :: "Graph \<Rightarrow> CList \<Rightarrow> int \<Rightarrow> bool" where
  "finished G Q v = (\<not> white G v \<and> v \<notin> set (celems Q))"

definition bfs_dist_inv :: "int \<Rightarrow> Graph \<Rightarrow> CList \<Rightarrow> bool" where
  "bfs_dist_inv s G Q =
     (source G = s \<and> s \<in> set (vertices G) \<and> \<not> white G s \<and> dist G s = 0 \<and> parent G ! nat s = NIL \<and>
      (\<forall>v \<in> set (vertices G). white G v \<longrightarrow> dist G v = INF_G \<and> parent G ! nat v = NIL) \<and>
      (\<forall>v \<in> set (vertices G). \<not> white G v \<longrightarrow>
         0 \<le> dist G v \<and> reach G s (nat (dist G v)) v \<and> (\<forall>k. reach G s k v \<longrightarrow> nat (dist G v) \<le> k)) \<and>
      (\<forall>v \<in> set (vertices G). finished G Q v \<longrightarrow> (\<forall>w \<in> set (adj G v). \<not> white G w)) \<and>
      sorted (map (dist G) (celems Q)) \<and>
      (\<forall>v \<in> set (celems Q). dist G v \<le> dist G (hd (celems Q)) + 1) \<and>
      (\<forall>v \<in> set (vertices G). finished G Q v \<longrightarrow> celems Q \<noteq> [] \<longrightarrow> dist G v \<le> dist G (hd (celems Q))) \<and>
      (\<forall>v \<in> set (vertices G). \<not> white G v \<and> v \<noteq> s \<longrightarrow>
         parent G ! nat v \<in> set (vertices G) \<and> \<not> white G (parent G ! nat v) \<and>
         v \<in> set (adj G (parent G ! nat v)) \<and> dist G v = dist G (parent G ! nat v) + 1))"

text \<open>A walk: consecutive vertices adjacent.\<close>

definition is_walk :: "Graph \<Rightarrow> int list \<Rightarrow> bool" where
  "is_walk G p = list_all (\<lambda>(a, b). b \<in> set (adj G a)) (zip p (tl p))"

section \<open>Walks of bounded length\<close>

lemma reach_0 [simp]: "reach G s 0 v \<longleftrightarrow> v = s"
  by (simp add: reach_def)

lemma reach_Suc: "reach G s (Suc k) v \<longleftrightarrow> reach G s k v \<or> (\<exists>w. reach G s k w \<and> v \<in> set (adj G w))"
  by (auto simp: reach_def)

lemma reach_mono: "reach G s k v \<Longrightarrow> k \<le> k' \<Longrightarrow> reach G s k' v"
  by (induction k' arbitrary: v) (auto simp: reach_Suc le_Suc_eq)

lemma reach_step: "reach G s k w \<Longrightarrow> v \<in> set (adj G w) \<Longrightarrow> reach G s (Suc k) v"
  by (auto simp: reach_Suc)

lemma reach_adj_cong: "adj G' = adj G \<Longrightarrow> reach G' = reach G"
proof -
  assume a: "adj G' = adj G"
  have "within G' s k = within G s k" for s k by (induction k) (simp_all add: a)
  then show ?thesis by (simp add: reach_def fun_eq_iff)
qed

lemma reach_vertices:
  "graph_inv G \<Longrightarrow> s \<in> set (vertices G) \<Longrightarrow> reach G s k v \<Longrightarrow> v \<in> set (vertices G)"
proof (induction k arbitrary: v)
  case (Suc k)
  then show ?case using graph_inv_vertex(3) by (auto simp: reach_Suc simp del: vertex_iff)
qed simp

text \<open>Every vertex reachable from a non-\<open>WHITE\<close> source through a set closed under
  the adjacency relation lies in that set.\<close>

lemma reach_closed:
  assumes "P s" and "\<And>v w. P v \<Longrightarrow> w \<in> set (adj G v) \<Longrightarrow> P w"
  shows "reach G s k v \<Longrightarrow> P v"
  by (induction k arbitrary: v) (auto simp: reach_Suc assms(1) intro: assms(2))

section \<open>One iteration, vertex by vertex\<close>

lemma bfs_next_global:
  assumes "bfs_next G Q G3 Q3"
  shows "adj G3 = adj G" "vertices G3 = vertices G" "source G3 = source G" "reach G3 = reach G"
    "\<exists>ns. celems Q3 = tl (celems Q) @ ns \<and> set ns = {w \<in> set (adj G (hd (celems Q))). white G w}"
    "order G3 = order G" "gsize G3 = gsize G"
  using assms by (auto simp: bfs_next_def Let_def vertices_def intro: reach_adj_cong)

lemma bfs_next_vertex:
  assumes q: "bfs_qinv G Q" and ne: "celems Q \<noteq> []" and n: "bfs_next G Q G3 Q3" and v: "v \<in> set (vertices G)"
  defines "u \<equiv> hd (celems Q)"
  shows "white G3 v \<longleftrightarrow> white G v \<and> v \<notin> set (adj G u)"
    and "dist G3 v = (if white G v \<and> v \<in> set (adj G u) then dist G u + 1 else dist G v)"
    and "parent G3 ! nat v = (if white G v \<and> v \<in> set (adj G u) then u else parent G ! nat v)"
proof -
  have g: "graph_inv G" using q by (simp add: bfs_qinv_def)
  have j: "nat v < length (gcolor G)" using graph_inv_lengths(3) [OF g] vertex_nat_less [OF v] by simp
  have iv: "int (nat v) = v" using v by simp
  have wu: "\<not> white G u" using bfs_qinv_head(3) [OF q ne] by (simp add: u_def)
  have uv: "nat v = nat u \<longleftrightarrow> v = u" using nat_vertex_eq [OF v, of u] by auto
  note f = n [unfolded bfs_next_def Let_def, folded u_def]
  from f obtain ns where
    "\<forall>j < length (gcolor G). gcolor G3 ! j = (if j = nat u then BLACK_G
        else if int j \<in> set (adj G u) \<and> gcolor G ! j = WHITE then GRAY else gcolor G ! j) \<and>
      distance G3 ! j = (if int j \<in> set (adj G u) \<and> gcolor G ! j = WHITE then distance G ! nat u + 1 else distance G ! j) \<and>
      parent G3 ! j = (if int j \<in> set (adj G u) \<and> gcolor G ! j = WHITE then u else parent G ! j)" by auto
  note a = this [rule_format, OF j, unfolded iv]
  show "white G3 v \<longleftrightarrow> white G v \<and> v \<notin> set (adj G u)"
    using a wu uv by (auto simp: white_def)
  show "dist G3 v = (if white G v \<and> v \<in> set (adj G u) then dist G u + 1 else dist G v)"
    using a by (auto simp: white_def dist_def)
  show "parent G3 ! nat v = (if white G v \<and> v \<in> set (adj G u) then u else parent G ! nat v)"
    using a by (auto simp: white_def)
qed

lemma sorted_map_hd_le: "sorted (map f xs) \<Longrightarrow> x \<in> set xs \<Longrightarrow> f (hd xs) \<le> f x"
  by (cases xs) auto

text \<open>While the head of the queue is at distance \<open>D\<close>, every vertex reachable within
  \<open>D\<close> edges has been discovered.\<close>

lemma bfs_discovered_within:
  assumes i: "bfs_dist_inv s G Q" and q: "bfs_qinv G Q" and ne: "celems Q \<noteq> []"
  shows "reach G s k w \<Longrightarrow> int k \<le> dist G (hd (celems Q)) \<Longrightarrow> \<not> white G w"
proof (induction k arbitrary: w)
  case 0
  then show ?case using i by (simp add: bfs_dist_inv_def)
next
  case (Suc k)
  have g: "graph_inv G" using q by (simp add: bfs_qinv_def)
  have s: "s \<in> set (vertices G)" using i by (simp add: bfs_dist_inv_def)
  from Suc.prems(1) consider "reach G s k w" | x where "reach G s k x" "w \<in> set (adj G x)"
    by (auto simp: reach_Suc)
  then show ?case
  proof cases
    case 1
    then show ?thesis using Suc by simp
  next
    case 2
    have x: "\<not> white G x" using Suc.IH [OF 2(1)] Suc.prems(2) by simp
    have xv: "x \<in> set (vertices G)" by (rule reach_vertices [OF g s 2(1)])
    have "0 \<le> dist G x" "nat (dist G x) \<le> k"
      using i x xv 2(1) unfolding bfs_dist_inv_def by blast+
    then have lt: "dist G x < dist G (hd (celems Q))" using Suc.prems(2) by linarith
    have "x \<notin> set (celems Q)"
    proof
      assume "x \<in> set (celems Q)"
      then have "dist G (hd (celems Q)) \<le> dist G x"
        using i sorted_map_hd_le [of "dist G" "celems Q" x] by (simp add: bfs_dist_inv_def)
      with lt show False by simp
    qed
    then have "finished G Q x" using x by (simp add: finished_def)
    then show ?thesis using i xv 2(2) unfolding bfs_dist_inv_def by blast
  qed
qed


section \<open>The invariant is kept\<close>

lemma map_const_on: "(\<And>x. x \<in> set xs \<Longrightarrow> f x = c) \<Longrightarrow> map f xs = replicate (length xs) c"
  by (induction xs) auto

lemma bfs_dist_invD:
  assumes "bfs_dist_inv s G Q"
  shows "source G = s" "s \<in> set (vertices G)" "\<not> white G s" "dist G s = 0" "parent G ! nat s = NIL"
    "\<And>v. v \<in> set (vertices G) \<Longrightarrow> white G v \<Longrightarrow> dist G v = INF_G \<and> parent G ! nat v = NIL"
    "\<And>v. v \<in> set (vertices G) \<Longrightarrow> \<not> white G v \<Longrightarrow>
       0 \<le> dist G v \<and> reach G s (nat (dist G v)) v \<and> (\<forall>k. reach G s k v \<longrightarrow> nat (dist G v) \<le> k)"
    "\<And>v w. v \<in> set (vertices G) \<Longrightarrow> finished G Q v \<Longrightarrow> w \<in> set (adj G v) \<Longrightarrow> \<not> white G w"
    "sorted (map (dist G) (celems Q))"
    "\<And>v. v \<in> set (celems Q) \<Longrightarrow> dist G v \<le> dist G (hd (celems Q)) + 1"
    "\<And>v. v \<in> set (vertices G) \<Longrightarrow> finished G Q v \<Longrightarrow> celems Q \<noteq> [] \<Longrightarrow> dist G v \<le> dist G (hd (celems Q))"
    "\<And>v. v \<in> set (vertices G) \<Longrightarrow> \<not> white G v \<Longrightarrow> v \<noteq> s \<Longrightarrow>
       parent G ! nat v \<in> set (vertices G) \<and> \<not> white G (parent G ! nat v) \<and>
       v \<in> set (adj G (parent G ! nat v)) \<and> dist G v = dist G (parent G ! nat v) + 1"
  using assms unfolding bfs_dist_inv_def by (simp_all del: vertex_iff)

lemma bfs_dist_inv_step:
  assumes i: "bfs_dist_inv s G Q" and q: "bfs_qinv G Q" and ne: "celems Q \<noteq> []"
    and q3: "bfs_qinv G3 Q3" and n: "bfs_next G Q G3 Q3"
  shows "bfs_dist_inv s G3 Q3"
proof -
  define u where "u = hd (celems Q)"
  define D where "D = dist G u"
  have g: "graph_inv G" using q by (simp add: bfs_qinv_def)
  note gl = bfs_next_global [OF n]
  note vx = bfs_next_vertex [OF q ne n, folded u_def]
  note I = bfs_dist_invD [OF i, folded u_def D_def]
  have V: "set (vertices G3) = set (vertices G)" using gl(2) by simp
  have uV: "u \<in> set (vertices G)" and wu: "\<not> white G u"
    using bfs_qinv_head(2,3) [OF q ne] by (simp_all add: u_def)
  have AV: "set (adj G u) \<subseteq> set (vertices G)" by (rule graph_inv_vertex(3) [OF g uV])
  have keep: "dist G3 v = dist G v" "parent G3 ! nat v = parent G ! nat v" "\<not> white G3 v"
    if "v \<in> set (vertices G)" "\<not> white G v" for v
    using vx [OF that(1)] that(2) by simp_all
  have new: "dist G3 v = D + 1" "parent G3 ! nat v = u" "\<not> white G3 v"
    if "v \<in> set (vertices G)" "white G v" "v \<in> set (adj G u)" for v
    using vx [OF that(1)] that(2,3) by (simp_all add: D_def)
  obtain ns where Q3: "celems Q3 = tl (celems Q) @ ns" and ns: "set ns = {w \<in> set (adj G u). white G w}"
    using gl(5) by (auto simp: u_def)
  have qs: "celems Q = u # tl (celems Q)" using ne by (simp add: u_def)
  have qset: "set (celems Q) = insert u (set (tl (celems Q)))" by (subst qs) simp
  have tlQ: "v \<in> set (celems Q)" if "v \<in> set (tl (celems Q))" for v
    using that qs by (metis list.set_intros(2))
  have qV: "v \<in> set (vertices G)" "\<not> white G v" if "v \<in> set (celems Q)" for v
    using q that by (auto simp: bfs_qinv_def)
  have D0: "0 \<le> D" "reach G s (nat D) u" using I(7) [OF uV wu] by (simp_all add: D_def)
  have tlD: "D \<le> dist G v" "dist G v \<le> D + 1" "dist G3 v = dist G v" if "v \<in> set (tl (celems Q))" for v
  proof -
    have v: "v \<in> set (celems Q)" by (rule tlQ [OF that])
    show "D \<le> dist G v" using I(9) sorted_map_hd_le [OF _ v, of "dist G"] by (simp add: D_def u_def)
    show "dist G v \<le> D + 1" by (rule I(10) [OF v])
    show "dist G3 v = dist G v" using keep(1) qV [OF v] by simp
  qed
  have nsD: "dist G3 v = D + 1" if "v \<in> set ns" for v
    using that ns AV new(1) by auto
  have d3tl: "map (dist G3) (tl (celems Q)) = map (dist G) (tl (celems Q))"
    using tlD(3) by simp
  have d3ns: "map (dist G3) ns = replicate (length ns) (D + 1)"
    by (rule map_const_on) (rule nsD)
  have fin3: "v = u \<or> (finished G Q v \<and> \<not> white G v)" if "finished G3 Q3 v" "v \<in> set (vertices G)" for v
  proof (cases "v = u")
    case False
    have "\<not> white G v"
    proof
      assume w: "white G v"
      then have "v \<in> set (adj G u)" using that vx(1) by (auto simp: finished_def)
      then have "v \<in> set ns" using ns w by simp
      then show False using that(1) Q3 by (simp add: finished_def)
    qed
    moreover have "v \<notin> set (celems Q)" using that(1) Q3 False qset by (auto simp: finished_def)
    ultimately show ?thesis by (simp add: finished_def)
  qed simp
  have hd3: "D \<le> dist G3 (hd (celems Q3))" if "celems Q3 \<noteq> []"
  proof (cases "tl (celems Q)")
    case Nil
    then have "ns \<noteq> []" "hd (celems Q3) = hd ns" using that Q3 by simp_all
    then show ?thesis using nsD [of "hd ns"] by simp
  next
    case (Cons a l)
    then show ?thesis using tlD [of a] Q3 by simp
  qed
  have c1: "source G3 = s" "s \<in> set (vertices G3)" using gl(3) I(1,2) V by simp_all
  have c2: "\<not> white G3 s" "dist G3 s = 0" "parent G3 ! nat s = NIL" using keep I(2-5) by simp_all
  have c3: "\<forall>v \<in> set (vertices G3). white G3 v \<longrightarrow> dist G3 v = INF_G \<and> parent G3 ! nat v = NIL"
    using V vx I(6) by auto
  have c4: "\<forall>v \<in> set (vertices G3). \<not> white G3 v \<longrightarrow>
     0 \<le> dist G3 v \<and> reach G3 s (nat (dist G3 v)) v \<and> (\<forall>k. reach G3 s k v \<longrightarrow> nat (dist G3 v) \<le> k)"
  proof (intro ballI impI)
    fix v assume v: "v \<in> set (vertices G3)" and w3: "\<not> white G3 v"
    show "0 \<le> dist G3 v \<and> reach G3 s (nat (dist G3 v)) v \<and> (\<forall>k. reach G3 s k v \<longrightarrow> nat (dist G3 v) \<le> k)"
    proof (cases "white G v")
      case False
      then show ?thesis using v V keep I(7) gl(4) by simp
    next
      case True
      then have vA: "v \<in> set (adj G u)" using v V w3 vx(1) by auto
      have "nat (D + 1) = Suc (nat D)" using D0 by simp
      moreover have "Suc (nat D) \<le> k" if "reach G s k v" for k
      proof (rule ccontr)
        assume "\<not> Suc (nat D) \<le> k"
        then have "int k \<le> dist G (hd (celems Q))" using D0 by (simp add: D_def u_def)
        then show False using bfs_discovered_within [OF i q ne that] True by simp
      qed
      ultimately show ?thesis using new [OF _ True vA] v V D0 reach_step [OF D0(2) vA] gl(4) by simp
    qed
  qed
  have c5: "\<forall>v \<in> set (vertices G3). finished G3 Q3 v \<longrightarrow> (\<forall>w \<in> set (adj G3 v). \<not> white G3 w)"
  proof (intro ballI impI)
    fix v w assume v: "v \<in> set (vertices G3)" and f: "finished G3 Q3 v" and w: "w \<in> set (adj G3 v)"
    show "\<not> white G3 w"
    proof (cases "v = u")
      case True
      then show ?thesis using w gl(1) vx(1) AV by auto
    next
      case False
      then have "finished G Q v" using fin3 [OF f] v V by simp
      then have "\<not> white G w" using I(8) v V w gl(1) by simp
      moreover have "w \<in> set (adj G v)" "v \<in> set (vertices G)" using v V w gl(1) by simp_all
      then have "w \<in> set (vertices G)" using graph_inv_vertex(3) [OF g] by blast
      ultimately show ?thesis using keep by simp
    qed
  qed
  have c6: "sorted (map (dist G3) (celems Q3))"
  proof -
    have "\<forall>x \<in> set (tl (celems Q)). dist G x \<le> D + 1" using tlD(2) by blast
    moreover have "sorted (map (dist G) (tl (celems Q)))" using I(9) qs by (metis list.simps(9) sorted_simps(2))
    ultimately show ?thesis by (simp add: Q3 d3tl d3ns sorted_append)
  qed
  have c7: "\<forall>v \<in> set (celems Q3). dist G3 v \<le> dist G3 (hd (celems Q3)) + 1"
  proof
    fix v assume v: "v \<in> set (celems Q3)"
    have "dist G3 v \<le> D + 1" using v Q3 tlD(2,3) nsD by auto
    then show "dist G3 v \<le> dist G3 (hd (celems Q3)) + 1" using hd3 v by fastforce
  qed
  have c8: "\<forall>v \<in> set (vertices G3). finished G3 Q3 v \<longrightarrow> celems Q3 \<noteq> [] \<longrightarrow> dist G3 v \<le> dist G3 (hd (celems Q3))"
  proof (intro ballI impI)
    fix v assume v: "v \<in> set (vertices G3)" and f: "finished G3 Q3 v" and ne3: "celems Q3 \<noteq> []"
    have "dist G3 v \<le> D"
    proof (cases "v = u")
      case True
      then show ?thesis using keep uV wu by (simp add: D_def)
    next
      case False
      then have "finished G Q v" "\<not> white G v" using fin3 [OF f] v V by simp_all
      then show ?thesis using I(11) keep v V ne by simp
    qed
    then show "dist G3 v \<le> dist G3 (hd (celems Q3))" using hd3 [OF ne3] by simp
  qed
  have c9: "\<forall>v \<in> set (vertices G3). \<not> white G3 v \<and> v \<noteq> s \<longrightarrow>
     parent G3 ! nat v \<in> set (vertices G3) \<and> \<not> white G3 (parent G3 ! nat v) \<and>
     v \<in> set (adj G3 (parent G3 ! nat v)) \<and> dist G3 v = dist G3 (parent G3 ! nat v) + 1"
  proof (intro ballI impI)
    fix v assume v: "v \<in> set (vertices G3)" and nw: "\<not> white G3 v \<and> v \<noteq> s"
    show "parent G3 ! nat v \<in> set (vertices G3) \<and> \<not> white G3 (parent G3 ! nat v) \<and>
       v \<in> set (adj G3 (parent G3 ! nat v)) \<and> dist G3 v = dist G3 (parent G3 ! nat v) + 1"
    proof (cases "white G v")
      case False
      then show ?thesis using I(12) [of v] keep v V nw gl(1) by auto
    next
      case True
      then have vA: "v \<in> set (adj G u)" using v V nw vx(1) by auto
      then show ?thesis using new [OF _ True vA] v V uV keep [OF uV wu] gl(1) by (simp add: D_def)
    qed
  qed
  show ?thesis unfolding bfs_dist_inv_def
    using c1 c2 c3 c4 c5 c6 c7 c8 c9 by (intro conjI) assumption+
qed

section \<open>Start and end of the search\<close>

lemma bfs_dist_inv_start:
  assumes "graph_inv G" and "s \<in> set (vertices G)" and "celems Q = [s]" and "source G = s"
    and "\<forall>v \<in> set (vertices G). gcolor G ! nat v = (if v = s then GRAY else WHITE) \<and>
       distance G ! nat v = (if v = s then 0 else INF_G) \<and> parent G ! nat v = NIL"
  shows "bfs_dist_inv s G Q"
proof -
  have w: "white G v \<longleftrightarrow> v \<noteq> s" "dist G v = (if v = s then 0 else INF_G)" "parent G ! nat v = NIL"
    if "v \<in> set (vertices G)" for v
    using assms(5) that by (auto simp: white_def dist_def)
  have f: "\<not> finished G Q v" if "v \<in> set (vertices G)" for v
    using w [OF that] assms(3) by (auto simp: finished_def)
  have r: "nat 0 \<le> k" for k :: nat by simp
  show ?thesis unfolding bfs_dist_inv_def
    using assms(2-4) w f w [OF assms(2)] by (auto simp del: vertex_iff)
qed

lemma BFS_result:
  assumes g: "graph_inv G" and s: "s \<in> set (vertices G)"
  shows "\<exists>G' Q'. BFS G s = Some (Inr G') \<and> bfs_qinv G' Q' \<and> celems Q' = [] \<and> bfs_dist_inv s G' Q' \<and>
    adj G' = adj G \<and> order G' = order G \<and> gsize G' = gsize G"
proof -
  obtain G2 where G2: "BFS G s = bfs_loop G2 (append_C newList_C s)" "bfs_qinv G2 (append_C newList_C s)"
    "adj G2 = adj G" "order G2 = order G" "source G2 = s" "gsize G2 = gsize G"
    "\<forall>v \<in> set (vertices G). gcolor G2 ! nat v = (if v = s then GRAY else WHITE) \<and>
       distance G2 ! nat v = (if v = s then 0 else INF_G) \<and> parent G2 ! nat v = NIL"
    using BFS_start [OF g s] by blast
  have "celems (append_C newList_C s) = [s]" using append_C_rep [OF newList_C_rep, of s] by (simp add: crep_iff)
  moreover have "vertices G2 = vertices G" using G2(4) by (simp add: vertices_def)
  ultimately have "bfs_dist_inv s G2 (append_C newList_C s)"
    using bfs_dist_inv_start [of G2 s] G2 s by (simp add: bfs_qinv_def)
  then have i2: "bfs_dist_inv s G2 (append_C newList_C s) \<and> adj G2 = adj G \<and> order G2 = order G \<and> gsize G2 = gsize G"
    using G2 by simp
  have "\<exists>G' Q'. bfs_loop G2 (append_C newList_C s) = Some (Inr G') \<and> bfs_qinv G' Q' \<and> celems Q' = [] \<and>
      (bfs_dist_inv s G' Q' \<and> adj G' = adj G \<and> order G' = order G \<and> gsize G' = gsize G)"
  proof (rule bfs_loop_induct [where I = "\<lambda>H Q. bfs_dist_inv s H Q \<and> adj H = adj G \<and> order H = order G \<and> gsize H = gsize G",
        OF G2(2) i2])
    fix H Q H3 Q3
    assume a: "bfs_qinv H Q" "bfs_dist_inv s H Q \<and> adj H = adj G \<and> order H = order G \<and> gsize H = gsize G"
      "celems Q \<noteq> []" "bfs_qinv H3 Q3" "bfs_next H Q H3 Q3"
    have "adj H3 = adj H" "order H3 = order H" "gsize H3 = gsize H"
      using bfs_next_global [OF a(5)] by simp_all
    then show "bfs_dist_inv s H3 Q3 \<and> adj H3 = adj G \<and> order H3 = order G \<and> gsize H3 = gsize G"
      using bfs_dist_inv_step [of s H Q H3 Q3] a by simp
  qed
  then show ?thesis using G2(1) by auto
qed

text \<open>At the end the queue is empty: the non-\<open>WHITE\<close> vertices are exactly those
  reachable from the source, at their shortest distance.\<close>

lemma bfs_final:
  assumes q: "bfs_qinv G Q" and e: "celems Q = []" and i: "bfs_dist_inv s G Q" and v: "v \<in> set (vertices G)"
  shows "\<not> white G v \<longleftrightarrow> (\<exists>k. reach G s k v)"
    and "\<not> white G v \<Longrightarrow> nat (dist G v) = (LEAST k. reach G s k v) \<and> 0 \<le> dist G v"
    and "white G v \<Longrightarrow> dist G v = INF_G \<and> parent G ! nat v = NIL"
proof -
  note I = bfs_dist_invD [OF i]
  have g: "graph_inv G" using q by (simp add: bfs_qinv_def)
  have cl: "reach G s k w \<Longrightarrow> w \<in> set (vertices G) \<and> \<not> white G w" for k w
  proof (rule reach_closed [where P = "\<lambda>w. w \<in> set (vertices G) \<and> \<not> white G w"])
    show "s \<in> set (vertices G) \<and> \<not> white G s" using I(2,3) by simp
  next
    fix x y assume x: "x \<in> set (vertices G) \<and> \<not> white G x" and y: "y \<in> set (adj G x)"
    then have "finished G Q x" using e by (simp add: finished_def)
    then show "y \<in> set (vertices G) \<and> \<not> white G y" using I(8) x y graph_inv_vertex(3) [OF g] by blast
  qed
  show "\<not> white G v \<longleftrightarrow> (\<exists>k. reach G s k v)" using I(7) [OF v] cl by blast
  show "\<not> white G v \<Longrightarrow> nat (dist G v) = (LEAST k. reach G s k v) \<and> 0 \<le> dist G v"
    using I(7) [OF v] by (auto intro: Least_equality [symmetric])
  show "white G v \<Longrightarrow> dist G v = INF_G \<and> parent G ! nat v = NIL" using I(6) [OF v] by simp
qed

section \<open>\<open>getPath\<close> after the search\<close>

lemma is_walk_snoc: "p \<noteq> [] \<Longrightarrow> is_walk G (p @ [v]) \<longleftrightarrow> is_walk G p \<and> v \<in> set (adj G (last p))"
  by (induction p rule: induct_list012) (auto simp: is_walk_def)

lemma append_C_inv:
  assumes "clist_inv L"
  shows "clist_inv (append_C L x) \<and> celems (append_C L x) = celems L @ [x]"
proof -
  have "crep L (celems L, snd (absC L))" using crep_absC [OF assms] by (simp add: absC_def)
  from append_C_rep [OF this, of x] show ?thesis by (simp add: crep_def absC_def)
qed

lemma NIL_not_vertex: "v \<in> set (vertices G) \<Longrightarrow> v \<noteq> NIL"
  by (simp add: NIL_def)

lemma getPath_reached:
  assumes q: "bfs_qinv G Q" and e: "celems Q = []" and i: "bfs_dist_inv s G Q" and L: "clist_inv L"
  shows "v \<in> set (vertices G) \<Longrightarrow> \<not> white G v \<Longrightarrow> \<exists>L'. getPath L G v = Some (Inr L') \<and> clist_inv L' \<and>
    (\<exists>p. celems L' = celems L @ p \<and> hd p = s \<and> last p = v \<and> is_walk G p \<and> length p = Suc (nat (dist G v)))"
proof (induction "nat (dist G v)" arbitrary: v rule: less_induct)
  case less
  note I = bfs_dist_invD [OF i]
  have valid: "\<not> invalid_vertex G v" "getSource G \<noteq> NIL"
    using less.prems I(1,2) NIL_not_vertex by (auto simp: invalid_vertex_def getSource_def)
  show ?case
  proof (cases "v = s")
    case True
    then have "getPath L G v = Some (Inr (append_C L v))" using valid I(1) by (subst getPath.simps) (simp add: getSource_def)
    then show ?thesis using append_C_inv [OF L, of v] True I(4) by (intro exI [of _ "append_C L v"] conjI exI [of _ "[v]"]) (simp_all add: is_walk_def)
  next
    case False
    define p where "p = parent G ! nat v"
    have P: "p \<in> set (vertices G)" "\<not> white G p" "v \<in> set (adj G p)" "dist G v = dist G p + 1"
      using I(12) [OF less.prems False] by (simp_all add: p_def)
    have "0 \<le> dist G p" using I(7) [OF P(1,2)] by simp
    then have lt: "nat (dist G p) < nat (dist G v)" using P(4) by simp
    obtain L1 pp where L1: "getPath L G p = Some (Inr L1)" "clist_inv L1" "celems L1 = celems L @ pp"
      "hd pp = s" "last pp = p" "is_walk G pp" "length pp = Suc (nat (dist G p))"
      using less.hyps [OF lt P(1,2)] by blast
    have "getPath L G v = Some (Inr (append_C L1 v))"
      using valid False L1(1) NIL_not_vertex [OF P(1)] by (subst getPath.simps) (simp add: getSource_def I(1) p_def)
    moreover have "pp \<noteq> []" using L1(7) by auto
    ultimately show ?thesis using append_C_inv [OF L1(2), of v] L1 P(3,4) \<open>0 \<le> dist G p\<close>
      by (intro exI [of _ "append_C L1 v"] conjI exI [of _ "pp @ [v]"]) (simp_all add: is_walk_snoc nat_add_distrib)
  qed
qed

lemma getPath_unreached:
  assumes i: "bfs_dist_inv s G Q" and L: "clist_inv L" and v: "v \<in> set (vertices G)" and w: "white G v"
  shows "getPath L G v = Some (Inr (append_C L NIL))"
proof -
  note I = bfs_dist_invD [OF i]
  have "v \<noteq> s" using w I(3) by auto
  moreover have "\<not> invalid_vertex G v" "getSource G \<noteq> NIL"
    using v I(1,2) NIL_not_vertex by (auto simp: invalid_vertex_def getSource_def)
  ultimately show ?thesis using I(1) I(6) [OF v w] by (subst getPath.simps) (simp add: getSource_def)
qed

section \<open>Properties of breadth-first search\<close>

text \<open>C37. On a valid graph and a valid source, \<open>BFS\<close> returns (its loops end), keeps the
  graph valid with the same adjacency lists, records the source, and leaves \<open>getDist\<close>
  returning the length of a shortest walk from the source, or \<open>INF\<close> when there is none.\<close>

theorem BFS_shortest_paths:
  assumes "graph_inv G" and "s \<in> set (vertices G)"
  shows "\<exists>G'. BFS G s = Some (Inr G') \<and> graph_inv G' \<and> adj G' = adj G \<and> getSource G' = s \<and>
    (\<forall>v \<in> set (vertices G). getDist G' v = Inr (if \<exists>k. reach G s k v then int (LEAST k. reach G s k v) else INF_G))"
proof -
  obtain G' Q' where r: "BFS G s = Some (Inr G')" "bfs_qinv G' Q'" "celems Q' = []" "bfs_dist_inv s G' Q'"
    "adj G' = adj G" "order G' = order G"
    using BFS_result [OF assms] by blast
  have V: "vertices G' = vertices G" using r(6) by (simp add: vertices_def)
  have R: "reach G' = reach G" using r(5) by (rule reach_adj_cong)
  have "getDist G' v = Inr (if \<exists>k. reach G s k v then int (LEAST k. reach G s k v) else INF_G)"
    if v: "v \<in> set (vertices G)" for v
  proof -
    note f = bfs_final [OF r(2-4), of v, unfolded V R]
    have "getDist G' v = Inr (dist G' v)" using v r(6) by (simp add: getDist_def invalid_vertex_def dist_def)
    then show ?thesis using f v by (cases "white G' v") auto
  qed
  moreover have "graph_inv G'" using r(2) by (simp add: bfs_qinv_def)
  moreover have "getSource G' = s" using bfs_dist_invD(1) [OF r(4)] by (simp add: getSource_def)
  ultimately show ?thesis using r(1,5) by blast
qed

text \<open>C38. After \<open>BFS(G, s)\<close>, \<open>getPath(L, G, v)\<close> returns (its recursion ends) and
  appends to a valid \<open>L\<close> a shortest walk from \<open>s\<close> to \<open>v\<close> when \<open>v\<close> is reachable, and
  \<open>NIL\<close> otherwise.\<close>

theorem getPath_shortest_walk:
  assumes "graph_inv G" and "s \<in> set (vertices G)" and "BFS G s = Some (Inr G')" and "clist_inv L"
    and "v \<in> set (vertices G)"
  shows "\<exists>L'. getPath L G' v = Some (Inr L') \<and> clist_inv L' \<and>
    (if \<exists>k. reach G s k v then \<exists>p. celems L' = celems L @ p \<and> hd p = s \<and> last p = v \<and> is_walk G p \<and>
        length p = Suc (LEAST k. reach G s k v)
     else celems L' = celems L @ [NIL])"
proof -
  obtain G'' Q' where r: "BFS G s = Some (Inr G'')" "bfs_qinv G'' Q'" "celems Q' = []" "bfs_dist_inv s G'' Q'"
    "adj G'' = adj G" "order G'' = order G"
    using BFS_result [OF assms(1,2)] by blast
  have G: "G'' = G'" using r(1) assms(3) by simp
  have V: "vertices G' = vertices G" using r(6) G by (simp add: vertices_def)
  have A: "adj G' = adj G" using r(5) G by simp
  have R: "reach G' = reach G" using A by (rule reach_adj_cong)
  have W: "is_walk G' = is_walk G" using A by (simp add: is_walk_def fun_eq_iff)
  have vV: "v \<in> set (vertices G')" using assms(5) V by simp
  note f = bfs_final [OF r(2-4) [unfolded G] vV, unfolded R]
  show ?thesis
  proof (cases "\<exists>k. reach G s k v")
    case True
    then have nw: "\<not> white G' v" using f(1) by simp
    have "\<exists>L'. getPath L G' v = Some (Inr L') \<and> clist_inv L' \<and>
      (\<exists>p. celems L' = celems L @ p \<and> hd p = s \<and> last p = v \<and> is_walk G' p \<and> length p = Suc (nat (dist G' v)))"
      by (rule getPath_reached [OF r(2-4) [unfolded G] assms(4) vV nw])
    then obtain L' p where L': "getPath L G' v = Some (Inr L')" "clist_inv L'" "celems L' = celems L @ p"
      "hd p = s" "last p = v" "is_walk G' p" "length p = Suc (nat (dist G' v))"
      by blast
    have "length p = Suc (LEAST k. reach G s k v)" using L'(7) f(2) [OF nw] by simp
    then have "\<exists>p. celems L' = celems L @ p \<and> hd p = s \<and> last p = v \<and> is_walk G p \<and>
        length p = Suc (LEAST k. reach G s k v)" using L'(3-6) W by (intro exI [of _ p]) simp
    then show ?thesis using L'(1,2) True by (intro exI [of _ L']) (simp only: if_True simp_thms)
  next
    case False
    then have w: "white G' v" using f(1) by simp
    have "getPath L G' v = Some (Inr (append_C L NIL))" by (rule getPath_unreached [OF r(4) [unfolded G] assms(4) vV w])
    then show ?thesis using append_C_inv [OF assms(4), of NIL] False by simp
  qed
qed

end
