(* ===== verification/Spec2Isabelle.thy ===== *)
theory Spec2Isabelle
  imports Dict_Ops Cursor_List_Refine BST_Dictionary C_List_Refine Graph_Paths
begin

text \<open>
  \<^bold>\<open>A verification library for the CSE 101 data structures.\<close>
  The repository holds the programming assignments pa1--pa8 of a data-structures course:
  C list, graph and matrix ADTs (pa1--pa4) and C++ classes (pa5--pa8). This development
  models the dictionaries of pa7 and pa8, the lists of pa2 and pa6 and the graph of
  pa2 at the level of their pointers, and proves them against the contracts their
  comments, headers and the specification state.

  \<^bold>\<open>The pa8 dictionary\<close> (\<open>src/pa8/Dictionary.cpp\<close>, a red-black tree with a sentinel
  \<open>nil\<close>, parent pointers and an iterator \<open>current\<close>):
  \<^item> \<open>RB_Tree\<close>: the node type \<open>tree\<close> (the sentinel is the constructor \<open>nil\<close>), parent
    links as a zipper \<open>(tree, ctx list)\<close>, \<open>search\<close>, \<open>findMin\<close>, \<open>findMax\<close>, \<open>findNext\<close>,
    \<open>findPrev\<close>, \<open>LeftRotate\<close>, \<open>RightRotate\<close>, \<open>RB_Transplant\<close>; the in-order abstraction
    \<open>inorder\<close>, the search-tree and red-black invariants, and the height bound
    \<open>2 ^ height \<le> (size + 1) ^ 2\<close>.
  \<^item> \<open>RB_Insert\<close>: the walk of \<open>setValue\<close> and \<open>RB_InsertFixUp\<close>; the fix-up loop is a
    \<open>function\<close> over the zipper whose measure is the depth of the focus, proved to
    terminate, to reach no null pointer and to restore the invariants.
  \<^item> \<open>RB_Delete\<close>: \<open>RB_Delete\<close> with its successor case and \<open>RB_DeleteFixUp\<close>, whose
    measure counts two per level of depth plus one for a black focus.
  \<^item> \<open>RB_Dictionary\<close>: the class state as a record (\<open>root\<close>, \<open>current\<close> named by its key,
    \<open>num_pairs\<close>), one definition per public member (\<open>size\<close>, \<open>contains\<close>, \<open>getValue\<close>,
    \<open>setValue\<close>, \<open>remove\<close>, \<open>clear\<close>, \<open>begin\<close>, \<open>end\<close>, \<open>next\<close>, \<open>prev\<close>, \<open>currentKey\<close>,
    \<open>currentVal\<close>, the copy constructor, \<open>operator=\<close>, \<open>to_string\<close>, \<open>pre_string\<close>,
    \<open>equals\<close>), every \<open>throw\<close> an \<open>Inl\<close> value, the class invariant \<open>dict_inv\<close>, and the
    abstraction to the in-order list of pairs.
  \<^item> \<open>Dict_Ops\<close>: the client's operations as a datatype, runs that stop at the first
    exception, and the inductive set \<open>reachable\<close> of dictionaries built by calls and
    copies, with the invariant proved by rule induction.

  \<^bold>\<open>The pa6 cursor list\<close> (\<open>src/pa6/List.cpp\<close>, a doubly linked list between two
  dummy nodes, with a cursor between \<open>beforeCursor\<close> and \<open>afterCursor\<close>):
  \<^item> \<open>Cursor_List\<close>: the record \<open>DList\<close>; nodes carry identities (0 and 1 the dummies,
    fresh ones from \<open>next_id\<close>), so that a pointer to a deleted node reads as
    \<open>Use_after_free\<close> and a dummy's null link as \<open>Null_dereference\<close>; one definition per
    member function; the loops of \<open>clear\<close>, \<open>findNext\<close>, \<open>findPrev\<close> and \<open>cleanup\<close> as
    \<open>function\<close>s with their termination measures (nodes left, distance to the end,
    ids left), the copy loop as structural recursion; the abstraction \<open>abs_L\<close> to the
    pair (elements before the cursor, elements after it) and the invariant \<open>list_inv\<close>.
  \<^item> \<open>Cursor_List_Ops\<close>: each cursor operation preserves \<open>list_inv\<close> and acts on
    \<open>abs_L\<close> as documented; \<open>Cursor_List_Loops\<close>: the loops return with the documented
    result (\<open>findNext\<close>, \<open>clear\<close>, copy, \<open>concat\<close>, \<open>to_string\<close>, \<open>equals\<close>, \<open>cleanup\<close>);
    \<open>Cursor_List_Refine\<close>: the documented behaviour as an abstract machine \<open>abs_step\<close>
    and the simulation \<open>run_sim\<close> over any sequence of operations.

  \<^bold>\<open>The pa7 dictionary\<close> (\<open>src/pa7/Dictionary.cpp\<close>, an unbalanced search tree with
  parent pointers): \<open>BST_Tree\<close> holds the tree \<open>btree\<close>, its zipper and the navigation
  (\<open>search\<close>, \<open>findMin\<close>, \<open>findMax\<close>, \<open>findNext\<close>, \<open>findPrev\<close>); \<open>BST_Dictionary\<close> the class
  state \<open>BDictionary\<close>, one definition per member (suffix \<open>_B\<close>), the invariant
  \<open>bdict_inv\<close> and the abstraction \<open>bpairs\<close> to the sorted list of pairs.

  \<^bold>\<open>The pa2 list\<close> (\<open>src/pa2/List.c\<close>, a C doubly linked list with a cursor and an
  index): \<open>C_List\<close> models \<open>ListObj\<close> as the record \<open>CList\<close> of (node id, data) pairs in
  list order, \<open>NULL\<close> as \<open>None\<close> (a dereference is \<open>Null_dereference\<close>) and
  \<open>printf\<close> followed by \<open>exit(EXIT_FAILURE)\<close> as the error \<open>Exit_failure\<close>, with one
  definition per function (suffix \<open>_C\<close>). \<open>C_List_Refine\<close> states what \<open>List.h\<close>
  documents as the machine \<open>abs_stepC\<close> on (elements, cursor index), proves a lemma per
  operation relating the two, and the simulation of whole call sequences.

  \<^bold>\<open>The pa2 graph\<close> (\<open>src/pa2/Graph.c\<close>, adjacency lists of pa2 lists and BFS):
  \<open>Graph\<close> models \<open>GraphObj\<close> as a record whose arrays are lists indexed by the vertex
  label, and calls the \<open>List.c\<close> model for every list operation, so the graph is the
  composition of the two components. The loops guarded by a list cursor (the sorted
  insertion of \<open>addEdge\<close>/\<open>addArc\<close>, the two loops of \<open>BFS\<close>, \<open>printGraph\<close>) and the
  recursion of \<open>getPath\<close> are \<open>partial_function (option)\<close>: \<open>None\<close> is non-termination,
  and each is proved to return on valid graphs. \<open>Graph_Ops\<close> proves the insertion equal
  to \<open>insort\<close> and specifies \<open>newGraph\<close>, \<open>makeNull\<close>, \<open>addEdge\<close>, \<open>addArc\<close>;
  \<open>Graph_BFS\<close> shows one scan is a fold of \<open>discover\<close> and that the queue loop ends
  (measure: \<open>WHITE\<close> vertices plus queue length); \<open>Graph_Paths\<close> proves the
  breadth-first invariant (the queue is sorted by distance and spans two consecutive
  distances, finished vertices have no \<open>WHITE\<close> neighbour) and derives shortest
  distances and shortest \<open>getPath\<close> walks, with \<open>reach\<close> the walks of bounded length.

  \<^bold>\<open>Properties.\<close> C1--C18: the pa8 dictionary (correctness of \<open>setValue\<close> and
  \<open>remove\<close> against map update and deletion, the invariant of every reachable dictionary,
  the height bound, iteration, errors, copies, termination of the fix-up loops,
  rotations, the dumps). C19--C26: the pa6 list (refinement of the documented machine,
  memory safety, \<open>cleanup\<close>, \<open>equals\<close>, \<open>to_string\<close>, \<open>concat\<close>, \<open>operator=\<close>). C27--C30:
  the pa7 dictionary (\<open>setValue\<close>, \<open>remove\<close>, the copy constructor, \<open>next\<close>). C31--C36:
  the pa2 list (refinement of \<open>List.h\<close>, exits, the two defects below, \<open>copyList\<close>,
  \<open>equals\<close>). C37--C40: the pa2 graph (shortest distances of \<open>BFS\<close>, shortest paths of
  \<open>getPath\<close>, \<open>addEdge\<close>, \<open>newGraph\<close>). Properties with hypotheses come with a witness
  theorem in this theory that applies them to a concrete input.

  \<^bold>\<open>Findings.\<close> \<open>pre_string()\<close> appends \<open>" (RED)"\<close> to red keys (C18);
  \<open>currentVal()\<close> raises with \<open>currentKey()\<close>'s message in pa7 and pa8;
  \<open>List::cleanup()\<close> leaves the cursor pointers on deleted nodes and miscounts
  \<open>pos_cursor\<close> (C22 and \<open>cleanup_position_shift\<close>); \<open>List::operator=\<close> does not copy the
  cursor (C26); in \<open>List.c\<close>, \<open>insertBefore\<close>/\<open>insertAfter\<close> print their precondition
  message without exiting and then follow the \<open>NULL\<close> cursor (C33), \<open>deleteFront\<close> on
  an undefined cursor makes \<open>index()\<close> return \<open>-2\<close> (C34), and \<open>equals\<close> ignores the
  cursor though its comment says "same state" (C36).

  \<^bold>\<open>Bounds and fuel.\<close> No loop uses fuel. The loops of the C++ code are \<open>fun\<close> or
  \<open>function\<close> with termination proofs; the cursor-guarded loops of \<open>Graph.c\<close> are
  \<open>partial_function (option)\<close> and their termination on valid input is a theorem
  (\<open>\<exists>\<close> a result). Keys and values of the dictionaries are \<open>string \<Rightarrow> int\<close> where a
  dump is printed; list elements, vertex labels and distances are \<open>int\<close>: distances
  are at most the order of the graph and no operation comes near the bounds of C
  \<open>int\<close>. Array cells are read with \<open>nat\<close> of the label; out-of-range reads (undefined
  in C) only happen on invalid graphs, which the theorems exclude by \<open>graph_inv\<close>.

  \<^bold>\<open>Not modelled.\<close> Input/output drivers (\<open>WordFrequency\<close>, \<open>Order\<close>, \<open>Shuffle\<close>,
  \<open>ListTest\<close>, \<open>Arithmetic\<close>, \<open>FindPath\<close>, \<open>FindComponents\<close>, \<open>Sparse\<close>, \<open>Lex\<close>'s
  \<open>main\<close>), destructors and \<open>freeList\<close>/\<open>freeGraph\<close> (they only free memory; a freed
  node is a node removed from the model), and the ADTs not yet covered:
  \<open>BigInteger\<close>, the generic list and matrix of pa4, the pa3 graph with DFS.
\<close>

section \<open>Example dictionaries\<close>

text \<open>The tree \<open>setValue\<close> builds from the calls \<open>("b",1)\<close>, \<open>("a",2)\<close>, \<open>("c",3)\<close>,
  with the iterator at \<open>"b"\<close>.\<close>

definition ex_abc :: "(string, int) Dictionary" where
  "ex_abc = \<lparr>root = Node BLACK (Node RED nil ''a'' 2 nil) ''b'' 1 (Node RED nil ''c'' 3 nil),
     current = Some ''b'', num_pairs = 3\<rparr>"

text \<open>The keys of a tree in pre-order, each with its node's colour.\<close>

fun preorder :: "('k, 'v) tree \<Rightarrow> ('k \<times> node_color) list" where
  "preorder nil = []"
| "preorder (Node c l k v r) = (k, c) # preorder l @ preorder r"

text \<open>The line \<open>preOrderString\<close> writes for one node.\<close>

definition key_line :: "string \<times> node_color \<Rightarrow> string" where
  "key_line p = fst p @ (if snd p = RED then '' (RED)'' else []) @ ''\<newline>''"

text \<open>The pa7 search tree \<open>setValue\<close> builds from \<open>("b",1)\<close>, \<open>("a",2)\<close>, \<open>("c",3)\<close>,
  with the iterator at \<open>"a"\<close>.\<close>

definition ex_bst :: "(string, int) BDictionary" where
  "ex_bst = \<lparr>broot = BNode (BNode BNil ''a'' 2 BNil) ''b'' 1 (BNode BNil ''c'' 3 BNil),
     bcurrent = Some ''a'', bnum_pairs = 3\<rparr>"

text \<open>A pa2 list \<open>1 2\<close> built by two \<open>append\<close> calls (cursor undefined), and a
  sequence of calls the header allows.\<close>

definition ex_C1 :: CList where
  "ex_C1 = append_C (append_C newList_C 1) 2"

definition ex_ops :: "clist_op list" where
  "ex_ops = [CAppend 1, CAppend 2, CMoveFront, CInsertAfter 5, CMoveNext, CSet 7]"

text \<open>A pa2 graph of order 4 with the edges \<open>1-2\<close>, \<open>1-3\<close>, \<open>3-4\<close> built by \<open>addEdge\<close>, and
  the graph \<open>BFS\<close> leaves with source 1.\<close>

definition ex_graph :: Graph where
  "ex_graph = (case Option.bind (addEdge (newGraph 4) 1 2) (\<lambda>r. case r of Inl e \<Rightarrow> None
     | Inr G \<Rightarrow> Option.bind (addEdge G 1 3) (\<lambda>r. case r of Inl e \<Rightarrow> None | Inr G \<Rightarrow> addEdge G 3 4)) of
     Some (Inr G) \<Rightarrow> G | _ \<Rightarrow> newGraph 0)"

definition ex_bfs :: Graph where
  "ex_bfs = (case BFS ex_graph 1 of Some (Inr G) \<Rightarrow> G | _ \<Rightarrow> ex_graph)"

section \<open>Properties of the dictionary\<close>

text \<open>C1: on a valid dictionary \<open>setValue(k, v)\<close> raises nothing and dereferences no null
  pointer, keeps every red-black and bookkeeping invariant, and acts on the pairs as the
  map update \<open>k \<mapsto> v\<close>.\<close>

theorem setValue_correct:
  assumes "dict_inv d"
  shows "\<exists>d'. setValue d k v = Inr d' \<and> dict_inv d' \<and> abs_map d' = (abs_map d)(k \<mapsto> v)"
  using setValue_abs [OF assms] by blast

theorem setValue_correct_witness:
  "\<exists>d'. setValue (Dictionary_empty :: (string, int) Dictionary) ''a'' 1 = Inr d' \<and> dict_inv d' \<and>
     abs_map d' = (abs_map Dictionary_empty)(''a'' \<mapsto> 1)"
  using setValue_correct [OF dict_inv_empty] .

text \<open>C2: on a valid dictionary that contains \<open>k\<close>, \<open>remove(k)\<close> succeeds, keeps the
  invariants, leaves the in-order sequence unchanged except that the pair of \<open>k\<close> is
  gone, and makes the iterator undefined exactly when it was at \<open>k\<close>.\<close>

theorem remove_correct:
  assumes "dict_inv d" and "contains d k"
  shows "\<exists>d'. remove d k = Inr d' \<and> dict_inv d' \<and> pairs d' = filter (\<lambda>p. fst p \<noteq> k) (pairs d) \<and>
    current d' = (if current d = Some k then None else current d)"
  using remove_pairs [OF assms] .

lemma ex_abc_inv: "dict_inv ex_abc"
  by code_simp

theorem remove_correct_witness:
  "\<exists>d'. remove ex_abc ''b'' = Inr d' \<and> dict_inv d' \<and>
     pairs d' = [(''a'', 2), (''c'', 3)] \<and> current d' = None"
proof -
  have c: "contains ex_abc ''b''" by code_simp
  have "pairs ex_abc = [(''a'', 2), (''b'', 1), (''c'', 3)]" "current ex_abc = Some ''b''"
    by (simp_all add: ex_abc_def pairs_def)
  then show ?thesis using remove_correct [OF ex_abc_inv c] by simp
qed

text \<open>C3: every dictionary a client can build from the constructor by successful calls of
  the public manipulation functions and by copying satisfies the class invariant: a
  red-black search tree whose node count is \<open>num_pairs\<close> and whose iterator, when defined,
  designates one of its nodes.\<close>

theorem reachable_dict_inv: "reachable d \<Longrightarrow> dict_inv d"
  by (rule reachable_inv)

theorem reachable_dict_inv_witness:
  "reachable (Dictionary_empty :: (string, int) Dictionary) \<and> dict_inv (Dictionary_empty :: (string, int) Dictionary)"
  using reachable_dict_inv [OF reachable.empty] reachable.empty by simp

text \<open>C4: the tree of a valid dictionary is balanced: its height \<open>h\<close> and its size \<open>n\<close>
  satisfy \<open>2^h \<le> (n + 1)^2\<close>, that is \<open>h \<le> 2 log2 (n + 1)\<close>.\<close>

theorem height_bound:
  assumes "dict_inv d"
  shows "2 ^ height (root d) \<le> (nat (size d) + 1) ^ 2"
  using rbt_height_size [of "root d"] assms by (simp add: dict_inv_def size_def)

theorem height_bound_witness: "2 ^ height (root ex_abc) \<le> (nat (size ex_abc) + 1) ^ 2"
  using height_bound [OF ex_abc_inv] .

text \<open>C5: \<open>getValue(k)\<close> on a valid dictionary returns the value paired with \<open>k\<close>, and
  raises the precondition's \<open>logic_error\<close> when there is none.\<close>

theorem getValue_spec:
  assumes "dict_inv d"
  shows "getValue d k = (case abs_map d k of
      None \<Rightarrow> Inl (Logic_error ''getValue(): pre-condition contains(k) not met'')
    | Some v \<Rightarrow> Inr v)"
  using getValue_abs [OF assms] .

theorem getValue_spec_witness:
  "getValue ex_abc ''c'' = Inr 3 \<and>
   getValue ex_abc ''d'' = Inl (Logic_error ''getValue(): pre-condition contains(k) not met'')"
proof -
  have "abs_map ex_abc ''c'' = Some 3" "abs_map ex_abc ''d'' = None" by code_simp+
  then show ?thesis using getValue_spec [OF ex_abc_inv, of "''c''"] getValue_spec [OF ex_abc_inv, of "''d''"]
    by simp
qed

text \<open>C6: \<open>remove(k)\<close> of a key the dictionary does not hold raises the precondition's
  \<open>logic_error\<close>, leaving the dictionary as it was.\<close>

theorem remove_absent_error:
  assumes "dict_inv d" and "abs_map d k = None"
  shows "remove d k = Inl (Logic_error ''remove(): pre-condition contains(k) not met'')"
  using assms by (simp add: remove_def contains_abs)

theorem remove_absent_error_witness:
  "remove ex_abc ''z'' = Inl (Logic_error ''remove(): pre-condition contains(k) not met'')"
proof -
  have "abs_map ex_abc ''z'' = None" by code_simp
  then show ?thesis using remove_absent_error [OF ex_abc_inv] by simp
qed

text \<open>C7: after \<open>setValue(k, v)\<close>, \<open>getValue(k)\<close> returns \<open>v\<close>, \<open>contains(k)\<close> holds, and
  \<open>size()\<close> has grown by one exactly when \<open>k\<close> was absent (an overwrite keeps it).\<close>

theorem setValue_getValue:
  assumes "dict_inv d"
  shows "\<exists>d'. setValue d k v = Inr d' \<and> getValue d' k = Inr v \<and> contains d' k \<and>
    size d' = size d + (if contains d k then 0 else 1)"
proof -
  obtain d' where d': "setValue d k v = Inr d'" "dict_inv d'" "abs_map d' = (abs_map d)(k \<mapsto> v)"
    "num_pairs d' = num_pairs d + (if abs_map d k = None then 1 else 0)"
    using setValue_abs [OF assms] by blast
  then show ?thesis
    using getValue_abs [OF d'(2)] contains_abs [OF d'(2)] contains_abs [OF assms] by (auto simp: size_def)
qed

theorem setValue_getValue_witness:
  "\<exists>d'. setValue ex_abc ''a'' 7 = Inr d' \<and> getValue d' ''a'' = Inr 7 \<and> contains d' ''a'' \<and> size d' = 3"
proof -
  have "contains ex_abc ''a''" "size ex_abc = 3" by code_simp+
  then show ?thesis using setValue_getValue [OF ex_abc_inv, of "''a''" 7] by simp
qed

text \<open>\<open>remove(k)\<close> of a held key decrements \<open>size()\<close> by one and \<open>contains(k)\<close> is
  false afterwards.\<close>

theorem remove_size:
  assumes "dict_inv d" and "contains d k"
  shows "\<exists>d'. remove d k = Inr d' \<and> size d' = size d - 1 \<and> \<not> contains d' k"
proof -
  obtain d' where d': "remove d k = Inr d'" "dict_inv d'" "abs_map d' = (abs_map d)(k := None)"
    "num_pairs d' = num_pairs d - 1"
    using remove_abs [OF assms] by blast
  then show ?thesis using contains_abs [OF d'(2)] by (simp add: size_def)
qed

theorem remove_size_witness:
  "\<exists>d'. remove ex_abc ''a'' = Inr d' \<and> size d' = 2 \<and> \<not> contains d' ''a''"
proof -
  have "contains ex_abc ''a''" "size ex_abc = 3" by code_simp+
  then show ?thesis using remove_size [OF ex_abc_inv, of "''a''"] by simp
qed

text \<open>C8: \<open>to_string()\<close> of a valid dictionary is the line \<open>"key : value\n"\<close> of every
  pair, each key once, in strictly increasing key order.\<close>

theorem to_string_sorted:
  assumes "dict_inv d"
  shows "to_string d = concat (map pair_line (pairs d)) \<and> sorted_wrt (<) (map fst (pairs d))"
  using dict_inv_sorted [OF assms] by (simp add: to_string_def inOrderString_concat pairs_def)

theorem to_string_sorted_witness:
  "to_string ex_abc = ''a : 2\<newline>b : 1\<newline>c : 3\<newline>'' \<and> sorted_wrt (<) (map fst (pairs ex_abc))"
proof -
  have "concat (map pair_line (pairs ex_abc)) = ''a : 2\<newline>b : 1\<newline>c : 3\<newline>''" by code_simp
  then show ?thesis using to_string_sorted [OF ex_abc_inv] by simp
qed

text \<open>C9: \<open>begin()\<close> followed by \<open>n\<close> calls of \<open>next()\<close> places the iterator at the
  \<open>n\<close>-th pair in key order, and past the last pair the iterator becomes undefined; the
  pairs are not changed on the way.\<close>

theorem forward_iteration:
  assumes "dict_inv d" and "pairs d \<noteq> []" and "n \<le> length (pairs d)"
  shows "\<exists>d'. run_ops (Begin # replicate n Next) d = Inr d' \<and> pairs d' = pairs d \<and>
    current d' = (if n < length (pairs d) then Some (fst (pairs d ! n)) else None)"
proof -
  have b: "dict_inv (iter_begin d)" "pairs (iter_begin d) = pairs d"
    "current (iter_begin d) = Some (fst (pairs d ! 0))"
    using iter_begin_abs [OF assms(1)] assms(2) by (auto simp: hd_conv_nth neq_Nil_conv)
  have "\<exists>d'. run_ops (replicate n Next) (iter_begin d) = Inr d' \<and> pairs d' = pairs d \<and>
    current d' = (if n < length (pairs d) then Some (fst (pairs d ! n)) else None)"
    using run_next_walk [OF b(1), of 0 n] assms(2,3) unfolding b(2,3) by auto
  then show ?thesis by simp
qed

theorem forward_iteration_witness:
  "\<exists>d'. run_ops [Begin, Next] ex_abc = Inr d' \<and> pairs d' = pairs ex_abc \<and> current d' = Some ''b''"
proof -
  have "pairs ex_abc = [(''a'', 2), (''b'', 1), (''c'', 3)]" by (simp add: ex_abc_def pairs_def)
  then show ?thesis using forward_iteration [OF ex_abc_inv, of 1] by simp
qed

text \<open>C10: \<open>prev()\<close> moves the iterator to the pair with the next smaller key, and makes it
  undefined at the first pair; the pairs are not changed.\<close>

theorem prev_moves_back:
  assumes "dict_inv d" and "current d = Some k" and "map fst (pairs d) = xs @ k # ys"
  shows "\<exists>d'. iter_prev d = Inr d' \<and> pairs d' = pairs d \<and>
    current d' = (if xs = [] then None else Some (last xs))"
proof -
  have "(case rev xs of [] \<Rightarrow> None | k' # _ \<Rightarrow> Some k') = (if xs = [] then None else Some (last xs))"
    by (cases xs rule: rev_cases) auto
  with iter_prev_abs [OF assms] show ?thesis by auto
qed

theorem prev_moves_back_witness:
  "\<exists>d'. iter_prev ex_abc = Inr d' \<and> pairs d' = pairs ex_abc \<and> current d' = Some ''a''"
proof -
  have "map fst (pairs ex_abc) = [''a''] @ ''b'' # [''c'']" "current ex_abc = Some ''b''"
    by (simp_all add: ex_abc_def pairs_def)
  then show ?thesis using prev_moves_back [OF ex_abc_inv, of "''b''" "[''a'']" "[''c'']"] by simp
qed

text \<open>C11: on a non-empty dictionary, \<open>end()\<close> places the iterator at the pair with the
  largest key, which \<open>currentKey()\<close> and \<open>currentVal()\<close> then return.\<close>

theorem end_current:
  assumes "dict_inv d" and "pairs d \<noteq> []"
  shows "currentKey (iter_end d) = Inr (fst (last (pairs d))) \<and>
    currentVal (iter_end d) = Inr (snd (last (pairs d)))"
proof -
  obtain ys y where py: "pairs d = ys @ [y]" using assms(2) rev_exhaust by blast
  have k: "current (iter_end d) = Some (fst y)" using iter_end_abs [OF assms(1)] py by simp
  have "distinct (map fst (pairs d))" using dict_inv_sorted [OF assms(1)] by simp
  then have "map_of (inorder (root d)) (fst y) = Some (snd y)"
    using py by (simp add: pairs_def map_of_eq_None_iff [symmetric] map_add_def)
  then have "val_of (fst (search (root (iter_end d), []) (fst y))) = Some (snd y)"
    using search_lookup [OF dict_inv_bst [OF assms(1)], of "fst y"] assms(2)
    by (auto simp: iter_end_def pairs_def)
  then show ?thesis using k py by (simp add: currentKey_def currentVal_def)
qed

theorem end_current_witness:
  "currentKey (iter_end ex_abc) = Inr ''c'' \<and> currentVal (iter_end ex_abc) = Inr 3"
proof -
  have "pairs ex_abc = [(''a'', 2), (''b'', 1), (''c'', 3)]" by (simp add: ex_abc_def pairs_def)
  then show ?thesis using end_current [OF ex_abc_inv] by simp
qed

text \<open>C12: without a defined iterator, \<open>next()\<close>, \<open>prev()\<close>, \<open>currentKey()\<close> and
  \<open>currentVal()\<close> raise their precondition's \<open>logic_error\<close>; \<open>currentVal()\<close> reports it
  with the message of \<open>currentKey()\<close>.\<close>

theorem undefined_iterator_errors:
  assumes "\<not> hasCurrent d"
  shows "iter_next d = Inl (Logic_error ''next(): pre-condition hasCurrent() not met'') \<and>
    iter_prev d = Inl (Logic_error ''prev(): pre-condition hasCurrent() not met'') \<and>
    currentKey d = Inl (Logic_error ''currentKey(): pre-condition hasCurrent() not met'') \<and>
    currentVal d = Inl (Logic_error ''currentKey(): pre-condition hasCurrent() not met'')"
  using assms by (simp add: hasCurrent_def iter_next_def iter_prev_def currentKey_def currentVal_def)

theorem undefined_iterator_errors_witness:
  "iter_next (Dictionary_empty :: (string, int) Dictionary) =
     Inl (Logic_error ''next(): pre-condition hasCurrent() not met'') \<and>
   iter_prev (Dictionary_empty :: (string, int) Dictionary) =
     Inl (Logic_error ''prev(): pre-condition hasCurrent() not met'') \<and>
   currentKey (Dictionary_empty :: (string, int) Dictionary) =
     Inl (Logic_error ''currentKey(): pre-condition hasCurrent() not met'') \<and>
   currentVal (Dictionary_empty :: (string, int) Dictionary) =
     Inl (Logic_error ''currentKey(): pre-condition hasCurrent() not met'')"
  using undefined_iterator_errors [of "Dictionary_empty :: (string, int) Dictionary"]
  by (simp add: hasCurrent_def)

text \<open>C13: the copy constructor builds a valid dictionary with exactly the source's
  pairs in the same order and an undefined iterator (content equality, not a structural
  clone).\<close>

theorem copy_correct:
  assumes "dict_inv D"
  shows "\<exists>D'. Dictionary_copy D = Inr D' \<and> dict_inv D' \<and> pairs D' = pairs D \<and> current D' = None"
  using preOrderCopy_into_empty [OF dict_inv_empty _ assms] by (simp add: Dictionary_copy_def pairs_def)

theorem copy_correct_witness:
  "\<exists>D'. Dictionary_copy ex_abc = Inr D' \<and> dict_inv D' \<and> pairs D' = pairs ex_abc \<and> current D' = None"
  using copy_correct [OF ex_abc_inv] .

text \<open>C14: \<open>operator=\<close> between distinct objects discards the target's pairs and
  iterator and gives it exactly the source's pairs.\<close>

theorem assign_correct:
  assumes "dict_inv d" and "dict_inv D"
  shows "\<exists>d'. assign d D = Inr d' \<and> dict_inv d' \<and> pairs d' = pairs D \<and> current d' = None"
  using preOrderCopy_into_empty [of "clear d" D] clear_inv [of d] assms(2) by (simp add: assign_def)

theorem assign_correct_witness:
  "\<exists>d'. assign (Dictionary_empty :: (string, int) Dictionary) ex_abc = Inr d' \<and> dict_inv d' \<and>
     pairs d' = pairs ex_abc \<and> current d' = None"
  using assign_correct [OF dict_inv_empty ex_abc_inv] .

text \<open>Removing every key once, in any order, succeeds at each step and leaves a
  dictionary of size 0 with an empty in-order sequence.\<close>

theorem remove_all_empty:
  assumes "dict_inv d" and "distinct ks" and "set ks = set (map fst (pairs d))"
  shows "\<exists>d'. run_ops (map Remove ks) d = Inr d' \<and> size d' = 0 \<and> pairs d' = []"
  using run_remove_all [OF assms] dict_inv_size by fastforce

theorem remove_all_empty_witness:
  "\<exists>d'. run_ops [Remove ''b'', Remove ''c'', Remove ''a''] ex_abc = Inr d' \<and> size d' = 0 \<and> pairs d' = []"
proof -
  have "set [''b'', ''c'', ''a''] = set (map fst (pairs ex_abc))" by (auto simp: ex_abc_def pairs_def)
  then show ?thesis using remove_all_empty [OF ex_abc_inv, of "[''b'', ''c'', ''a'']"] by simp
qed

section \<open>Properties of the fix-up loops and rotations\<close>

text \<open>C15: the insertion fix-up loop of \<open>RB_InsertFixUp\<close>, entered with a red node whose
  only possible violation is a red parent, terminates without dereferencing the sentinel's
  links, leaves the loop with a black parent (or at the root), and keeps the in-order
  sequence of the whole tree.\<close>

theorem insert_fixup_terminates:
  assumes "ins_inv z"
  shows "\<exists>z'. RB_InsertFixUp_loop z = Some z' \<and> parent_color z' = BLACK \<and>
    inorder (root_of z') = inorder (root_of z)"
  using RB_InsertFixUp_loop_inv [OF assms] by blast

theorem insert_fixup_terminates_witness:
  "\<exists>z'. RB_InsertFixUp_loop (Node RED nil (1::nat) () nil, [InLeft RED 2 () nil, InLeft BLACK 3 () nil]) = Some z' \<and>
     parent_color z' = BLACK \<and> inorder (root_of z') = [(1, ()), (2, ()), (3, ())]"
proof -
  have "ins_inv (Node RED nil (1::nat) () nil, [InLeft RED 2 () nil, InLeft BLACK 3 () nil])"
    by (simp add: ins_inv_def)
  then show ?thesis using insert_fixup_terminates by fastforce
qed

text \<open>C16: the deletion fix-up loop of \<open>RB_DeleteFixUp\<close>, entered at the node that took
  the place of a removed black node (one black short on its paths), terminates without
  dereferencing the sentinel's links, stops at the root or at a red node, and keeps the
  in-order sequence of the whole tree.\<close>

theorem delete_fixup_terminates:
  assumes "del_inv z"
  shows "\<exists>z'. RB_DeleteFixUp_loop z = Some z' \<and> (snd z' = [] \<or> color (fst z') = RED) \<and>
    inorder (root_of z') = inorder (root_of z)"
  using RB_DeleteFixUp_loop_inv [OF assms] by blast

theorem delete_fixup_terminates_witness:
  "\<exists>z'. RB_DeleteFixUp_loop (nil, [InLeft BLACK (2::nat) () (Node BLACK nil 3 () nil)]) = Some z' \<and>
     (snd z' = [] \<or> color (fst z') = RED) \<and> inorder (root_of z') = [(2, ()), (3, ())]"
proof -
  have "del_inv (nil, [InLeft BLACK (2::nat) () (Node BLACK nil 3 () nil)])"
    by (simp add: del_inv_def)
  then show ?thesis using delete_fixup_terminates by fastforce
qed



section \<open>Concrete scenarios\<close>

text \<open>Inserting \<open>"b"\<close>, \<open>"a"\<close>, \<open>"c"\<close>, \<open>"a"\<close> with values 1, 2, 3, 4 gives size 3,
  \<open>getValue("a") = 4\<close> and the in-order dump \<open>"a : 4\nb : 1\nc : 3\n"\<close>.\<close>

theorem scenario_bac:
  "map_sum id (\<lambda>d. (size d, getValue d ''a'', to_string d))
     (run_ops [SetValue ''b'' 1, SetValue ''a'' 2, SetValue ''c'' 3, SetValue ''a'' 4] Dictionary_empty) =
   Inr (3, Inr 4, ''a : 4\<newline>b : 1\<newline>c : 3\<newline>'')"
  by code_simp

text \<open>Inserting seven keys in increasing order keeps the height at 4, within the
  bound \<open>2 log2 (size + 1) = 6\<close>: the fix-ups rebalance the tree.\<close>

theorem sorted_inserts_height:
  "map_sum id (\<lambda>d. (height (root d), size d))
     (run_ops (map (\<lambda>k. SetValue k (0::int)) [''1'', ''2'', ''3'', ''4'', ''5'', ''6'', ''7'']) Dictionary_empty) =
   Inr (4, 7)"
  by code_simp

section \<open>The text dumps\<close>


theorem pre_string_keys_only_counterexample:
  "pre_string ex_abc = ''b\<newline>a (RED)\<newline>c (RED)\<newline>'' \<and>
   pre_string ex_abc \<noteq> concat (map (\<lambda>k. k @ ''\<newline>'') (map fst (preorder (root ex_abc))))"
  by code_simp

section \<open>Properties of the cursor list of pa6\<close>

text \<open>C19: every sequence of the state-changing members of \<open>List\<close> (moves, inserts, sets,
  erases, \<open>clear()\<close>, \<open>findNext()\<close>, \<open>findPrev()\<close>), started on a new list, behaves as the
  comments of \<open>List.cpp\<close> describe on the pair (elements before the cursor, elements after it):
  each call that raises raises the documented \<open>runtime_error\<close>, and each state reached
  satisfies the list invariant and represents the abstract state.\<close>

theorem list_refinement: "sim_res (run_L cs List_empty) (abs_run cs ([], []))"
  using run_sim [of List_empty cs] List_empty_spec by simp

text \<open>C20: no sequence of those calls on a new list follows a link of a deleted node or the
  null link of a dummy node: the only exceptions are the documented \<open>runtime_error\<close>s.\<close>

theorem list_memory_safe:
  "run_L cs List_empty \<noteq> Inl Use_after_free \<and> run_L cs List_empty \<noteq> Inl Null_dereference"
proof (cases "run_L cs List_empty")
  case (Inl e)
  then have "abs_run cs ([], []) = Inl e" using run_sim [of List_empty cs] List_empty_spec by simp
  then show ?thesis using Inl abs_run_error by fastforce
qed simp

text \<open>\<open>cleanup()\<close> of the list \<open>(1, 2, 1)\<close> returns the list \<open>(1, 2)\<close>.\<close>

theorem cleanup_elems_witness:
  "list_inv \<lparr>nodes = [(2, 1), (3, 2), (4, 1)], beforeCursor = 3, afterCursor = 4, pos_cursor = 2,
      num_elements = 3, next_id = 5\<rparr> \<and>
   (\<exists>L'. cleanup \<lparr>nodes = [(2, 1), (3, 2), (4, 1)], beforeCursor = 3, afterCursor = 4, pos_cursor = 2,
      num_elements = 3, next_id = 5\<rparr> = Inr L' \<and> elems L' = [1, 2] \<and> num_elements L' = 2)"
proof -
  have i: "list_inv \<lparr>nodes = [(2, 1), (3, 2), (4, 1)], beforeCursor = 3, afterCursor = 4, pos_cursor = 2,
      num_elements = 3, next_id = 5\<rparr>" by code_simp
  have "dedup (elems \<lparr>nodes = [(2, 1), (3, 2), (4, 1)], beforeCursor = 3, afterCursor = 4, pos_cursor = 2,
      num_elements = 3, next_id = 5\<rparr>) = [1, 2]" by code_simp
  then show ?thesis using cleanup_elems [OF i] i by fastforce
qed


text \<open>On \<open>(1, 1, 2, 3, 4)\<close> with the cursor between \<open>2\<close> and \<open>3\<close>, \<open>cleanup()\<close> keeps the
  cursor pointers around \<open>2\<close> and \<open>3\<close> but leaves \<open>position()\<close> at 3, one past them.\<close>

theorem cleanup_position_shift:
  "(case rbind (run_L [InsertBefore 1, InsertBefore 1, InsertBefore 2, InsertAfter 4, InsertAfter 3]
       List_empty) cleanup of
     Inr L' \<Rightarrow> elems L' = [1, 2, 3, 4] \<and> position L' = 3 \<and> peekPrev L' = Inr 2 \<and> \<not> list_inv L'
   | Inl _ \<Rightarrow> False)"
  by code_simp

text \<open>Two lists \<open>(1, 2)\<close> built from different nodes, with different cursors, are equal.\<close>

theorem equals_spec_witness:
  "list_inv \<lparr>nodes = [(2, 1), (3, 2)], beforeCursor = 0, afterCursor = 2, pos_cursor = 0,
      num_elements = 2, next_id = 4\<rparr> \<and>
   list_inv \<lparr>nodes = [(5, 1), (7, 2)], beforeCursor = 7, afterCursor = 1, pos_cursor = 2,
      num_elements = 2, next_id = 8\<rparr> \<and>
   equals_L \<lparr>nodes = [(2, 1), (3, 2)], beforeCursor = 0, afterCursor = 2, pos_cursor = 0,
      num_elements = 2, next_id = 4\<rparr>
    \<lparr>nodes = [(5, 1), (7, 2)], beforeCursor = 7, afterCursor = 1, pos_cursor = 2,
      num_elements = 2, next_id = 8\<rparr>"
proof -
  have a: "list_inv \<lparr>nodes = [(2, 1), (3, 2)], beforeCursor = 0, afterCursor = 2, pos_cursor = 0,
      num_elements = 2, next_id = 4\<rparr>" by code_simp
  have b: "list_inv \<lparr>nodes = [(5, 1), (7, 2)], beforeCursor = 7, afterCursor = 1, pos_cursor = 2,
      num_elements = 2, next_id = 8\<rparr>" by code_simp
  show ?thesis using equals_spec [OF a b] a b by (simp add: elems_def)
qed

text \<open>C26: \<open>operator=\<close> (and the copy constructor it calls) gives a valid list with the
  source's elements in order and the cursor at the back, whatever the source's cursor.\<close>

theorem list_assign_copy: "\<exists>L'. assign_L L R = Inr L' \<and> list_inv L' \<and> abs_L L' = (elems R, [])"
  using List_copy_spec [of R] by (simp add: assign_L_def)

section \<open>Witnesses for the pa7 search tree\<close>

lemma ex_bst_inv: "bdict_inv ex_bst"
  by code_simp

text \<open>Adding \<open>"d"\<close> to the example tree.\<close>

theorem setValue_B_abs_witness:
  "bdict_inv ex_bst \<and> bdict_inv (setValue_B ex_bst ''d'' 4) \<and>
   map_of (bpairs (setValue_B ex_bst ''d'' 4)) ''d'' = Some 4 \<and> size_B (setValue_B ex_bst ''d'' 4) = 4"
proof -
  have "''d'' \<notin> set (keys (bpairs ex_bst))" "size_B ex_bst = 3" by code_simp+
  then show ?thesis using setValue_B_abs [OF ex_bst_inv, of "''d''" 4] ex_bst_inv by simp
qed

text \<open>Removing the root \<open>"b"\<close>, which has two children, from the example tree.\<close>

theorem remove_B_abs_witness:
  "bdict_inv ex_bst \<and> ''b'' \<in> set (keys (bpairs ex_bst)) \<and>
   (\<exists>d'. remove_B ex_bst ''b'' = Inr d' \<and> bdict_inv d' \<and> bpairs d' = [(''a'', 2), (''c'', 3)] \<and>
      bcurrent d' = Some ''a'')"
proof -
  have k: "''b'' \<in> set (keys (bpairs ex_bst))" by code_simp
  have f: "filter (\<lambda>p. fst p \<noteq> ''b'') (bpairs ex_bst) = [(''a'', 2), (''c'', 3)]" by code_simp
  show ?thesis using remove_B_abs [OF ex_bst_inv k] ex_bst_inv k f by (auto simp: ex_bst_def)
qed

text \<open>The copy of the example tree is the same tree.\<close>

theorem BDictionary_copy_tree_witness:
  "bst_B (broot ex_bst) \<and> broot (BDictionary_copy ex_bst) = broot ex_bst \<and> size_B (BDictionary_copy ex_bst) = 3"
proof -
  have b: "bst_B (broot ex_bst)" "length (bpairs ex_bst) = 3" by code_simp+
  show ?thesis using BDictionary_copy_tree [OF b(1)] b by (simp add: size_B_def)
qed

text \<open>From \<open>"a"\<close>, \<open>next()\<close> reaches \<open>"b"\<close>.\<close>

theorem next_B_abs_witness:
  "bdict_inv ex_bst \<and> bcurrent ex_bst = Some ''a'' \<and> keys (bpairs ex_bst) = [] @ ''a'' # [''b'', ''c''] \<and>
   (\<exists>d'. next_B ex_bst = Inr d' \<and> bcurrent d' = Some ''b'')"
proof -
  have c: "bcurrent ex_bst = Some ''a''" "keys (bpairs ex_bst) = [] @ ''a'' # [''b'', ''c'']" by code_simp+
  show ?thesis using next_B_abs [OF ex_bst_inv c] ex_bst_inv c by auto
qed

section \<open>Witnesses for the pa2 C list\<close>



theorem insert_undefined_null_deref_witness:
  "clist_inv ex_C1 \<and> index_C ex_C1 < 0 \<and> 0 < length_C ex_C1 \<and>
   insertBefore_C ex_C1 5 = Inl Null_dereference \<and> insertAfter_C ex_C1 6 = Inl Null_dereference"
proof -
  have h: "clist_inv ex_C1" "index_C ex_C1 < 0" "0 < length_C ex_C1" by code_simp+
  show ?thesis using insert_undefined_null_deref [OF h, of 5 6] h by simp
qed

theorem deleteFront_undefined_index_witness:
  "clist_inv ex_C1 \<and> index_C ex_C1 = -1 \<and> 1 < length_C ex_C1 \<and>
   (\<exists>L'. deleteFront_C ex_C1 = Inr L' \<and> index_C L' = -2)"
proof -
  have h: "clist_inv ex_C1" "index_C ex_C1 = -1" "1 < length_C ex_C1" by code_simp+
  show ?thesis using deleteFront_undefined_index [OF h] h by simp
qed

theorem copyList_C_spec_witness:
  "clist_inv (moveFront_C ex_C1) \<and> absC (copyList_C (moveFront_C ex_C1)) = ([1, 2], None)"
proof -
  have h: "clist_inv (moveFront_C ex_C1)" by code_simp
  have e: "celems (moveFront_C ex_C1) = [1, 2]" by code_simp
  show ?thesis using copyList_C_spec [OF h] h e by simp
qed

theorem equals_C_iff_witness:
  "clist_inv (moveFront_C ex_C1) \<and> clist_inv ex_C1 \<and> equals_C (moveFront_C ex_C1) ex_C1 \<and>
   absC (moveFront_C ex_C1) \<noteq> absC ex_C1"
proof -
  have h: "clist_inv (moveFront_C ex_C1)" "clist_inv ex_C1" by code_simp+
  have e: "celems (moveFront_C ex_C1) = celems ex_C1" "absC (moveFront_C ex_C1) \<noteq> absC ex_C1" by code_simp+
  show ?thesis using equals_C_iff [OF h] h e by simp
qed

section \<open>Witnesses for the pa2 graph\<close>

theorem BFS_shortest_paths_witness:
  "graph_inv ex_graph \<and> 1 \<in> set (vertices ex_graph) \<and>
   (\<exists>G'. BFS ex_graph 1 = Some (Inr G') \<and> getSource G' = 1 \<and> getDist G' 4 = Inr 2 \<and> getDist G' 2 = Inr 1)"
proof -
  have h: "graph_inv ex_graph" "1 \<in> set (vertices ex_graph)" "4 \<in> set (vertices ex_graph)" "2 \<in> set (vertices ex_graph)"
    by code_simp+
  have r: "reach ex_graph 1 2 4" "\<not> reach ex_graph 1 1 4" "reach ex_graph 1 1 2" by code_simp+
  have l4: "(LEAST k. reach ex_graph 1 k 4) = 2"
  proof (rule Least_equality)
    show "reach ex_graph 1 2 4" by (rule r(1))
    fix k assume k: "reach ex_graph 1 k 4"
    show "2 \<le> k"
    proof (rule ccontr)
      assume "\<not> 2 \<le> k"
      then have "k \<le> 1" by simp
      then show False using r(2) reach_mono [OF k] by blast
    qed
  qed
  have l2: "(LEAST k. reach ex_graph 1 k 2) = 1"
  proof (rule Least_equality)
    show "reach ex_graph 1 1 2" by (rule r(3))
    fix k assume "reach ex_graph 1 k 2"
    then show "1 \<le> k" by (cases k) auto
  qed
  from BFS_shortest_paths [OF h(1,2)] obtain G' where "BFS ex_graph 1 = Some (Inr G')" "getSource G' = 1"
    "\<forall>v \<in> set (vertices ex_graph). getDist G' v = Inr (if \<exists>k. reach ex_graph 1 k v then int (LEAST k. reach ex_graph 1 k v) else INF_G)"
    by blast
  then show ?thesis using h r l4 l2 by auto
qed

theorem getPath_shortest_walk_witness:
  "graph_inv ex_graph \<and> BFS ex_graph 1 = Some (Inr ex_bfs) \<and> clist_inv newList_C \<and>
   (\<exists>L'. getPath newList_C ex_bfs 4 = Some (Inr L') \<and> clist_inv L' \<and> celems L' = [1, 3, 4])"
proof -
  have h: "graph_inv ex_graph" "1 \<in> set (vertices ex_graph)" "BFS ex_graph 1 = Some (Inr ex_bfs)"
    "clist_inv newList_C" "4 \<in> set (vertices ex_graph)" by code_simp+
  have "map_option (map_sum id celems) (getPath newList_C ex_bfs 4) = Some (Inr [1, 3, 4])" by code_simp
  moreover obtain L' where "getPath newList_C ex_bfs 4 = Some (Inr L')" "clist_inv L'"
    using getPath_shortest_walk [OF h] by blast
  ultimately show ?thesis using h by auto
qed

theorem addEdge_spec_witness:
  "graph_inv (newGraph 4) \<and> (\<exists>G'. addEdge (newGraph 4) 1 2 = Some (Inr G') \<and> adj G' 2 = [1] \<and> adj G' 1 = [2] \<and>
     getSize G' = 1)"
proof -
  have h: "graph_inv (newGraph 4)" "1 \<in> set (vertices (newGraph 4))" "2 \<in> set (vertices (newGraph 4))"
    "adj (newGraph 4) 1 = []" "adj (newGraph 4) 2 = []" "gsize (newGraph 4) = 0" by code_simp+
  show ?thesis using addEdge_spec [OF h(1-3)] h by (auto simp: getSize_def Let_def)
qed


end
